(* ===== verification/Prelude.thy ===== *)
theory Prelude
  imports Main "HOL-Library.Word" "HOL-Library.Monad_Syntax"
begin

text \<open>
  Shared vocabulary of the development: the machine types of the C++ code as
  fixed-width words, bit sequences of words and of byte strings (most significant
  bit first, the order every bit stream of the repository uses), the compiler
  builtins the code calls, and generic facts about lists, options and words that
  the component theories rest on.
\<close>

unbundle bit_operations_syntax

named_theorems byte_simps "layout of words as byte strings"
named_theorems codec_simps "decoder applied to encoder output followed by anything"

subsection \<open>Machine types\<close>

text \<open>
  \<open>int64_t\<close> and \<open>uint64_t\<close> are the same 64 bits; a signed reading is written
  with \<^const>\<open>sint\<close>. Signed overflow wraps, as the compiled code does. A
  \<open>double\<close> is only ever copied, compared bitwise or XORed through
  \<open>encode_double\<close>/\<open>decode_double\<close>, so it is its 64-bit pattern.
\<close>

type_synonym u8 = "8 word"
type_synonym u16 = "16 word"
type_synonym u32 = "32 word"
type_synonym u64 = "64 word"
type_synonym i64 = "64 word"
type_synonym double = "64 word"
type_synonym bytes = "8 word list"

subsection \<open>Outcomes of C++ code\<close>

text \<open>
  \<open>Throw\<close> is a raised \<open>TSDBException\<close>; \<open>Undef\<close> is behaviour the C++ standard
  leaves undefined (an access outside the buffer whose value is used, a shift by
  the width or more, a read of an uninitialised variable).
\<close>

datatype 'a result = Ok 'a | Throw | Undef

primrec res_bind :: "'a result \<Rightarrow> ('a \<Rightarrow> 'b result) \<Rightarrow> 'b result" where
  "res_bind (Ok x) f = f x"
| "res_bind Throw f = Throw"
| "res_bind Undef f = Undef"

lemma res_bind_eq_Ok: "res_bind m f = Ok y \<longleftrightarrow> (\<exists>x. m = Ok x \<and> f x = Ok y)"
  by (cases m) simp_all

lemma res_bind_cong [fundef_cong]:
  "m = m' \<Longrightarrow> (\<And>x. m' = Ok x \<Longrightarrow> f x = g x) \<Longrightarrow> res_bind m f = res_bind m' g"
  by (cases m') simp_all

subsection \<open>Lists\<close>

lemma take_append_exact [simp]: "length xs = n \<Longrightarrow> take n (xs @ ys) = xs"
  by simp

lemma drop_append_exact [simp]: "length xs = n \<Longrightarrow> drop n (xs @ ys) = ys"
  by simp

lemma drop_eq_Cons_iff:
  "drop n xs = y # ys \<longleftrightarrow> n < length xs \<and> xs ! n = y \<and> drop (Suc n) xs = ys"
  by (metis Cons_nth_drop_Suc drop_eq_Nil linorder_not_less list.inject list.distinct(1))

lemma list_update_last: "xs \<noteq> [] \<Longrightarrow> xs[length xs - 1 := y] = butlast xs @ [y]"
  by (metis append_butlast_last_id butlast_list_update last_list_update
      length_greater_0_conv list_update_nonempty length_list_update)

subsection \<open>Bit strings, most significant bit first\<close>

definition msb_bits :: "nat \<Rightarrow> 'a::len word \<Rightarrow> bool list" where
  "msb_bits n w = map (bit w) (rev [0..<n])"

definition byte_bits :: "u8 \<Rightarrow> bool list" where
  "byte_bits b = msb_bits 8 b"

definition bytes_bits :: "bytes \<Rightarrow> bool list" where
  "bytes_bits bs = concat (map byte_bits bs)"

definition bits_acc :: "'a::len word \<Rightarrow> bool list \<Rightarrow> 'a word" where
  "bits_acc a bs = foldl (\<lambda>a b. push_bit 1 a OR of_bool b) a bs"

lemma msb_bits_0 [simp]: "msb_bits 0 w = []"
  by (simp add: msb_bits_def)

lemma msb_bits_Suc: "msb_bits (Suc n) w = bit w n # msb_bits n w"
  by (simp add: msb_bits_def)

lemma length_msb_bits [simp]: "length (msb_bits n w) = n"
  by (simp add: msb_bits_def)

lemma nth_msb_bits: "i < n \<Longrightarrow> msb_bits n w ! i = bit w (n - 1 - i)"
  by (simp add: msb_bits_def rev_nth)

lemma msb_bits_add: "msb_bits (m + n) w = msb_bits m (drop_bit n w) @ msb_bits n w"
  by (induction m) (simp_all add: msb_bits_Suc bit_drop_bit_eq add.commute)

lemma msb_bits_take_bit: "n \<le> m \<Longrightarrow> msb_bits n (take_bit m w) = msb_bits n w"
  by (auto simp: msb_bits_def bit_take_bit_iff)

lemma msb_bits_zero: "msb_bits n 0 = replicate n False"
  by (induction n) (simp_all add: msb_bits_Suc)

lemma length_byte_bits [simp]: "length (byte_bits b) = 8"
  by (simp add: byte_bits_def)

lemma bytes_bits_Nil [simp]: "bytes_bits [] = []"
  by (simp add: bytes_bits_def)

lemma bytes_bits_Cons [simp]: "bytes_bits (b # bs) = byte_bits b @ bytes_bits bs"
  by (simp add: bytes_bits_def)

lemma bytes_bits_append [simp]: "bytes_bits (xs @ ys) = bytes_bits xs @ bytes_bits ys"
  by (simp add: bytes_bits_def)

lemma length_bytes_bits [simp]: "length (bytes_bits bs) = 8 * length bs"
  by (induction bs) simp_all

lemma drop_bytes_bits: "drop (8 * n) (bytes_bits bs) = bytes_bits (drop n bs)"
proof (induction n arbitrary: bs)
  case (Suc n)
  then show ?case by (cases bs) simp_all
qed simp

lemma take_bytes_bits: "take (8 * n) (bytes_bits bs) = bytes_bits (take n bs)"
proof (induction n arbitrary: bs)
  case (Suc n)
  then show ?case by (cases bs) simp_all
qed simp

lemma nth_bytes_bits:
  "i < length bs \<Longrightarrow> k < 8 \<Longrightarrow> bytes_bits bs ! (8 * i + k) = bit (bs ! i) (7 - k)"
proof (induction i arbitrary: bs)
  case 0
  then show ?case by (cases bs) (simp_all add: nth_append byte_bits_def nth_msb_bits)
next
  case (Suc i)
  then show ?case by (cases bs) (simp_all add: nth_append)
qed

lemma bits_acc_Nil [simp]: "bits_acc a [] = a"
  by (simp add: bits_acc_def)

lemma bits_acc_Cons [simp]: "bits_acc a (b # bs) = bits_acc (push_bit 1 a OR of_bool b) bs"
  by (simp add: bits_acc_def)

lemma bits_acc_append [simp]: "bits_acc a (xs @ ys) = bits_acc (bits_acc a xs) ys"
  by (simp add: bits_acc_def)

text \<open>Reading back \<open>n\<close> bits rebuilds the low \<open>n\<close> bits of the word.\<close>

lemma bits_acc_msb_bits:
  fixes a :: "'a::len word"
  shows "bits_acc a (msb_bits n w) = push_bit n a OR take_bit n w"
proof (induction n arbitrary: a)
  case (Suc n)
  have "push_bit n (push_bit 1 a OR of_bool (bit w n)) OR take_bit n w
      = push_bit (Suc n) a OR take_bit (Suc n) w"
    by (rule bit_eqI)
      (auto simp: bit_or_iff bit_push_bit_iff bit_take_bit_iff bit_1_iff less_Suc_eq
        not_less le_Suc_eq)
  then show ?case by (simp add: msb_bits_Suc Suc.IH)
qed simp

lemma bits_acc_0_msb_bits: "bits_acc 0 (msb_bits n w) = take_bit n w"
  by (simp add: bits_acc_msb_bits)

text \<open>The same bits seen through a word of another width.\<close>

lemma msb_bits_ucast:
  fixes w :: "'a::len word"
  shows "n \<le> LENGTH('b) \<Longrightarrow> msb_bits n (ucast w :: 'b::len word) = msb_bits n w"
  by (auto simp: msb_bits_def bit_ucast_iff)

lemma take_bit_length_eq: "LENGTH('a) \<le> n \<Longrightarrow> take_bit n w = (w :: 'a::len word)"
  by (rule bit_eqI) (auto simp: bit_take_bit_iff dest: bit_imp_le_length)

lemma bits_acc_byte:
  fixes a :: u64
  shows "bits_acc a (byte_bits b) = push_bit 8 a OR ucast b"
proof -
  have "take_bit 8 (ucast b :: u64) = ucast b"
    by (rule bit_eqI) (auto simp: bit_take_bit_iff bit_ucast_iff dest: bit_imp_le_length)
  moreover have "byte_bits b = msb_bits 8 (ucast b :: u64)"
    by (simp add: byte_bits_def msb_bits_ucast)
  ultimately show ?thesis by (simp add: bits_acc_msb_bits)
qed

subsection \<open>Words as byte strings\<close>

text \<open>\<open>be_bytes n w\<close> lays out the low \<open>n\<close> bytes of \<open>w\<close>, most significant first.\<close>

primrec be_bytes :: "nat \<Rightarrow> 'a::len word \<Rightarrow> bytes" where
  "be_bytes 0 w = []"
| "be_bytes (Suc n) w = ucast (drop_bit (8 * n) w) # be_bytes n w"

definition be_acc :: "'a::len word \<Rightarrow> bytes \<Rightarrow> 'a word" where
  "be_acc a bs = foldl (\<lambda>a b. push_bit 8 a OR ucast b) a bs"

lemma be_acc_Nil [simp]: "be_acc a [] = a"
  by (simp add: be_acc_def)

lemma be_acc_Cons [simp]: "be_acc a (b # bs) = be_acc (push_bit 8 a OR ucast b) bs"
  by (simp add: be_acc_def)

lemma length_be_bytes [simp]: "length (be_bytes n w) = n"
  by (induction n) simp_all

lemma be_acc_be_bytes:
  fixes a :: "'a::len word"
  shows "be_acc a (be_bytes n w) = push_bit (8 * n) a OR take_bit (8 * n) w"
proof (induction n arbitrary: a)
  case (Suc n)
  have "push_bit (8 * n) (push_bit 8 a OR ucast (ucast (drop_bit (8 * n) w) :: u8))
        OR take_bit (8 * n) w
      = push_bit (8 * Suc n) a OR take_bit (8 * Suc n) w"
    by (rule bit_word_eqI)
      (auto simp: bit_or_iff bit_push_bit_iff bit_take_bit_iff bit_ucast_iff bit_drop_bit_eq
        algebra_simps not_less)
  then show ?case by (simp add: Suc.IH)
qed simp

lemma be_acc_0_be_bytes: "LENGTH('a) \<le> 8 * n \<Longrightarrow> be_acc 0 (be_bytes n w) = (w :: 'a::len word)"
  by (simp add: be_acc_be_bytes take_bit_length_eq)

lemma bytes_bits_be_bytes: "bytes_bits (be_bytes n w) = msb_bits (8 * n) w"
proof (induction n)
  case (Suc n)
  have "byte_bits (ucast (drop_bit (8 * n) w)) = msb_bits 8 (drop_bit (8 * n) w)"
    by (simp add: byte_bits_def msb_bits_ucast)
  then show ?case
    using Suc msb_bits_add [of 8 "8 * n" w] by (simp add: add.commute)
qed simp

text \<open>Masking with \<open>0xff\<close> before narrowing to a byte changes nothing.\<close>

lemma and_255_eq: "w AND 255 = take_bit 8 w" for w :: "'a::len word"
  using take_bit_eq_mask [of 8 w] by (simp add: mask_eq_exp_minus_1 numeral_2_eq_2)

lemma ucast_and_255: "ucast (w AND 255) = (ucast w :: u8)" for w :: "'a::len word"
  by (rule bit_word_eqI) (simp add: and_255_eq bit_take_bit_iff bit_ucast_iff)

text \<open>Sums of disjoint bit fields are unions of them.\<close>

lemma add_eq_or_disjoint: "x AND y = 0 \<Longrightarrow> x + y = x OR y" for x y :: "'a::len word"
  by (rule disjunctive_add_eq_or)

lemma push_bit_8_plus_byte:
  fixes a :: "'a::len word" and b :: u8
  shows "push_bit 8 a + ucast b = push_bit 8 a OR ucast b"
  by (rule add_eq_or_disjoint, rule bit_word_eqI)
    (auto simp: bit_and_iff bit_push_bit_iff bit_ucast_iff dest: bit_imp_le_length)

subsection \<open>Single bits\<close>

lemma bit_nonzero_iff: "(w AND push_bit n 1 \<noteq> 0) = bit w n" for w :: "'a::len word"
  by (simp add: bit_iff_and_push_bit_not_eq_0)

lemma and_1_nonzero_iff: "(w AND 1 \<noteq> 0) = bit w 0" for w :: "'a::len word"
  using bit_nonzero_iff [of w 0] by simp

lemma bit_times_2_iff: "bit (w * 2) i \<longleftrightarrow> i < LENGTH('a) \<and> 0 < i \<and> bit w (i - 1)"
  for w :: "'a::len word"
  using bit_double_iff [of w i] by (auto simp: mult.commute dest: bit_imp_le_length)

lemma and_128_nonzero_iff: "(b AND 128 \<noteq> 0) = bit b 7" for b :: u8
  using bit_nonzero_iff [of b 7] by (simp add: push_bit_eq_mult)

lemma and_127_eq: "w AND 127 = take_bit 7 w" for w :: "'a::len word"
  using take_bit_eq_mask [of 7 w] by (simp add: mask_eq_exp_minus_1)

lemma bit_128_iff: "bit (128 :: u8) n \<longleftrightarrow> n = 7"
proof -
  have "(128 :: u8) = push_bit 7 1" by (simp add: push_bit_eq_mult)
  then show ?thesis by (simp only: bit_push_bit_iff bit_1_iff) (auto dest: bit_imp_le_length)
qed

lemma take_or_push_drop: "take_bit n v OR push_bit n (drop_bit n v) = v"
  for v :: "'a::len word"
proof (rule bit_word_eqI)
  fix i
  show "bit (take_bit n v OR push_bit n (drop_bit n v)) i = bit v i" if "i < LENGTH('a)"
    using that by (cases "i < n") (simp_all add: bit_simps)
qed

lemma unat_exp: "n < LENGTH('a) \<Longrightarrow> unat (2 ^ n :: 'a::len word) = 2 ^ n"
  using of_nat_inverse [of "2 ^ n" "2 ^ n :: 'a word"] by simp

lemma unat_drop_bit_div: "unat (drop_bit n w) = unat w div 2 ^ n" for w :: "'a::len word"
  by (simp only: unat_drop_bit_eq) (simp add: drop_bit_eq_div)

lemma drop_bit_zero_iff_less:
  "n < LENGTH('a) \<Longrightarrow> drop_bit n w = 0 \<longleftrightarrow> w < 2 ^ n" for w :: "'a::len word"
  by (simp only: unat_eq_0 [symmetric] unat_drop_bit_div)
     (simp add: div_eq_0_iff word_less_nat_alt unat_exp)

lemma drop_bit_zeroD: "drop_bit n w = 0 \<Longrightarrow> n \<le> i \<Longrightarrow> \<not> bit w i" for w :: "'a::len word"
  using bit_drop_bit_eq [of n w] by (metis bit_0_eq bot_apply bot_bool_def comp_apply le_add_diff_inverse)

lemma unat_drop_7: "unat (drop_bit 7 w) = unat w div 128" for w :: "'a::len word"
  by (simp add: unat_drop_bit_div)

lemma unat_drop_7_less: "drop_bit 7 w \<noteq> 0 \<Longrightarrow> unat (drop_bit 7 w) < unat w" for w :: "'a::len word"
proof -
  assume "drop_bit 7 w \<noteq> 0"
  then have "w \<noteq> 0" by auto
  then have "0 < unat w" by (simp add: unat_gt_0)
  then show ?thesis by (simp add: unat_drop_7)
qed

lemma bit_128_int_iff: "bit (128 :: int) n \<longleftrightarrow> n = 7"
  using bit_exp_iff [of 7 n, where 'a=int] by auto

lemma byte_or_128: "8 \<le> LENGTH('a) \<Longrightarrow> (ucast (v OR 128) :: u8) = ucast (v AND 127) OR 128" for v :: "'a::len word"
  by (simp only: and_127_eq, rule bit_word_eqI)
     (auto simp: bit_simps bit_128_int_iff)

lemma byte_and_127: "drop_bit 7 v = 0 \<Longrightarrow> v AND 127 = v" for v :: "'a::len word"
  using take_or_push_drop [of 7 v] by (simp add: and_127_eq)

subsection \<open>Compiler builtins\<close>

text \<open>
  \<open>__builtin_clzll\<close> and \<open>__builtin_ctzll\<close> (undefined on 0 in C; every call of
  the repository is on a non-zero argument).
\<close>

definition clzll :: "u64 \<Rightarrow> nat" where
  "clzll w = length (takeWhile Not (msb_bits 64 w))"

definition ctzll :: "u64 \<Rightarrow> nat" where
  "ctzll w = length (takeWhile Not (rev (msb_bits 64 w)))"

lemma clzll_zeros: "64 - clzll w \<le> i \<Longrightarrow> \<not> bit w i"
proof
  assume i: "64 - clzll w \<le> i" and b: "bit w i"
  have "i < 64" using bit_imp_le_length [OF b] by simp
  let ?k = "63 - i"
  have "clzll w \<le> 64"
    unfolding clzll_def using length_takeWhile_le [of Not "msb_bits 64 w"] by simp
  then have "?k < clzll w" using i \<open>i < 64\<close> by linarith
  then have "?k < length (takeWhile Not (msb_bits 64 w))"
    unfolding clzll_def .
  then have "\<not> msb_bits 64 w ! ?k"
    by (metis nth_mem set_takeWhileD takeWhile_nth)
  then show False using b \<open>i < 64\<close> by (simp add: nth_msb_bits)
qed

lemma ctzll_zeros: "i < ctzll w \<Longrightarrow> \<not> bit w i"
proof
  assume i: "i < ctzll w" and b: "bit w i"
  have "i < 64" using bit_imp_le_length [OF b] by simp
  from i have "i < length (takeWhile Not (rev (msb_bits 64 w)))"
    unfolding ctzll_def .
  then have "\<not> rev (msb_bits 64 w) ! i"
    by (metis nth_mem set_takeWhileD takeWhile_nth)
  moreover have "rev (msb_bits 64 w) ! i = bit w i"
    using \<open>i < 64\<close> by (simp add: rev_nth nth_msb_bits)
  ultimately show False using b by simp
qed

lemma clzll_ctzll_less:
  assumes "w \<noteq> 0"
  shows "clzll w + ctzll w < 64"
proof (rule ccontr)
  assume "\<not> clzll w + ctzll w < 64"
  then have "\<not> bit w i" for i
    using clzll_zeros [of w i] ctzll_zeros [of i w] by (cases "i < ctzll w") auto
  then have "w = 0" by (simp add: bit_eq_iff)
  with assms show False by simp
qed

lemma clzll_less: "bit w i \<Longrightarrow> clzll w < 64 - i"
  using clzll_zeros [of w i] by linarith

lemma clzll_bit:
  assumes "w \<noteq> 0"
  shows "bit w (63 - clzll w)"
proof -
  have lt: "clzll w < length (msb_bits 64 w)" using clzll_ctzll_less [OF assms] by simp
  then have "msb_bits 64 w ! clzll w"
    unfolding clzll_def using nth_length_takeWhile [of Not "msb_bits 64 w"] by simp
  with lt show ?thesis by (simp add: nth_msb_bits)
qed

lemma clzll_ge_32:
  assumes "w \<noteq> 0" "w < 2 ^ 32"
  shows "32 \<le> clzll w"
proof -
  have "drop_bit 32 w = 0" using assms(2) drop_bit_zero_iff_less [of 32 w] by simp
  then have "\<not> 32 \<le> 63 - clzll w"
    using clzll_bit [OF assms(1)] drop_bit_zeroD [of 32 w "63 - clzll w"] by blast
  then show ?thesis by linarith
qed

lemma window_exact:
  fixes x :: u64
  assumes "lz \<le> clzll x" "tz \<le> ctzll x"
  shows "push_bit tz (take_bit (64 - lz - tz) (drop_bit tz x)) = x"
proof (rule bit_word_eqI)
  fix i assume "i < LENGTH(64)"
  have "tz \<le> i \<and> i < 64 - lz" if "bit x i"
    using that clzll_zeros [of x i] ctzll_zeros [of i x] assms by force
  with \<open>i < LENGTH(64)\<close> show "bit (push_bit tz (take_bit (64 - lz - tz) (drop_bit tz x))) i = bit x i"
    by (auto simp: bit_simps)
qed

end
