(* ===== verification/Endian.thy ===== *)
theory Endian
  imports Prelude
begin

text \<open>
  The number encodings of \<open>src/base/Endian.cpp\<close>: big-endian fixed width, LEB128
  varints and the zig-zag map. The overloads on \<open>std::deque\<close>, \<open>std::vector\<close>
  and raw pointers have the same bodies; a buffer is a byte list here and an access
  outside it is \<open>Undef\<close>. The encoders of varints return the bytes they store at
  the front of the buffer (the code returns their number).
\<close>

subsection \<open>Fixed width, most significant byte first\<close>

definition put_uint16_big_endian :: "bytes \<Rightarrow> u32 \<Rightarrow> bytes result" where
  "put_uint16_big_endian buf num =
     (if length buf < 2 then Undef
      else Ok (buf[1 := ucast (num AND 255), 0 := ucast (drop_bit 8 num AND 255)]))"

fun get_uint16_big_endian :: "bytes \<Rightarrow> u32 result" where
  "get_uint16_big_endian (b0 # b1 # _) = Ok (push_bit 8 (ucast b0) + ucast b1)"
| "get_uint16_big_endian _ = Undef"

fun put_uint32_big_endian :: "bytes \<Rightarrow> u32 \<Rightarrow> bytes result" where
  "put_uint32_big_endian (_ # _ # _ # _ # buf) num =
     Ok (ucast (drop_bit 24 num AND 255) # ucast (drop_bit 16 num AND 255)
       # ucast (drop_bit 8 num AND 255) # ucast (num AND 255) # buf)"
| "put_uint32_big_endian _ num = Undef"

fun get_uint32_big_endian :: "bytes \<Rightarrow> u32 result" where
  "get_uint32_big_endian (b0 # b1 # b2 # b3 # _) =
     Ok (push_bit 24 (ucast b0) + push_bit 16 (ucast b1) + push_bit 8 (ucast b2) + ucast b3)"
| "get_uint32_big_endian _ = Undef"

fun put_uint64_big_endian :: "bytes \<Rightarrow> u64 \<Rightarrow> bytes result" where
  "put_uint64_big_endian (_ # _ # _ # _ # _ # _ # _ # _ # buf) num =
     Ok (ucast (drop_bit 56 num AND 255) # ucast (drop_bit 48 num AND 255)
       # ucast (drop_bit 40 num AND 255) # ucast (drop_bit 32 num AND 255)
       # ucast (drop_bit 24 num AND 255) # ucast (drop_bit 16 num AND 255)
       # ucast (drop_bit 8 num AND 255) # ucast (num AND 255) # buf)"
| "put_uint64_big_endian _ num = Undef"

fun get_uint64_big_endian :: "bytes \<Rightarrow> u64 result" where
  "get_uint64_big_endian (b0 # b1 # b2 # b3 # b4 # b5 # b6 # b7 # _) =
     Ok (push_bit 56 (ucast b0) + push_bit 48 (ucast b1) + push_bit 40 (ucast b2)
       + push_bit 32 (ucast b3) + push_bit 24 (ucast b4) + push_bit 16 (ucast b5)
       + push_bit 8 (ucast b6) + ucast b7)"
| "get_uint64_big_endian _ = Undef"

subsection \<open>Doubles\<close>

definition encode_double :: "double \<Rightarrow> u64" where
  "encode_double v = v"

definition decode_double :: "u64 \<Rightarrow> double" where
  "decode_double i = i"

subsection \<open>Varints\<close>

function encode_unsigned_varint :: "u64 \<Rightarrow> bytes" where
  "encode_unsigned_varint v =
     (let next_byte = ucast (v AND 127); v' = drop_bit 7 v
      in if v' \<noteq> 0 then (next_byte OR 128) # encode_unsigned_varint v'
         else [next_byte])"
  by pat_completeness auto
termination
  by (relation "measure unat") (simp_all add: unat_drop_7_less)

declare encode_unsigned_varint.simps [simp del]

text \<open>
  The loop of \<open>decode_unsigned_varint\<close> over the \<open>size\<close> readable bytes. When they
  run out after a continuation byte the code reads one byte past the end, shifts it like
  the others, discards it and throws.
\<close>

fun varint_loop :: "bytes \<Rightarrow> nat \<Rightarrow> u64 \<Rightarrow> nat \<Rightarrow> (u64 \<times> nat) result" where
  "varint_loop [] i decoded shift = (if i = 0 \<or> 64 \<le> shift then Undef else Throw)"
| "varint_loop (b # bs) i decoded shift =
     (if 64 \<le> shift then Undef
      else let decoded' = decoded OR push_bit shift (ucast (b AND 127))
           in if b AND 128 \<noteq> 0 then varint_loop bs (Suc i) decoded' (shift + 7)
              else Ok (decoded', Suc i))"

definition decode_unsigned_varint :: "bytes \<Rightarrow> (u64 \<times> nat) result" where
  "decode_unsigned_varint data = varint_loop data 0 0 0"

definition zigzag_encode :: "i64 \<Rightarrow> u64" where
  "zigzag_encode v = (if sint v < 0 then NOT (push_bit 1 v) else push_bit 1 v)"

definition zigzag_decode :: "u64 \<Rightarrow> i64" where
  "zigzag_decode unsigned_value =
     (if unsigned_value AND 1 \<noteq> 0 then NOT (drop_bit 1 unsigned_value)
      else drop_bit 1 unsigned_value)"

definition encode_signed_varint :: "i64 \<Rightarrow> bytes" where
  "encode_signed_varint v = encode_unsigned_varint (zigzag_encode v)"

definition decode_signed_varint :: "bytes \<Rightarrow> (i64 \<times> nat) result" where
  "decode_signed_varint data =
     res_bind (decode_unsigned_varint data) (\<lambda>(u, n). Ok (zigzag_decode u, n))"

subsection \<open>Facts about the fixed-width encodings\<close>

lemma push_plus_distrib: "push_bit n (a + b) = push_bit n a + push_bit n b"
  for a b :: "'a::len word"
  by (simp add: push_bit_eq_mult algebra_simps)

lemma get_uint32_be_acc:
  "get_uint32_big_endian (b0 # b1 # b2 # b3 # r) = Ok (be_acc 0 [b0, b1, b2, b3])"
proof -
  have "push_bit 24 (ucast b0) + push_bit 16 (ucast b1) + push_bit 8 (ucast b2) + ucast b3
      = push_bit 8 (push_bit 8 (push_bit 8 (ucast b0 :: u32) + ucast b1) + ucast b2) + ucast b3"
    by (simp add: push_plus_distrib)
  then show ?thesis
    by (simp only: get_uint32_big_endian.simps push_bit_8_plus_byte be_acc_Cons be_acc_Nil
        push_bit_of_0 or.left_neutral)
qed

lemma get_uint64_be_acc:
  "get_uint64_big_endian (b0 # b1 # b2 # b3 # b4 # b5 # b6 # b7 # r)
     = Ok (be_acc 0 [b0, b1, b2, b3, b4, b5, b6, b7])"
proof -
  let ?u = "\<lambda>b::u8. ucast b :: u64"
  have "push_bit 56 (?u b0) + push_bit 48 (?u b1) + push_bit 40 (?u b2) + push_bit 32 (?u b3)
      + push_bit 24 (?u b4) + push_bit 16 (?u b5) + push_bit 8 (?u b6) + ?u b7
      = push_bit 8 (push_bit 8 (push_bit 8 (push_bit 8 (push_bit 8 (push_bit 8 (push_bit 8
          (?u b0) + ?u b1) + ?u b2) + ?u b3) + ?u b4) + ?u b5) + ?u b6) + ?u b7"
    by (simp add: push_plus_distrib)
  then show ?thesis
    by (simp only: get_uint64_big_endian.simps push_bit_8_plus_byte be_acc_Cons be_acc_Nil
        push_bit_of_0 or.left_neutral)
qed

lemma be_bytes_2: "be_bytes 2 w = [ucast (drop_bit 8 w), ucast w]"
  by (simp add: numeral_2_eq_2)

lemma be_bytes_4:
  "be_bytes 4 w = [ucast (drop_bit 24 w), ucast (drop_bit 16 w), ucast (drop_bit 8 w), ucast w]"
  by (simp add: eval_nat_numeral)

lemma be_bytes_8:
  "be_bytes 8 w = [ucast (drop_bit 56 w), ucast (drop_bit 48 w), ucast (drop_bit 40 w),
     ucast (drop_bit 32 w), ucast (drop_bit 24 w), ucast (drop_bit 16 w), ucast (drop_bit 8 w),
     ucast w]"
  by (simp add: eval_nat_numeral)

lemma put_uint32_be_bytes:
  "length buf = 4 \<Longrightarrow> put_uint32_big_endian (buf @ rest) num = Ok (be_bytes 4 num @ rest)"
  by (auto simp: length_Suc_conv eval_nat_numeral ucast_and_255)

lemma put_uint64_be_bytes:
  "length buf = 8 \<Longrightarrow> put_uint64_big_endian (buf @ rest) num = Ok (be_bytes 8 num @ rest)"
  by (auto simp: length_Suc_conv eval_nat_numeral ucast_and_255)

lemma get_uint32_be_bytes [codec_simps]:
  "get_uint32_big_endian (be_bytes 4 num @ rest) = Ok num"
  using be_acc_0_be_bytes [of 4 num] by (simp only: be_bytes_4 append.simps get_uint32_be_acc) simp

lemma get_uint64_be_bytes [codec_simps]:
  "get_uint64_big_endian (be_bytes 8 num @ rest) = Ok num"
  using be_acc_0_be_bytes [of 8 num] by (simp only: be_bytes_8 append.simps get_uint64_be_acc) simp

subsection \<open>Facts about varints\<close>

lemma varint_byte_flags [byte_simps]:
  fixes v :: "'a::len word"
  shows "((ucast (v AND 127) :: u8) AND 128 \<noteq> 0) = False"
    and "((ucast (v AND 127) OR 128 :: u8) AND 128 \<noteq> 0) = True"
  by (simp_all only: and_128_nonzero_iff and_127_eq)
     (simp_all add: bit_simps bit_128_iff)

lemma varint_byte_payload [byte_simps]:
  fixes v :: "'a::len word"
  shows "(ucast ((ucast (v AND 127) :: u8) AND 127) :: 'a::len word) = take_bit 7 v"
    and "(ucast ((ucast (v AND 127) OR 128 :: u8) AND 127) :: 'a::len word) = take_bit 7 v"
  by (simp_all only: and_127_eq, rule_tac [!] bit_word_eqI)
     (auto simp: bit_simps bit_128_iff)

lemma varint_step_fits:
  fixes v :: "'a::len word"
  assumes "shift < w" "drop_bit (w - shift) v = 0" "drop_bit 7 v \<noteq> 0"
  shows "shift + 7 < w" "drop_bit (w - (shift + 7)) (drop_bit 7 v) = 0"
proof -
  show *: "shift + 7 < w"
  proof (rule ccontr)
    assume "\<not> ?thesis"
    then have "drop_bit 7 v = drop_bit (7 - (w - shift)) (drop_bit (w - shift) v)"
      by (simp add: drop_bit_drop_bit)
    with assms show False by simp
  qed
  then have "drop_bit (w - (shift + 7)) (drop_bit 7 v) = drop_bit (w - shift) v"
    by (simp add: drop_bit_drop_bit)
  with assms show "drop_bit (w - (shift + 7)) (drop_bit 7 v) = 0" by simp
qed

lemma varint_loop_encode:
  "shift < 64 \<Longrightarrow> drop_bit (64 - shift) v = 0 \<Longrightarrow>
   varint_loop (encode_unsigned_varint v @ r) i acc shift
     = Ok (acc OR push_bit shift v, i + length (encode_unsigned_varint v))"
proof (induction v arbitrary: i acc shift rule: encode_unsigned_varint.induct)
  case (1 v)
  have split: "push_bit shift v = push_bit shift (take_bit 7 v) OR push_bit (shift + 7) (drop_bit 7 v)"
    by (subst take_or_push_drop [of 7 v, symmetric]) (simp add: push_bit_or)
  show ?case
  proof (cases "drop_bit 7 v = 0")
    case True
    with split 1 show ?thesis
      by (simp add: encode_unsigned_varint.simps [of v] byte_simps)
  next
    case False
    note fits = varint_step_fits [OF "1.prems" False]
    show ?thesis
      using False fits "1.prems"
        "1.IH" [OF refl refl False fits, of "Suc i" "acc OR push_bit shift (take_bit 7 v)"]
      by (simp add: encode_unsigned_varint.simps [of v] byte_simps split or.assoc)
  qed
qed

lemma decode_unsigned_varint_encode [codec_simps]:
  "decode_unsigned_varint (encode_unsigned_varint v @ r)
     = Ok (v, length (encode_unsigned_varint v))"
  by (simp add: decode_unsigned_varint_def varint_loop_encode)

lemma length_encode_unsigned_varint_le:
  "0 < n \<Longrightarrow> drop_bit (7 * n) v = 0 \<Longrightarrow> length (encode_unsigned_varint v) \<le> n"
proof (induction v arbitrary: n rule: encode_unsigned_varint.induct)
  case (1 v)
  show ?case
  proof (cases "drop_bit 7 v = 0")
    case False
    with 1 obtain m where n: "n = Suc m" "0 < m" by (cases n; cases "n - 1") auto
    with "1.prems" have "drop_bit (7 * m) (drop_bit 7 v) = 0"
      by (simp add: drop_bit_drop_bit add.commute)
    from "1.IH" [OF refl refl False n(2) this] False n(1) show ?thesis
      by (subst encode_unsigned_varint.simps) simp
  qed (use "1.prems" in \<open>simp add: encode_unsigned_varint.simps\<close>)
qed

lemma length_encode_unsigned_varint_10: "length (encode_unsigned_varint v) \<le> 10"
  by (rule length_encode_unsigned_varint_le) (auto intro: bit_word_eqI simp: bit_simps)

lemma varint_step:
  "encode_unsigned_varint w =
     (if drop_bit 7 w = 0 then [ucast w] else ucast (w OR 128) # encode_unsigned_varint (drop_bit 7 w))"
  by (subst encode_unsigned_varint.simps) (simp add: Let_def byte_or_128 byte_and_127)

lemma encode_unsigned_varint_nonempty [simp]: "encode_unsigned_varint v \<noteq> []"
  by (subst varint_step) simp

subsection \<open>Facts about the zig-zag map\<close>

lemma sint_neg_iff_bit63: "sint (v :: u64) < 0 \<longleftrightarrow> bit v 63"
  using bit_last_iff [of v] by simp

lemma zigzag_decode_encode [codec_simps]: "zigzag_decode (zigzag_encode v) = v"
proof (rule bit_word_eqI)
  fix i assume "i < LENGTH(64)"
  then show "bit (zigzag_decode (zigzag_encode v)) i = bit v i"
    by (cases "i = 63") (auto simp: zigzag_decode_def zigzag_encode_def sint_neg_iff_bit63
        and_1_nonzero_iff bit_not_iff bit_times_2_iff bit_drop_bit_eq)
qed

lemma zigzag_encode_decode [codec_simps]: "zigzag_encode (zigzag_decode u) = u"
proof (rule bit_word_eqI)
  fix i assume "i < LENGTH(64)"
  then show "bit (zigzag_encode (zigzag_decode u)) i = bit u i"
    by (cases i) (auto simp: zigzag_decode_def zigzag_encode_def sint_neg_iff_bit63
        and_1_nonzero_iff bit_not_iff bit_times_2_iff bit_drop_bit_eq dest: bit_imp_le_length)
qed

lemma decode_signed_varint_encode [codec_simps]:
  "decode_signed_varint (encode_signed_varint v @ r) = Ok (v, length (encode_signed_varint v))"
  by (simp add: decode_signed_varint_def encode_signed_varint_def codec_simps)

subsection \<open>Properties\<close>

text \<open>
  C25: decoding an encoded signed varint, whatever bytes follow it, gives the value back
  and consumes exactly the encoded bytes; the encoder emits between one and ten of them.
\<close>

theorem signed_varint_roundtrip:
  "decode_signed_varint (encode_signed_varint v @ rest) = Ok (v, length (encode_signed_varint v))
   \<and> length (encode_signed_varint v) \<in> {1..10}"
  using length_encode_unsigned_varint_10 [of "zigzag_encode v"] decode_signed_varint_encode
  by (simp add: encode_signed_varint_def Suc_le_eq)

end
