(* ===== verification/Codec.thy ===== *)
theory Codec
  imports Prelude
begin

text \<open>
  The contract of a byte encoding: a decoder, run on an encoded value followed by
  anything, returns the value and what followed. The encodings of the code
  (varints, fixed-width integers, length-prefixed strings, log records) are
  interpretations; what holds of all of them is proved here once.
\<close>

subsection \<open>Loops over a decoder\<close>

text \<open>A loop that reads \<open>n\<close> items.\<close>

fun read_n :: "(bytes \<Rightarrow> ('a \<times> bytes) option) \<Rightarrow> nat \<Rightarrow> bytes \<Rightarrow> ('a list \<times> bytes) option" where
  "read_n dec 0 bs = Some ([], bs)"
| "read_n dec (Suc n) bs =
     do { (x, bs) \<leftarrow> dec bs; (xs, bs) \<leftarrow> read_n dec n bs; Some (x # xs, bs) }"

text \<open>
  A read whose failure is not tested: the variable keeps its old content
  (\<open>None\<close> when it was never set) and the input stays where it was.
\<close>

definition read_or :: "(bytes \<Rightarrow> ('a \<times> bytes) option) \<Rightarrow> 'a option \<Rightarrow> bytes \<Rightarrow> 'a option \<times> bytes" where
  "read_or dec old bs = (case dec bs of Some (x, bs') \<Rightarrow> (Some x, bs') | None \<Rightarrow> (old, bs))"

subsection \<open>The contract\<close>

locale codec =
  fixes enc :: "'a \<Rightarrow> bytes"
    and dec :: "bytes \<Rightarrow> ('a \<times> bytes) option"
    and valid :: "'a \<Rightarrow> bool"
  assumes dec_enc: "valid x \<Longrightarrow> dec (enc x @ rest) = Some (x, rest)"
begin

lemma dec_enc_nil: "valid x \<Longrightarrow> dec (enc x) = Some (x, [])"
  using dec_enc [of x "[]"] by simp

lemma prefix_free:
  assumes "valid x" "valid y" "enc x @ r = enc y @ s"
  shows "x = y \<and> r = s"
proof -
  have "Some (x, r) = dec (enc x @ r)" by (simp add: dec_enc assms(1))
  also have "\<dots> = dec (enc y @ s)" by (simp only: assms(3))
  also have "\<dots> = Some (y, s)" by (simp add: dec_enc assms(2))
  finally show ?thesis by simp
qed

lemma enc_nonempty:
  assumes "valid x" "valid y" "x \<noteq> y"
  shows "enc x \<noteq> []"
proof
  assume "enc x = []"
  then have "enc x @ enc y = enc y @ []" by simp
  with prefix_free [OF assms(1,2)] assms(3) show False by blast
qed

lemma concat_unique:
  "list_all valid xs \<Longrightarrow> list_all valid ys \<Longrightarrow> length xs = length ys \<Longrightarrow>
   concat (map enc xs) @ r = concat (map enc ys) @ s \<Longrightarrow> xs = ys \<and> r = s"
proof (induction xs arbitrary: ys)
  case Nil
  then have "ys = []" by simp
  with Nil.prems(4) show ?case by simp
next
  case (Cons x xs)
  then obtain y ys' where ys: "ys = y # ys'" by (cases ys) auto
  with Cons.prems have "enc x @ (concat (map enc xs) @ r) = enc y @ (concat (map enc ys') @ s)"
    by simp
  from prefix_free [OF _ _ this] Cons.prems(1,2) ys
  have "x = y" and tl: "concat (map enc xs) @ r = concat (map enc ys') @ s" by simp_all
  with Cons.IH [OF _ _ _ tl] Cons.prems(1,2,3) ys show ?case by simp
qed

lemma read_n_enc:
  "list_all valid xs \<Longrightarrow> read_n dec (length xs) (concat (map enc xs) @ rest) = Some (xs, rest)"
  by (induction xs) (simp_all add: dec_enc)

lemma read_or_enc: "valid x \<Longrightarrow> read_or dec old (enc x @ rest) = (Some x, rest)"
  by (simp add: read_or_def dec_enc)

end

end
