(* ===== verification/Coding.thy ===== *)
theory Coding
  imports Endian Codec "HOL-Library.List_Lexorder"
begin

text \<open>
  The byte encodings of \<open>src/leveldb/util/coding.h\<close> and \<open>coding.cc\<close>. A \<open>Slice\<close> is the
  list of its bytes. An encoder returns the bytes it stores through its pointer, a
  \<open>Put\<close> function appends them to the string. A \<open>Decode\<close> function reads through a
  pointer without a bound check: \<open>None\<close> stands for a read past the end. A \<open>Get\<close> function
  returns \<open>None\<close> where the code returns false and leaves its arguments unchanged, and
  otherwise the value with the shortened slice.
\<close>

subsection \<open>Fixed width\<close>

definition EncodeFixed16 :: "u32 \<Rightarrow> bytes" where
  "EncodeFixed16 v = [ucast (v AND 255), ucast (drop_bit 8 v AND 255)]"

definition EncodeFixed32 :: "u32 \<Rightarrow> bytes" where
  "EncodeFixed32 v = [ucast v, ucast (drop_bit 8 v), ucast (drop_bit 16 v), ucast (drop_bit 24 v)]"

definition EncodeFixed64 :: "u64 \<Rightarrow> bytes" where
  "EncodeFixed64 v = [ucast v, ucast (drop_bit 8 v), ucast (drop_bit 16 v), ucast (drop_bit 24 v),
     ucast (drop_bit 32 v), ucast (drop_bit 40 v), ucast (drop_bit 48 v), ucast (drop_bit 56 v)]"

definition EncodeFixed32BE :: "u32 \<Rightarrow> bytes" where
  "EncodeFixed32BE v = [ucast (drop_bit 24 v), ucast (drop_bit 16 v), ucast (drop_bit 8 v), ucast v]"

definition EncodeFixed64BE :: "u64 \<Rightarrow> bytes" where
  "EncodeFixed64BE v = [ucast (drop_bit 56 v), ucast (drop_bit 48 v), ucast (drop_bit 40 v),
     ucast (drop_bit 32 v), ucast (drop_bit 24 v), ucast (drop_bit 16 v), ucast (drop_bit 8 v), ucast v]"

fun DecodeFixed16 :: "bytes \<Rightarrow> u16 option" where
  "DecodeFixed16 (b0 # b1 # _) = Some (ucast b0 OR push_bit 8 (ucast b1))"
| "DecodeFixed16 _ = None"

fun DecodeFixed32 :: "bytes \<Rightarrow> u32 option" where
  "DecodeFixed32 (b0 # b1 # b2 # b3 # _) =
     Some (((ucast b0 OR push_bit 8 (ucast b1)) OR push_bit 16 (ucast b2)) OR push_bit 24 (ucast b3))"
| "DecodeFixed32 _ = None"

fun DecodeFixed64 :: "bytes \<Rightarrow> u64 option" where
  "DecodeFixed64 (b0 # b1 # b2 # b3 # b4 # b5 # b6 # b7 # _) =
     Some (((((((ucast b0 OR push_bit 8 (ucast b1)) OR push_bit 16 (ucast b2))
       OR push_bit 24 (ucast b3)) OR push_bit 32 (ucast b4)) OR push_bit 40 (ucast b5))
       OR push_bit 48 (ucast b6)) OR push_bit 56 (ucast b7))"
| "DecodeFixed64 _ = None"

fun DecodeFixed32BE :: "bytes \<Rightarrow> u32 option" where
  "DecodeFixed32BE (b0 # b1 # b2 # b3 # _) =
     Some (((push_bit 24 (ucast b0) OR push_bit 16 (ucast b1)) OR push_bit 8 (ucast b2)) OR ucast b3)"
| "DecodeFixed32BE _ = None"

fun DecodeFixed64BE :: "bytes \<Rightarrow> u64 option" where
  "DecodeFixed64BE (b0 # b1 # b2 # b3 # b4 # b5 # b6 # b7 # _) =
     Some (((((((push_bit 56 (ucast b0) OR push_bit 48 (ucast b1)) OR push_bit 40 (ucast b2))
       OR push_bit 32 (ucast b3)) OR push_bit 24 (ucast b4)) OR push_bit 16 (ucast b5))
       OR push_bit 8 (ucast b6)) OR ucast b7)"
| "DecodeFixed64BE _ = None"

definition PutFixed16 :: "bytes \<Rightarrow> u16 \<Rightarrow> bytes" where
  "PutFixed16 dst v = dst @ EncodeFixed16 (ucast v)"

definition PutFixed32 :: "bytes \<Rightarrow> u32 \<Rightarrow> bytes" where
  "PutFixed32 dst v = dst @ EncodeFixed32 v"

definition PutFixed64 :: "bytes \<Rightarrow> u64 \<Rightarrow> bytes" where
  "PutFixed64 dst v = dst @ EncodeFixed64 v"

definition PutFixed32BE :: "bytes \<Rightarrow> u32 \<Rightarrow> bytes" where
  "PutFixed32BE dst v = dst @ EncodeFixed32BE v"

definition PutFixed64BE :: "bytes \<Rightarrow> u64 \<Rightarrow> bytes" where
  "PutFixed64BE dst v = dst @ EncodeFixed64BE v"

definition GetFixed64 :: "bytes \<Rightarrow> (u64 \<times> bytes) option" where
  "GetFixed64 input =
     (if length input < 8 then None
      else do { v \<leftarrow> DecodeFixed64 input; Some (v, drop 8 input) })"

definition GetFixed32 :: "bytes \<Rightarrow> (u32 \<times> bytes) option" where
  "GetFixed32 input =
     (if length input < 4 then None
      else do { v \<leftarrow> DecodeFixed32 input; Some (v, drop 4 input) })"

definition GetFixed16 :: "bytes \<Rightarrow> (u16 \<times> bytes) option" where
  "GetFixed16 input =
     (if length input < 2 then None
      else do { v \<leftarrow> DecodeFixed16 input; Some (v, drop 2 input) })"

subsection \<open>Varints\<close>

definition EncodeVarint32 :: "u32 \<Rightarrow> bytes" where
  "EncodeVarint32 v =
     (if v < 2 ^ 7 then [ucast v]
      else if v < 2 ^ 14 then [ucast (v OR 128), ucast (drop_bit 7 v)]
      else if v < 2 ^ 21 then [ucast (v OR 128), ucast (drop_bit 7 v OR 128), ucast (drop_bit 14 v)]
      else if v < 2 ^ 28 then
        [ucast (v OR 128), ucast (drop_bit 7 v OR 128), ucast (drop_bit 14 v OR 128),
         ucast (drop_bit 21 v)]
      else
        [ucast (v OR 128), ucast (drop_bit 7 v OR 128), ucast (drop_bit 14 v OR 128),
         ucast (drop_bit 21 v OR 128), ucast (drop_bit 28 v)])"

function EncodeVarint64 :: "u64 \<Rightarrow> bytes" where
  "EncodeVarint64 v =
     (if 128 \<le> v then ucast (v OR 128) # EncodeVarint64 (drop_bit 7 v) else [ucast v])"
  by pat_completeness auto
termination
  by (relation "measure unat")
     (auto simp: unat_drop_7 word_le_nat_alt intro!: div_less_dividend)

declare EncodeVarint64.simps [simp del]

function VarintLength :: "u64 \<Rightarrow> nat" where
  "VarintLength v = (if 128 \<le> v then Suc (VarintLength (drop_bit 7 v)) else 1)"
  by pat_completeness auto
termination
  by (relation "measure unat")
     (auto simp: unat_drop_7 word_le_nat_alt intro!: div_less_dividend)

declare VarintLength.simps [simp del]

definition PutVarint32 :: "bytes \<Rightarrow> u32 \<Rightarrow> bytes" where
  "PutVarint32 dst v = dst @ EncodeVarint32 v"

definition PutVarint64 :: "bytes \<Rightarrow> u64 \<Rightarrow> bytes" where
  "PutVarint64 dst v = dst @ EncodeVarint64 v"

definition PutLengthPrefixedSlice :: "bytes \<Rightarrow> bytes \<Rightarrow> bytes" where
  "PutLengthPrefixedSlice dst v = PutVarint32 dst (of_nat (length v)) @ v"

text \<open>The loop of \<open>GetVarint32PtrFallback\<close> and \<open>GetVarint64Ptr\<close>, bounded by the largest shift.\<close>

fun get_varint_loop :: "nat \<Rightarrow> bytes \<Rightarrow> nat \<Rightarrow> 'w::len word \<Rightarrow> ('w word \<times> bytes) option" where
  "get_varint_loop max_shift [] shift result = None"
| "get_varint_loop max_shift (p # ps) shift result =
     (if max_shift < shift then None
      else let byte = ucast p
           in if byte AND 128 \<noteq> 0
              then get_varint_loop max_shift ps (shift + 7) (result OR push_bit shift (byte AND 127))
              else Some (result OR push_bit shift byte, ps))"

definition GetVarint32PtrFallback :: "bytes \<Rightarrow> (u32 \<times> bytes) option" where
  "GetVarint32PtrFallback p = get_varint_loop 28 p 0 0"

definition GetVarint32Ptr :: "bytes \<Rightarrow> (u32 \<times> bytes) option" where
  "GetVarint32Ptr p =
     (case p of
        b # ps \<Rightarrow>
          let result = ucast b :: u32
          in if result AND 128 = 0 then Some (result, ps) else GetVarint32PtrFallback p
      | [] \<Rightarrow> GetVarint32PtrFallback p)"

definition GetVarint32 :: "bytes \<Rightarrow> (u32 \<times> bytes) option" where
  "GetVarint32 input = GetVarint32Ptr input"

definition GetVarint64Ptr :: "bytes \<Rightarrow> (u64 \<times> bytes) option" where
  "GetVarint64Ptr p = get_varint_loop 63 p 0 0"

definition GetVarint64 :: "bytes \<Rightarrow> (u64 \<times> bytes) option" where
  "GetVarint64 input = GetVarint64Ptr input"

text \<open>
  The result and the slice left in \<open>*input\<close>. When the length was read but the
  slice is too short the function returns false with the length already consumed.
\<close>

definition GetLengthPrefixedSlice :: "bytes \<Rightarrow> bytes option \<times> bytes" where
  "GetLengthPrefixedSlice input =
     (case GetVarint32 input of
        Some (len, input') \<Rightarrow>
          if unat len \<le> length input' then (Some (take (unat len) input'), drop (unat len) input')
          else (None, input')
      | None \<Rightarrow> (None, input))"

subsection \<open>Keys\<close>

definition encodeKey :: "bytes \<Rightarrow> u64 \<Rightarrow> i64 \<Rightarrow> bytes" where
  "encodeKey str tsid t = PutFixed64BE (PutFixed64BE str tsid) t"

definition decodeKey :: "bytes \<Rightarrow> (u64 \<times> i64) option" where
  "decodeKey s =
     do { tsid \<leftarrow> DecodeFixed64BE s; t \<leftarrow> DecodeFixed64BE (drop 8 s); Some (tsid, t) }"

definition EnCodeKey :: "bytes \<Rightarrow> u64 \<Rightarrow> u16 \<Rightarrow> u64 \<Rightarrow> bytes" where
  "EnCodeKey str source_group_id metric_id t =
     PutFixed64BE (PutFixed16 (PutFixed64BE str source_group_id) metric_id) t"

definition DeCodeKey :: "bytes \<Rightarrow> (u64 \<times> u16 \<times> u64) option" where
  "DeCodeKey str =
     do { source_group_id \<leftarrow> DecodeFixed64BE str; metric_id \<leftarrow> DecodeFixed16 (drop 8 str);
          t \<leftarrow> DecodeFixed64BE (drop 10 str); Some (source_group_id, metric_id, t) }"

subsection \<open>Facts about the fixed-width encodings\<close>

text \<open>The reads of eight and of two bytes with the advance of the position that follows them.\<close>

definition read_fixed64BE :: "bytes \<Rightarrow> (u64 \<times> bytes) option" where
  "read_fixed64BE bs = do { v \<leftarrow> DecodeFixed64BE bs; Some (v, drop 8 bs) }"

definition read_fixed16 :: "bytes \<Rightarrow> (u16 \<times> bytes) option" where
  "read_fixed16 bs = do { v \<leftarrow> DecodeFixed16 bs; Some (v, drop 2 bs) }"

lemma EncodeFixed64BE_be_bytes: "EncodeFixed64BE v = be_bytes 8 v"
  by (simp add: EncodeFixed64BE_def be_bytes_8)

lemma EncodeFixed32BE_be_bytes: "EncodeFixed32BE v = be_bytes 4 v"
  by (simp add: EncodeFixed32BE_def be_bytes_4)

lemma EncodeFixed64_be_bytes: "EncodeFixed64 v = rev (be_bytes 8 v)"
  by (simp add: EncodeFixed64_def be_bytes_8)

lemma EncodeFixed32_be_bytes: "EncodeFixed32 v = rev (be_bytes 4 v)"
  by (simp add: EncodeFixed32_def be_bytes_4)

lemma EncodeFixed16_be_bytes: "EncodeFixed16 v = rev (be_bytes 2 v)"
  by (simp add: EncodeFixed16_def be_bytes_2 ucast_and_255)

lemma length_EncodeFixed [simp]:
  "length (EncodeFixed16 h) = 2" "length (EncodeFixed32 w) = 4" "length (EncodeFixed64 v) = 8"
  "length (EncodeFixed32BE w) = 4" "length (EncodeFixed64BE v) = 8"
  by (simp_all add: EncodeFixed16_def EncodeFixed32_def EncodeFixed64_def EncodeFixed32BE_def
      EncodeFixed64BE_def)

lemma DecodeFixed64BE_be_acc:
  "DecodeFixed64BE (b0 # b1 # b2 # b3 # b4 # b5 # b6 # b7 # r)
     = Some (be_acc 0 [b0, b1, b2, b3, b4, b5, b6, b7])"
  by simp

lemma or_reverse_4: "((a OR b) OR c) OR d = ((d OR c) OR b) OR a" for a :: "'a::len word"
  by (simp only: or.commute or.left_commute or.assoc)

lemma or_reverse_8:
  "((((((a OR b) OR c) OR d) OR e) OR f) OR g) OR h = ((((((h OR g) OR f) OR e) OR d) OR c) OR b) OR a"
  for a :: "'a::len word"
  by (simp only: or.commute or.left_commute or.assoc)

lemma DecodeFixed64BE_Encode [codec_simps]: "DecodeFixed64BE (EncodeFixed64BE v @ r) = Some v"
  unfolding EncodeFixed64BE_be_bytes using be_acc_0_be_bytes [of 8 v] by (simp add: be_bytes_8)

lemma DecodeFixed32BE_Encode [codec_simps]: "DecodeFixed32BE (EncodeFixed32BE v @ r) = Some v"
  unfolding EncodeFixed32BE_be_bytes using be_acc_0_be_bytes [of 4 v] by (simp add: be_bytes_4)

lemma DecodeFixed64_Encode [codec_simps]: "DecodeFixed64 (EncodeFixed64 v @ r) = Some v"
  using DecodeFixed64BE_Encode [of v "[]"]
  by (simp add: EncodeFixed64_def EncodeFixed64BE_def) (subst or_reverse_8, simp)

lemma DecodeFixed32_Encode [codec_simps]: "DecodeFixed32 (EncodeFixed32 v @ r) = Some v"
  using DecodeFixed32BE_Encode [of v "[]"]
  by (simp add: EncodeFixed32_def EncodeFixed32BE_def) (subst or_reverse_4, simp)

lemma DecodeFixed16_Encode [codec_simps]:
  "DecodeFixed16 (EncodeFixed16 (ucast v) @ r) = Some v"
  by (simp add: EncodeFixed16_def ucast_and_255, rule bit_word_eqI) (auto simp: bit_simps)

subsection \<open>Facts about varints\<close>

lemma drop_bit_7_zero_iff: "drop_bit 7 v = 0 \<longleftrightarrow> \<not> 128 \<le> v" for v :: u64
  using drop_bit_zero_iff_less [of 7 v] by (simp add: not_le)

lemma EncodeVarint64_eq: "EncodeVarint64 v = encode_unsigned_varint v"
proof (induction v rule: EncodeVarint64.induct)
  case (1 v)
  show ?case
    by (subst EncodeVarint64.simps, subst encode_unsigned_varint.simps)
       (use 1 in \<open>auto simp: drop_bit_7_zero_iff Let_def byte_or_128 byte_and_127\<close>)
qed

lemma VarintLength_eq: "VarintLength v = length (EncodeVarint64 v)"
  by (induction v rule: VarintLength.induct)
     (subst VarintLength.simps, subst EncodeVarint64.simps, simp)

lemma unat_ucast_32_64: "unat (ucast x :: u64) = unat x" for x :: u32
  using unsigned_less [of x, where 'a=nat] by (simp add: unsigned_ucast_eq take_bit_nat_eq_self_iff)

lemma drop_bit_ucast_zero_iff:
  "n < 32 \<Longrightarrow> drop_bit n (ucast v :: u64) = 0 \<longleftrightarrow> v < 2 ^ n" for v :: u32
proof -
  have "drop_bit n (ucast v :: u64) = ucast (drop_bit n v)"
    by (rule bit_word_eqI) (auto simp: bit_simps dest: bit_imp_le_length)
  then show "drop_bit n (ucast v :: u64) = 0 \<longleftrightarrow> v < 2 ^ n" if "n < 32"
    using that drop_bit_zero_iff_less [of n v] unat_ucast_32_64 [of "drop_bit n v"]
    by (simp flip: unat_eq_0)
qed

lemma varint_byte_32:
  "(ucast (drop_bit n (ucast v :: u64)) :: u8) = ucast (drop_bit n v)"
  "(ucast (drop_bit n (ucast v :: u64) OR 128) :: u8) = ucast (drop_bit n v OR 128)" for v :: u32
  by (rule bit_word_eqI, auto simp: bit_simps dest: bit_imp_le_length)+

lemma drop_bit_35_ucast: "drop_bit 35 (ucast (v::u32) :: u64) = 0" 
  by (rule bit_word_eqI) (auto simp: bit_simps dest: bit_imp_le_length)

lemma EncodeVarint32_eq: "EncodeVarint32 v = encode_unsigned_varint (ucast v)"
  by (subst varint_step, subst varint_step, subst varint_step, subst varint_step, subst varint_step)
     (simp add: EncodeVarint32_def drop_bit_drop_bit drop_bit_ucast_zero_iff varint_byte_32
       varint_byte_32 [of 0, simplified] drop_bit_35_ucast)

lemma byte_flag_ucast:
  "8 \<le> LENGTH('w) \<Longrightarrow> ((ucast p :: 'w::len word) AND 128 \<noteq> 0) = bit p 7" for p :: u8
  using bit_nonzero_iff [of "ucast p :: 'w word" 7] by (simp add: push_bit_eq_mult bit_simps)

lemma get_varint_loop_encode:
  fixes acc :: "'w::len word"
  assumes w: "8 \<le> LENGTH('w)" and reach: "\<And>s. 7 dvd s \<Longrightarrow> s < LENGTH('w) \<Longrightarrow> s \<le> m"
  shows "7 dvd shift \<Longrightarrow> shift < LENGTH('w) \<Longrightarrow> drop_bit (LENGTH('w) - shift) v = 0 \<Longrightarrow>
    get_varint_loop m (encode_unsigned_varint v @ r) shift acc
      = Some (acc OR push_bit shift (ucast v), r)"
proof (induction v arbitrary: acc shift rule: encode_unsigned_varint.induct)
  case (1 v)
  have le: "shift \<le> m" using reach "1.prems" by simp
  show ?case
  proof (cases "drop_bit 7 v = 0")
    case True
    note zero = drop_bit_zeroD [OF True]
    have byte: "ucast (ucast v :: u8) = (ucast v :: 'w word)"
      by (rule bit_word_eqI) (use zero in \<open>auto simp: bit_simps not_less intro: ccontr\<close>)
    have "\<not> bit (ucast v :: u8) 7" using zero by (simp add: bit_simps)
    then have "(ucast v :: 'w word) AND 128 = 0"
      using byte_flag_ucast [OF w, of "ucast v"] by (simp add: byte)
    with True le byte show ?thesis
      by (subst varint_step) simp
  next
    case False
    note fits = varint_step_fits [OF "1.prems"(2,3) False]
    have byte: "ucast (ucast (v OR 128) :: u8) AND 127 = take_bit 7 (ucast v :: 'w word)"
      unfolding and_127_eq using w by (intro bit_word_eqI) (auto simp: bit_simps bit_128_int_iff)
    have split: "push_bit shift (ucast v :: 'w word)
        = push_bit shift (take_bit 7 (ucast v)) OR push_bit (shift + 7) (ucast (drop_bit 7 v))"
      by (subst take_or_push_drop [of 7 "ucast v :: 'w word", symmetric])
         (simp add: push_bit_or, rule bit_word_eqI, auto simp: bit_simps)
    have "bit (ucast (v OR 128) :: u8) 7"
      by (simp add: bit_simps bit_128_int_iff)
    then show ?thesis
      using False le w fits "1.prems"
        "1.IH" [OF refl refl False, of "shift + 7" "acc OR push_bit shift (take_bit 7 (ucast v))"]
      by (subst varint_step) (simp add: byte_flag_ucast byte split or.assoc)
  qed
qed

lemma fast_path_eq: "GetVarint32Ptr p = GetVarint32PtrFallback p"
  by (auto simp: GetVarint32Ptr_def GetVarint32PtrFallback_def Let_def split: list.split)

lemma GetVarint32_Encode: "GetVarint32 (EncodeVarint32 v @ r) = Some (v, r)"
proof -
  have "get_varint_loop 28 (encode_unsigned_varint (ucast v) @ r) 0 (0 :: u32)
      = Some (0 OR push_bit 0 (ucast (ucast v :: u64)), r)"
  proof (rule get_varint_loop_encode)
    show "s \<le> 28" if "7 dvd s" "s < LENGTH(32)" for s :: nat
      using that by (auto elim!: dvdE)
    show "drop_bit (LENGTH(32) - 0) (ucast v :: u64) = 0"
      by (rule bit_word_eqI) (auto simp: bit_simps dest: bit_imp_le_length)
  qed simp_all
  moreover have "ucast (ucast v :: u64) = v" by (rule bit_word_eqI) (auto simp: bit_simps)
  ultimately show ?thesis
    by (simp add: GetVarint32_def fast_path_eq GetVarint32PtrFallback_def EncodeVarint32_eq)
qed

lemma GetVarint64_Encode: "GetVarint64 (EncodeVarint64 v @ r) = Some (v, r)"
  using get_varint_loop_encode [where 'w=64, of 63 0 v r 0]
  by (simp add: GetVarint64_def GetVarint64Ptr_def EncodeVarint64_eq)

lemma get_varint_loop_length:
  "get_varint_loop m bs shift acc = Some (x, r) \<Longrightarrow> length r < length bs"
  by (induction m bs shift acc rule: get_varint_loop.induct)
     (auto simp: Let_def less_SucI split: if_splits)

lemma GetVarint32_length: "GetVarint32 bs = Some (x, r) \<Longrightarrow> length r < length bs"
  by (simp add: GetVarint32_def fast_path_eq GetVarint32PtrFallback_def get_varint_loop_length)

lemma GetVarint64_length: "GetVarint64 bs = Some (x, r) \<Longrightarrow> length r < length bs"
  by (simp add: GetVarint64_def GetVarint64Ptr_def get_varint_loop_length)

lemma GetLengthPrefixedSlice_length:
  "GetLengthPrefixedSlice bs = (x, r) \<Longrightarrow> length r \<le> length bs"
  by (auto simp: GetLengthPrefixedSlice_def dest!: GetVarint32_length split: option.splits if_splits)

subsection \<open>Interpretations of the contract\<close>

definition slice_bytes :: "bytes \<Rightarrow> bytes" where
  "slice_bytes s = EncodeVarint32 (of_nat (length s)) @ s"

definition read_slice :: "bytes \<Rightarrow> (bytes \<times> bytes) option" where
  "read_slice bs =
     (case GetLengthPrefixedSlice bs of (Some s, bs') \<Rightarrow> Some (s, bs') | (None, _) \<Rightarrow> None)"

lemma PutLengthPrefixedSlice_eq: "PutLengthPrefixedSlice dst s = dst @ slice_bytes s"
  by (simp add: PutLengthPrefixedSlice_def slice_bytes_def PutVarint32_def)

lemma unat_of_nat_32: "n < 2 ^ 32 \<Longrightarrow> unat (of_nat n :: u32) = n"
  by (simp add: unsigned_of_nat take_bit_nat_eq_self_iff)

lemma GetLengthPrefixedSlice_bytes:
  "length s < 2 ^ 32 \<Longrightarrow> GetLengthPrefixedSlice (slice_bytes s @ r) = (Some s, r)"
  by (simp add: GetLengthPrefixedSlice_def slice_bytes_def GetVarint32_Encode unat_of_nat_32)

interpretation varint32: codec EncodeVarint32 GetVarint32 "\<lambda>_. True"
  by unfold_locales (rule GetVarint32_Encode)

interpretation varint64: codec EncodeVarint64 GetVarint64 "\<lambda>_. True"
  by unfold_locales (rule GetVarint64_Encode)

interpretation fixed64BE: codec EncodeFixed64BE read_fixed64BE "\<lambda>_. True"
  by unfold_locales (simp add: read_fixed64BE_def codec_simps)

interpretation fixed16: codec "\<lambda>v. EncodeFixed16 (ucast v)" read_fixed16 "\<lambda>_. True"
  by unfold_locales (simp add: read_fixed16_def codec_simps)

interpretation fixed64: codec EncodeFixed64 GetFixed64 "\<lambda>_. True"
  by unfold_locales (simp add: GetFixed64_def codec_simps)

interpretation fixed32: codec EncodeFixed32 GetFixed32 "\<lambda>_. True"
  by unfold_locales (simp add: GetFixed32_def codec_simps)

interpretation slice: codec slice_bytes read_slice "\<lambda>s. length s < 2 ^ 32"
  by unfold_locales (simp add: read_slice_def GetLengthPrefixedSlice_bytes)

lemmas put_defs = PutFixed16_def PutFixed32_def PutFixed64_def PutFixed32BE_def PutFixed64BE_def
  PutVarint32_def PutVarint64_def PutLengthPrefixedSlice_eq

lemmas dec_encs [codec_simps] = varint32.dec_enc varint64.dec_enc fixed64BE.dec_enc fixed16.dec_enc
  fixed64.dec_enc fixed32.dec_enc slice.dec_enc GetLengthPrefixedSlice_bytes

subsection \<open>Order of keys\<close>

fun be_nat :: "bytes \<Rightarrow> nat" where
  "be_nat [] = 0"
| "be_nat (b # bs) = unat b * 256 ^ length bs + be_nat bs"

lemma be_nat_bound: "be_nat bs < 256 ^ length bs"
proof (induction bs)
  case (Cons b bs)
  have "Suc (unat b) \<le> 256" using unsigned_less [of b, where 'a=nat] by simp
  then have "Suc (unat b) * 256 ^ length bs \<le> 256 * (256 ^ length bs :: nat)"
    by (rule mult_le_mono1)
  then have "unat b * 256 ^ length bs + 256 ^ length bs \<le> 256 ^ length (b # bs)" by simp
  with Cons show ?case unfolding be_nat.simps by linarith
qed simp

lemma digit_less:
  fixes a b :: nat
  assumes "x < m" "a < b"
  shows "a * m + x < b * m + y"
proof -
  have "Suc a * m \<le> b * m" using assms(2) by (intro mult_le_mono1) simp
  with assms(1) show ?thesis by simp
qed

lemma digit_less_iff:
  fixes a b :: nat
  assumes "x < m" "y < m"
  shows "a * m + x < b * m + y \<longleftrightarrow> a < b \<or> a = b \<and> x < y"
  using digit_less [OF assms(1), of a b y] digit_less [OF assms(2), of b a x]
  by (cases a b rule: linorder_cases) auto

lemma be_nat_less_iff: "length xs = length ys \<Longrightarrow> xs < ys \<longleftrightarrow> be_nat xs < be_nat ys"
proof (induction xs ys rule: list_induct2)
  case (Cons x xs y ys)
  then show ?case
    using be_nat_bound [of xs] be_nat_bound [of ys]
    by (simp add: digit_less_iff word_less_nat_alt word_unat_eq_iff)
qed simp

lemma be_nat_be_bytes: "be_nat (be_bytes n w) = unat w mod 256 ^ n"
proof (induction n)
  case (Suc n)
  have "unat (ucast (drop_bit (8 * n) w) :: u8) = unat w div 256 ^ n mod 256"
    by (simp add: unsigned_ucast_eq unat_drop_bit_div take_bit_eq_mod power_mult)
  then show ?case
    using mod_mult2_eq [of "unat w" "256 ^ n" 256] by (simp add: Suc mult.commute)
qed simp

lemma EncodeFixed64BE_less_iff: "EncodeFixed64BE v < EncodeFixed64BE w \<longleftrightarrow> v < w"
proof -
  have "unat x mod 256 ^ 8 = unat x" for x :: u64
    using unsigned_less [of x, where 'a=nat] by simp
  then show ?thesis
    by (simp add: EncodeFixed64BE_be_bytes be_nat_less_iff be_nat_be_bytes word_less_nat_alt)
qed

lemma append_less_iff:
  "length xs = length ys \<Longrightarrow> xs @ xs' < ys @ ys' \<longleftrightarrow> xs < ys \<or> xs = ys \<and> xs' < ys'"
  for xs :: "'a::order list"
  by (induction xs ys rule: list_induct2) auto

lemma get_varint_loop_truncated:
  "k < length (encode_unsigned_varint v) \<Longrightarrow> 8 \<le> LENGTH('w) \<Longrightarrow>
   get_varint_loop m (take k (encode_unsigned_varint v)) shift (acc :: 'w::len word) = None"
proof (induction v arbitrary: k acc shift rule: encode_unsigned_varint.induct)
  case (1 v)
  show ?case
  proof (cases "drop_bit 7 v = 0")
    case True
    with "1.prems" have "k = 0" by (subst (asm) varint_step) simp
    then show ?thesis by simp
  next
    case False
    show ?thesis
    proof (cases k)
      case (Suc k')
      have flag: "bit (ucast (v OR 128) :: u8) 7" by (simp add: bit_simps bit_128_int_iff)
      have "k' < length (encode_unsigned_varint (drop_bit 7 v))"
        using "1.prems" False Suc by (subst (asm) varint_step) simp
      note * = "1.IH" [OF refl refl False this "1.prems"(2)]
      show ?thesis
        using False Suc flag "1.prems"(2)
        by (subst varint_step) (simp add: * byte_flag_ucast Let_def)
    qed simp
  qed
qed

subsection \<open>Properties\<close>

text \<open>
  C23: both varint decoders of the storage engine return the encoded value and the
  bytes after it; the unrolled 32-bit encoder, the 64-bit loop and the encoder of
  \<open>base/Endian.cpp\<close> emit the same bytes, and \<open>VarintLength\<close> counts them.
\<close>

theorem varint_roundtrip:
  "GetVarint32 (EncodeVarint32 v @ rest) = Some (v, rest)
   \<and> GetVarint64 (EncodeVarint64 w @ rest) = Some (w, rest)
   \<and> EncodeVarint32 v = encode_unsigned_varint (ucast v)
   \<and> EncodeVarint64 w = encode_unsigned_varint w
   \<and> VarintLength w = length (EncodeVarint64 w)"
  using varint32.dec_enc [of v rest] varint64.dec_enc [of w rest]
  by (simp add: EncodeVarint32_eq EncodeVarint64_eq VarintLength_eq)

text \<open>
  C24: a varint cut short anywhere is rejected by both decoders; no prefix of an
  encoding is taken for another value.
\<close>

theorem varint_truncated:
  assumes "k < length (encode_unsigned_varint v)"
  shows "GetVarint32 (take k (encode_unsigned_varint v)) = None
    \<and> GetVarint64 (take k (encode_unsigned_varint v)) = None"
  using get_varint_loop_truncated [OF assms, where 'w=32] get_varint_loop_truncated [OF assms, where 'w=64]
  by (simp add: GetVarint32_def GetVarint64_def GetVarint64Ptr_def fast_path_eq GetVarint32PtrFallback_def)

lemma encode_300: "encode_unsigned_varint 300 = [172, 2]"
  by (subst varint_step, subst varint_step) simp

theorem varint_truncated_witness: "GetVarint32 [172] = None \<and> GetVarint64 [172] = None"
  using varint_truncated [of 1 300] by (simp add: encode_300)

text \<open>
  C21: the keys of the LSM tree decode to the series id and the timestamp they were
  built from, and the bytewise order of two keys is the order of the pairs (series
  id, timestamp as an unsigned number).
\<close>

theorem encodeKey_order:
  "decodeKey (encodeKey [] tsid t) = Some (tsid, t)
   \<and> (encodeKey [] tsid t < encodeKey [] tsid' t' \<longleftrightarrow> tsid < tsid' \<or> tsid = tsid' \<and> t < t')"
proof -
  have "EncodeFixed64BE tsid = EncodeFixed64BE tsid' \<longleftrightarrow> tsid = tsid'"
    using fixed64BE.prefix_free [of tsid "[]" tsid' "[]"] by auto
  then show ?thesis
    using DecodeFixed64BE_Encode [of t "[]"]
    by (simp add: encodeKey_def decodeKey_def put_defs append_less_iff EncodeFixed64BE_less_iff codec_simps)
qed

text \<open>
  C22: the keys that carry a metric id decode to their three parts, and within one
  source group and metric they are ordered by timestamp.
\<close>

theorem EnCodeKey_order:
  "DeCodeKey (EnCodeKey [] sgid mid t) = Some (sgid, mid, t)
   \<and> (EnCodeKey [] sgid mid t < EnCodeKey [] sgid mid t' \<longleftrightarrow> t < t')"
  using DecodeFixed64BE_Encode [of t "[]"]
  by (simp add: EnCodeKey_def DeCodeKey_def put_defs append_less_iff EncodeFixed64BE_less_iff codec_simps)

end
