(* ===== verification/Label.thy ===== *)
theory Label
  imports Prelude "HOL-Library.Multiset" "HOL-Library.List_Lexorder"
begin

text \<open>
  Labels and label sets (\<open>src/label/Label.cpp\<close>) and the matchers of
  \<open>src/label/EqualMatcher.hpp\<close>, \<open>NotMatcher.hpp\<close> and \<open>RegexMatcher.hpp\<close>.
  A \<open>std::string\<close> is its list of bytes, ordered as \<open>std::string::compare\<close> orders
  it. The hash function XXH64 and \<open>std::regex_match\<close> are parameters of the
  definitions that call them.
\<close>

type_synonym str = bytes

definition string_compare :: "str \<Rightarrow> str \<Rightarrow> int" where
  "string_compare s1 s2 = (if s1 < s2 then - 1 else if s1 = s2 then 0 else 1)"

datatype Label = Label (label: str) (lvalue: str)

type_synonym Labels = "Label list"

subsection \<open>Order\<close>

definition Label_less :: "Label \<Rightarrow> Label \<Rightarrow> bool" where
  "Label_less l1 l2 =
     (let c = string_compare (label l1) (label l2)
      in if c > 0 then False
         else if c < 0 then True
         else let c1 = string_compare (lvalue l1) (lvalue l2)
              in if c1 < 0 then True else False)"

definition Label_less_eq :: "Label \<Rightarrow> Label \<Rightarrow> bool" where
  "Label_less_eq l1 l2 =
     (let c = string_compare (label l1) (label l2)
      in if c > 0 then False
         else if c < 0 then True
         else let c1 = string_compare (lvalue l1) (lvalue l2)
              in if c1 \<le> 0 then True else False)"

instantiation Label :: linorder
begin

definition less_Label_op: "l1 < l2 \<longleftrightarrow> Label_less l1 l2"

definition less_eq_Label_op: "l1 \<le> l2 \<longleftrightarrow> Label_less_eq l1 l2"

instance
proof
  fix x y z :: Label
  show "x < y \<longleftrightarrow> x \<le> y \<and> \<not> y \<le> x"
    by (auto simp: less_Label_op less_eq_Label_op Label_less_def Label_less_eq_def
        string_compare_def Let_def)
  show "x \<le> x"
    by (simp add: less_eq_Label_op Label_less_eq_def string_compare_def Let_def)
  show "x \<le> y \<Longrightarrow> y \<le> z \<Longrightarrow> x \<le> z"
    by (auto simp: less_eq_Label_op Label_less_eq_def string_compare_def Let_def split: if_splits)
  show "x \<le> y \<Longrightarrow> y \<le> x \<Longrightarrow> x = y"
    by (cases x; cases y)
       (auto simp: less_eq_Label_op Label_less_eq_def string_compare_def Let_def split: if_splits)
  show "x \<le> y \<or> y \<le> x"
    by (auto simp: less_eq_Label_op Label_less_eq_def string_compare_def Let_def)
qed

end

subsection \<open>Label sets\<close>

definition lbs_add :: "Labels \<Rightarrow> Label \<Rightarrow> Labels" where
  "lbs_add lset l =
     (if list_ex (\<lambda>x. label x = label l) lset then lset else sort (lset @ [l]))"

definition lbs_del :: "Labels \<Rightarrow> str \<Rightarrow> Labels" where
  "lbs_del lset name = map (\<lambda>x. Label (label x) (lvalue x)) (filter (\<lambda>x. label x \<noteq> name) lset)"

text \<open>The characters the printed forms use.\<close>

abbreviation (input) ch_comma :: u8 where "ch_comma \<equiv> 44"
abbreviation (input) ch_eq :: u8 where "ch_eq \<equiv> 61"
abbreviation (input) ch_plus :: u8 where "ch_plus \<equiv> 43"
abbreviation (input) ch_open :: u8 where "ch_open \<equiv> 123"
abbreviation (input) ch_close :: u8 where "ch_close \<equiv> 125"

fun lbs_string_loop :: "Labels \<Rightarrow> bool \<Rightarrow> str" where
  "lbs_string_loop [] first = []"
| "lbs_string_loop (l # ls) first =
     (if first then [] else [ch_comma]) @ label l @ [ch_eq] @ lvalue l @ lbs_string_loop ls False"

definition lbs_string :: "Labels \<Rightarrow> str" where
  "lbs_string lbs = [ch_open] @ lbs_string_loop lbs True @ [ch_close]"

text \<open>The bytes of \<open>__name__\<close>.\<close>

definition name_label :: str where
  "name_label = [95, 95, 110, 97, 109, 101, 95, 95]"

fun label_metric :: "Labels \<Rightarrow> str" where
  "label_metric [] = []"
| "label_metric (l # lbs) = (if label l = name_label then lvalue l else label_metric lbs)"

fun source_group_loop :: "Labels \<Rightarrow> str" where
  "source_group_loop [] = []"
| "source_group_loop (l # lbs) =
     (if label l = name_label then source_group_loop lbs
      else label l @ [ch_plus] @ lvalue l @ source_group_loop lbs)"

definition label_source_group :: "Labels \<Rightarrow> str" where
  "label_source_group lbs = [ch_open] @ source_group_loop lbs @ [ch_close]"

text \<open>\<open>unordered_map::insert\<close> keeps the value of a key that is present.\<close>

fun lbs_map_loop :: "Labels \<Rightarrow> (str \<rightharpoonup> str) \<Rightarrow> (str \<rightharpoonup> str)" where
  "lbs_map_loop [] r = r"
| "lbs_map_loop (l # lbs) r =
     lbs_map_loop lbs (if r (label l) = None then r(label l \<mapsto> lvalue l) else r)"

definition lbs_map :: "Labels \<Rightarrow> (str \<rightharpoonup> str)" where
  "lbs_map lbs = lbs_map_loop lbs Map.empty"

fun pairs_to_labels :: "str list \<Rightarrow> Labels" where
  "pairs_to_labels (a # b # xs) = Label a b # pairs_to_labels xs"
| "pairs_to_labels _ = []"

definition lbs_from_string :: "str list \<Rightarrow> Labels" where
  "lbs_from_string xs = (if length xs mod 2 \<noteq> 0 then [] else sort (pairs_to_labels xs))"

text \<open>The argument lists the entries of the map in the order the iterator visits them.\<close>

definition lbs_from_map :: "(str \<times> str) list \<Rightarrow> Labels" where
  "lbs_from_map m = sort (map (\<lambda>(k, v). Label k v) m)"

text \<open>The sizes are subtracted as 64-bit numbers and returned as an \<open>int\<close>.\<close>

fun lbs_compare_loop :: "Labels \<Rightarrow> Labels \<Rightarrow> int" where
  "lbs_compare_loop (l1 # lbs1) (l2 # lbs2) =
     (let c = string_compare (label l1) (label l2)
      in if c \<noteq> 0 then c
         else let c1 = string_compare (lvalue l1) (lvalue l2)
              in if c1 \<noteq> 0 then c1 else lbs_compare_loop lbs1 lbs2)"
| "lbs_compare_loop _ _ = 0"

definition lbs_compare :: "Labels \<Rightarrow> Labels \<Rightarrow> int" where
  "lbs_compare lbs1 lbs2 =
     (let c = lbs_compare_loop lbs1 lbs2
      in if c \<noteq> 0 then c
         else sint (of_nat (length lbs1) - of_nat (length lbs2) :: u32))"

subsection \<open>Hashes\<close>

definition SEP :: str where
  "SEP = [255]"

definition XXHASH_SEED :: u64 where
  "XXHASH_SEED = 0"

fun hash_input :: "Labels \<Rightarrow> str" where
  "hash_input [] = []"
| "hash_input (l # lbs) = label l @ SEP @ lvalue l @ SEP @ hash_input lbs"

definition lb_name_label_hash :: "(str \<Rightarrow> u64 \<Rightarrow> u64) \<Rightarrow> Label \<Rightarrow> u64 \<Rightarrow> u64" where
  "lb_name_label_hash XXH64 lb seed = XXH64 (label lb) seed"

definition lb_value_label_hash :: "(str \<Rightarrow> u64 \<Rightarrow> u64) \<Rightarrow> Label \<Rightarrow> u64 \<Rightarrow> u64" where
  "lb_value_label_hash XXH64 lb seed = XXH64 (lvalue lb) seed"

definition lbs_hash :: "(str \<Rightarrow> u64 \<Rightarrow> u64) \<Rightarrow> Labels \<Rightarrow> u64 \<Rightarrow> u64" where
  "lbs_hash XXH64 lbs seed = XXH64 (hash_input lbs) seed"

definition lbs_metric_hash :: "(str \<Rightarrow> u64 \<Rightarrow> u64) \<Rightarrow> Labels \<Rightarrow> u64 \<Rightarrow> u64" where
  "lbs_metric_hash XXH64 lbs seed = XXH64 (label_metric lbs) seed"

fun source_hash_input :: "Labels \<Rightarrow> str" where
  "source_hash_input [] = []"
| "source_hash_input (l # lbs) =
     (if label l = name_label then source_hash_input lbs
      else label l @ SEP @ lvalue l @ SEP @ source_hash_input lbs)"

definition lbs_source_hash :: "(str \<Rightarrow> u64 \<Rightarrow> u64) \<Rightarrow> Labels \<Rightarrow> u64 \<Rightarrow> u64" where
  "lbs_source_hash XXH64 lbs seed = XXH64 (source_hash_input lbs) seed"

definition lbs_hash_group :: "(str \<Rightarrow> u64 \<Rightarrow> u64) \<Rightarrow> Labels list \<Rightarrow> u64" where
  "lbs_hash_group XXH64 labels = XXH64 (concat (map hash_input labels)) XXHASH_SEED"

fun for_labels_input :: "Labels \<Rightarrow> str list \<Rightarrow> str" where
  "for_labels_input [] names = []"
| "for_labels_input (l # lbs) names =
     (if list_ex (\<lambda>name. label l = name) names then label l @ SEP @ lvalue l @ SEP else [])
     @ for_labels_input lbs names"

definition lbs_hash_for_labels :: "(str \<Rightarrow> u64 \<Rightarrow> u64) \<Rightarrow> Labels \<Rightarrow> str list \<Rightarrow> u64" where
  "lbs_hash_for_labels XXH64 lbs names = XXH64 (for_labels_input lbs names) XXHASH_SEED"

fun without_labels_input :: "Labels \<Rightarrow> str list \<Rightarrow> str" where
  "without_labels_input [] names = []"
| "without_labels_input (l # lbs) names =
     (if label l = name_label then without_labels_input lbs names
      else if list_ex (\<lambda>name. label l = name) names then without_labels_input lbs names
      else label l @ SEP @ lvalue l @ SEP @ without_labels_input lbs names)"

definition lbs_hash_without_labels :: "(str \<Rightarrow> u64 \<Rightarrow> u64) \<Rightarrow> Labels \<Rightarrow> str list \<Rightarrow> u64" where
  "lbs_hash_without_labels XXH64 lbs names = XXH64 (without_labels_input lbs names) XXHASH_SEED"

subsection \<open>Matchers\<close>

datatype Matcher =
    EqualMatcher (matcher_name: str) str
  | RegexMatcher (matcher_name: str) str
  | NotMatcher Matcher

text \<open>\<open>std::regex_match\<close> of a pattern and a string; false for an invalid pattern.\<close>

primrec matcher_key :: "Matcher \<Rightarrow> str" where
  "matcher_key (EqualMatcher n v) = n"
| "matcher_key (RegexMatcher n p) = n"
| "matcher_key (NotMatcher m) = matcher_key m"

primrec matcher_match :: "(str \<Rightarrow> str \<Rightarrow> bool) \<Rightarrow> Matcher \<Rightarrow> str \<Rightarrow> bool" where
  "matcher_match regex (EqualMatcher n v) s = (string_compare s v = 0)"
| "matcher_match regex (RegexMatcher n p) s = regex p s"
| "matcher_match regex (NotMatcher m) s = (\<not> matcher_match regex m s)"

subsection \<open>Facts\<close>

lemma string_compare_iff:
  "string_compare s t < 0 \<longleftrightarrow> s < t" "string_compare s t = 0 \<longleftrightarrow> s = t"
  "0 < string_compare s t \<longleftrightarrow> t < s"
  by (auto simp: string_compare_def)

lemma Label_less_iff:
  "l1 < l2 \<longleftrightarrow> label l1 < label l2 \<or> label l1 = label l2 \<and> lvalue l1 < lvalue l2"
  by (auto simp: less_Label_op Label_less_def Let_def string_compare_def)

lemma Nil_less_iff: "[] < xs \<longleftrightarrow> xs \<noteq> []" for xs :: "'a::order list"
  by (cases xs) auto

lemma lbs_compare_loop_less:
  "lbs_compare_loop xs ys < 0 \<or> lbs_compare_loop xs ys = 0 \<and> length xs < length ys \<longleftrightarrow> xs < ys"
  by (induction xs ys rule: lbs_compare_loop.induct)
     (auto simp: Let_def string_compare_def Label_less_iff Label.expand Nil_less_iff)

lemma lbs_compare_loop_eq:
  "lbs_compare_loop xs ys = 0 \<and> length xs = length ys \<longleftrightarrow> xs = ys"
  by (induction xs ys rule: lbs_compare_loop.induct)
     (auto simp: Let_def string_compare_def Label.expand)

lemma sint_size_diff:
  assumes "m < 2 ^ 31" "n < 2 ^ 31"
  shows "sint (of_nat m - of_nat n :: u32) = int m - int n"
proof -
  have "(of_nat m - of_nat n :: u32) = of_int (int m - int n)" by simp
  then have "sint (of_nat m - of_nat n :: u32) = signed_take_bit 31 (int m - int n)"
    by (simp only: signed_of_int) simp
  also have "\<dots> = int m - int n"
    using assms by (intro signed_take_bit_int_eq_self) simp_all
  finally show ?thesis .
qed

definition wf_labels :: "Labels \<Rightarrow> bool" where
  "wf_labels lset \<longleftrightarrow> sorted lset \<and> distinct (map label lset)"

lemma lbs_map_loop_map_of:
  "lbs_map_loop lbs r = map_of (map (\<lambda>l. (label l, lvalue l)) lbs) ++ r"
  by (induction lbs arbitrary: r) (auto simp: map_add_def fun_eq_iff split: option.splits)

lemma lbs_map_of: "lbs_map lbs = map_of (map (\<lambda>l. (label l, lvalue l)) lbs)"
  by (simp add: lbs_map_def lbs_map_loop_map_of)

lemma sep_split_unique:
  assumes "xs @ c # r = ys @ c # s" "c \<notin> set xs" "c \<notin> set ys"
  shows "xs = ys \<and> r = s"
  using assms
proof (induction xs arbitrary: ys)
  case Nil
  then show ?case by (cases ys) auto
next
  case (Cons x xs)
  then show ?case by (cases ys) auto
qed

definition sep_free :: "Labels \<Rightarrow> bool" where
  "sep_free lbs \<longleftrightarrow> list_all (\<lambda>l. 255 \<notin> set (label l) \<and> 255 \<notin> set (lvalue l)) lbs"

lemma hash_input_inj:
  "sep_free xs \<Longrightarrow> sep_free ys \<Longrightarrow> hash_input xs = hash_input ys \<Longrightarrow> xs = ys"
proof (induction xs arbitrary: ys)
  case Nil
  then show ?case by (cases ys) (auto simp: SEP_def)
next
  case (Cons x xs)
  then obtain y ys' where ys: "ys = y # ys'" by (cases ys) (auto simp: SEP_def)
  with Cons.prems have eq: "label x @ 255 # lvalue x @ 255 # hash_input xs
      = label y @ 255 # lvalue y @ 255 # hash_input ys'"
    by (simp add: SEP_def)
  have "label x = label y \<and> lvalue x @ 255 # hash_input xs = lvalue y @ 255 # hash_input ys'"
    using sep_split_unique [OF eq] Cons.prems ys by (simp add: sep_free_def)
  moreover from this have "lvalue x = lvalue y \<and> hash_input xs = hash_input ys'"
    using sep_split_unique [of "lvalue x" 255 "hash_input xs" "lvalue y"] Cons.prems ys
    by (simp add: sep_free_def)
  ultimately show ?case
    using Cons.IH [of ys'] Cons.prems ys by (simp add: sep_free_def Label.expand)
qed

lemma map_of_permute:
  assumes "mset xs = mset ys" "distinct (map fst xs)"
  shows "map_of xs = map_of ys"
proof -
  have "set xs = set ys" using assms(1) by (rule mset_eq_setD)
  moreover have "distinct (map fst ys)"
    using assms by (metis mset_map mset_eq_imp_distinct_iff)
  ultimately show ?thesis using assms(2) by (simp add: map_of_inject_set)
qed

lemma lbs_map_sort: "distinct (map label xs) \<Longrightarrow> lbs_map (sort xs) = lbs_map xs"
  unfolding lbs_map_of by (rule map_of_permute [symmetric]) (simp_all add: comp_def)

lemma distinct_map_label_sort: "distinct (map label (sort xs)) = distinct (map label xs)"
  by (metis mset_map mset_sort mset_eq_imp_distinct_iff)

lemma lbs_map_dom: "lbs_map lset n = None \<longleftrightarrow> n \<notin> label ` set lset"
  by (force simp: lbs_map_of map_of_eq_None_iff)

lemma lbs_map_append: "n \<notin> label ` set xs \<Longrightarrow> lbs_map (xs @ [Label n v]) = (lbs_map xs)(n \<mapsto> v)"
  by (induction xs) (auto simp: lbs_map_of fun_eq_iff)

lemma lbs_del_filter: "lbs_del lset name = filter (\<lambda>x. label x \<noteq> name) lset"
  by (simp add: lbs_del_def)

lemma lbs_map_filter: "lbs_map (filter (\<lambda>x. label x \<noteq> n) lset) = (lbs_map lset)(n := None)"
  unfolding lbs_map_of by (induction lset) auto

lemma wf_lbs_add: "wf_labels lset \<Longrightarrow> wf_labels (lbs_add lset l)"
  by (auto simp: wf_labels_def lbs_add_def distinct_map_label_sort list_ex_iff)

lemma wf_lbs_del: "wf_labels lset \<Longrightarrow> wf_labels (lbs_del lset n)"
  by (auto simp: wf_labels_def lbs_del_filter sorted_wrt_filter distinct_map_filter)

subsection \<open>Properties\<close>

text \<open>
  C20: \<open>lbs_add\<close> and \<open>lbs_del\<close> keep a label set sorted with one value per name;
  as a map, adding binds a name that is not bound, leaves a bound name with its old value,
  and deleting unbinds the name.
\<close>

theorem label_set_operations:
  assumes "wf_labels lset"
  shows "wf_labels (lbs_add lset (Label n v)) \<and> wf_labels (lbs_del lset n)
    \<and> lbs_map (lbs_add lset (Label n v))
        = (if lbs_map lset n = None then (lbs_map lset)(n \<mapsto> v) else lbs_map lset)
    \<and> lbs_map (lbs_del lset n) = (lbs_map lset)(n := None)"
proof -
  have "lbs_map (sort (lset @ [Label n v])) = (lbs_map lset)(n \<mapsto> v)" if "n \<notin> label ` set lset"
    using that assms lbs_map_sort [of "lset @ [Label n v]"]
    by (simp add: wf_labels_def lbs_map_append)
  then show ?thesis
    using wf_lbs_add [OF assms, of "Label n v"] wf_lbs_del [OF assms, of n]
    by (auto simp: lbs_add_def lbs_map_dom lbs_del_filter lbs_map_filter list_ex_iff)
qed

theorem label_set_operations_witness:
  "lbs_map (lbs_add [Label [98] [1]] (Label [97] [2])) [97] = Some [2]
   \<and> wf_labels (lbs_add [Label [98] [1]] (Label [97] [2]))
   \<and> lbs_map (lbs_del [Label [98] [1]] [98]) = Map.empty"
  using label_set_operations [of "[Label [98] [1]]" "[97]" "[2]"]
    label_set_operations [of "[Label [98] [1]]" "[98]" "[2]"]
  by (simp add: wf_labels_def lbs_map_def fun_upd_idem_iff)

text \<open>
  C26: \<open>lbs_compare\<close> orders label sets lexicographically and returns zero exactly for
  equal ones, as long as their sizes fit an \<open>int\<close>.
\<close>

theorem lbs_compare_order:
  assumes "length lbs1 < 2 ^ 31" "length lbs2 < 2 ^ 31"
  shows "(lbs_compare lbs1 lbs2 < 0 \<longleftrightarrow> lbs1 < lbs2) \<and> (lbs_compare lbs1 lbs2 = 0 \<longleftrightarrow> lbs1 = lbs2)"
  using lbs_compare_loop_less [of lbs1 lbs2] lbs_compare_loop_eq [of lbs1 lbs2]
  by (auto simp: lbs_compare_def Let_def sint_size_diff [OF assms])

theorem lbs_compare_order_witness: "lbs_compare [Label [97] [1]] [Label [97] [1], Label [98] [2]] < 0"
  using lbs_compare_order [of "[Label [97] [1]]" "[Label [97] [1], Label [98] [2]]"] by simp

text \<open>
  C27: label sets whose names and values avoid the separator byte are hashed from
  different byte strings unless they are equal, so where \<open>lbs_hash\<close> identifies two of
  them, XXH64 collides on just these two byte strings.
\<close>

theorem lbs_hash_input_injective:
  assumes "sep_free xs" "sep_free ys"
  shows "(hash_input xs = hash_input ys \<longleftrightarrow> xs = ys)
    \<and> (xs \<noteq> ys \<and> lbs_hash XXH64 xs seed = lbs_hash XXH64 ys seed
        \<longrightarrow> hash_input xs \<noteq> hash_input ys \<and> XXH64 (hash_input xs) seed = XXH64 (hash_input ys) seed)"
  using hash_input_inj [OF assms] by (auto simp: lbs_hash_def)

theorem lbs_hash_input_injective_witness:
  "hash_input [Label [97] [98], Label [99] [100]] \<noteq> hash_input [Label [97] [98, 99]]"
  using lbs_hash_input_injective [of "[Label [97] [98], Label [99] [100]]" "[Label [97] [98, 99]]"]
  by (simp add: sep_free_def)

end
