(* ===== verification/LogRecords.thy ===== *)
theory LogRecords
  imports Coding Label
begin

text \<open>
  The payloads of the write-ahead log: the record types of
  \<open>src/leveldb/db/log_format.h\<close> and \<open>src/tsdbutil/tsdbutils.hpp\<close>, the encoders of
  \<open>src/leveldb/db/log_writer.cc\<close> and the decoders of \<open>src/leveldb/db/log_reader.cc\<close>.
  A decoder returns \<open>None\<close> where the code reads past the record or uses a variable
  that was never set; it keeps going, as the code does, when a varint or a slice
  cannot be read, with the variable left as it was. Where the code keeps an \<open>int\<close>
  position in the record, the model keeps the bytes that are left; the two agree on
  records of less than 2 GiB, beyond which the position of the code overflows.
\<close>

subsection \<open>Record types\<close>

definition kSeries :: u8 where "kSeries = 0"
definition kSample :: u8 where "kSample = 1"
definition kFlush :: u8 where "kFlush = 3"
definition kGroup :: u8 where "kGroup = 4"
definition kGroupSample :: u8 where "kGroupSample = 5"
definition kSampleGorilla :: u8 where "kSampleGorilla = 6"

lemmas record_kinds = kSeries_def kSample_def kFlush_def kGroup_def kGroupSample_def kSampleGorilla_def

record RefSeries =
  rs_ref :: u64
  rs_lset :: Labels
  rs_lset_ptr :: "Labels option"
  rs_flushed_txn :: i64
  rs_log_clean_txn :: i64

record TreeRefSeries =
  trs_sgid :: u64
  trs_mid :: u16
  trs_lset :: Labels
  trs_lset_ptr :: "Labels option"
  trs_flushed_txn :: i64
  trs_log_clean_txn :: i64

record RefGroup =
  rg_ref :: u64
  rg_group_lset :: Labels
  rg_individual_lsets :: "Labels list"

record RefSample =
  sm_ref :: u64
  sm_logical_id :: u64
  sm_t :: i64
  sm_v :: double
  sm_txn :: i64

record TreeRefSample =
  ts_sgid :: u64
  ts_mid :: u16
  ts_t :: i64
  ts_v :: double
  ts_txn :: i64

record RefGroupSample =
  gs_ref :: u64
  gs_individual_lsets :: "Labels list"
  gs_slots :: "u32 list"
  gs_t :: i64
  gs_v :: "double list"
  gs_txn :: i64

record RefFlush =
  rf_ref :: u64
  rf_logical_id :: u64
  rf_txn :: i64

record TreeRefFlush =
  trf_mid :: u16
  trf_sgid :: u64
  trf_txn :: i64

subsection \<open>Encoders\<close>

definition put_labels :: "bytes \<Rightarrow> Labels \<Rightarrow> bytes" where
  "put_labels result lset =
     foldl (\<lambda>result l. PutLengthPrefixedSlice (PutLengthPrefixedSlice result (label l)) (lvalue l))
       (PutVarint32 result (of_nat (length lset))) lset"

definition rs_lptr :: "RefSeries \<Rightarrow> Labels" where
  "rs_lptr r = (case rs_lset_ptr r of Some l \<Rightarrow> l | None \<Rightarrow> rs_lset r)"

definition put_series_head :: "bytes \<Rightarrow> u64 \<Rightarrow> i64 \<Rightarrow> i64 \<Rightarrow> bytes" where
  "put_series_head result ref flushed_txn log_clean_txn =
     PutFixed64BE (PutFixed64BE (PutFixed64BE result ref) flushed_txn) log_clean_txn"

definition put_series :: "bytes \<Rightarrow> RefSeries \<Rightarrow> bytes" where
  "put_series result r =
     put_labels (put_series_head result (rs_ref r) (rs_flushed_txn r) (rs_log_clean_txn r)) (rs_lptr r)"

definition series_enc :: "RefSeries list \<Rightarrow> bytes \<Rightarrow> bytes" where
  "series_enc ss result = foldl put_series (result @ [kSeries]) ss"

definition series_one_enc :: "RefSeries \<Rightarrow> bytes \<Rightarrow> bytes" where
  "series_one_enc r result = put_series (result @ [kSeries]) r"

definition series_tsdbutil_enc :: "RefSeries list \<Rightarrow> bytes \<Rightarrow> bytes" where
  "series_tsdbutil_enc ss result = foldl put_series (result @ [kSeries]) ss"

definition series_without_labels :: "u64 \<Rightarrow> i64 \<Rightarrow> i64 \<Rightarrow> bytes \<Rightarrow> bytes" where
  "series_without_labels ref flushed_txn log_clean_txn result =
     put_series_head (result @ [kSeries]) ref flushed_txn log_clean_txn"

definition series_without_labels_ref :: "RefSeries \<Rightarrow> bytes \<Rightarrow> bytes" where
  "series_without_labels_ref r result =
     put_series_head (result @ [kSeries]) (rs_ref r) (rs_flushed_txn r) (rs_log_clean_txn r)"

definition group_enc :: "RefGroup \<Rightarrow> bytes \<Rightarrow> bytes" where
  "group_enc g result =
     foldl put_labels
       (PutVarint32
         (put_labels (PutFixed64BE (result @ [kGroup]) (rg_ref g)) (rg_group_lset g))
         (of_nat (length (rg_individual_lsets g))))
       (rg_individual_lsets g)"

definition put_sample_first :: "bytes \<Rightarrow> RefSample \<Rightarrow> bytes" where
  "put_sample_first result s =
     PutFixed64BE (PutFixed64BE (PutFixed64BE (PutFixed64BE (PutFixed64BE result
       (sm_ref s)) (sm_logical_id s)) (sm_t s)) (encode_double (sm_v s))) (sm_txn s)"

definition put_sample_next :: "bytes \<Rightarrow> RefSample \<Rightarrow> RefSample \<Rightarrow> bytes" where
  "put_sample_next result prev s =
     PutVarint64 (PutFixed64BE (PutVarint64 (PutVarint64 (PutVarint64 result
       (zigzag_encode (sm_ref s - sm_ref prev)))
       (zigzag_encode (sm_logical_id s - sm_logical_id prev)))
       (zigzag_encode (sm_t s - sm_t prev)))
       (encode_double (sm_v s)))
       (zigzag_encode (sm_txn s - sm_txn prev))"

fun put_samples_rest :: "bytes \<Rightarrow> RefSample \<Rightarrow> RefSample list \<Rightarrow> bytes" where
  "put_samples_rest result prev [] = result"
| "put_samples_rest result prev (s # ss) = put_samples_rest (put_sample_next result prev s) s ss"

text \<open>\<open>samples[0]\<close> is read without a test that the vector is not empty.\<close>

fun samples_enc :: "RefSample list \<Rightarrow> bytes \<Rightarrow> bytes option" where
  "samples_enc (s # ss) result = Some (put_samples_rest (put_sample_first (result @ [kSample]) s) s ss)"
| "samples_enc [] result = None"

fun samples_tsdbutil_enc :: "RefSample list \<Rightarrow> bytes \<Rightarrow> bytes option" where
  "samples_tsdbutil_enc (s # ss) result =
     Some (put_samples_rest (put_sample_first (result @ [kSample]) s) s ss)"
| "samples_tsdbutil_enc [] result = None"

definition group_sample_enc :: "RefGroupSample \<Rightarrow> bytes \<Rightarrow> bytes" where
  "group_sample_enc g result =
     (let result = PutFixed64BE (result @ [kGroupSample]) (gs_ref g);
          result =
            (if gs_individual_lsets g = [] then
               foldl PutVarint32
                 (PutVarint32 (result @ [1])
                   (if gs_slots g = [] then push_bit 31 1 OR of_nat (length (gs_v g))
                    else of_nat (length (gs_slots g))))
                 (gs_slots g)
             else
               foldl put_labels
                 (PutVarint32 (result @ [2]) (of_nat (length (gs_individual_lsets g))))
                 (gs_individual_lsets g))
      in PutFixed64BE (foldl (\<lambda>r v. PutFixed64BE r (encode_double v)) (PutFixed64BE result (gs_t g)) (gs_v g))
           (gs_txn g))"

definition flush_enc :: "RefFlush \<Rightarrow> bytes \<Rightarrow> bytes" where
  "flush_enc f result =
     PutFixed64BE (PutFixed64BE (PutFixed64BE (result @ [kFlush]) (rf_ref f)) (rf_logical_id f)) (rf_txn f)"

definition put_tree_sample_first :: "bytes \<Rightarrow> TreeRefSample \<Rightarrow> bytes" where
  "put_tree_sample_first result s =
     PutFixed64BE (PutFixed64BE (PutFixed64BE (PutFixed64BE (PutFixed16 result
       (ts_mid s)) (ts_sgid s)) (ts_t s)) (encode_double (ts_v s))) (ts_txn s)"

definition put_tree_sample_next :: "bytes \<Rightarrow> TreeRefSample \<Rightarrow> TreeRefSample \<Rightarrow> bytes" where
  "put_tree_sample_next result prev s =
     PutVarint64 (PutFixed64BE (PutVarint64 (PutVarint64 (PutVarint64 result
       (zigzag_encode (ucast (ts_mid s) - ucast (ts_mid prev))))
       (zigzag_encode (ts_sgid s - ts_sgid prev)))
       (zigzag_encode (ts_t s - ts_t prev)))
       (encode_double (ts_v s)))
       (zigzag_encode (ts_txn s - ts_txn prev))"

fun put_tree_samples_rest :: "bytes \<Rightarrow> TreeRefSample \<Rightarrow> TreeRefSample list \<Rightarrow> bytes" where
  "put_tree_samples_rest result prev [] = result"
| "put_tree_samples_rest result prev (s # ss) =
     put_tree_samples_rest (put_tree_sample_next result prev s) s ss"

text \<open>The overloads on a vector, on a vector of pointers and on an array with its length.\<close>

fun treeSamples_enc :: "TreeRefSample list \<Rightarrow> bytes \<Rightarrow> bytes option" where
  "treeSamples_enc (s # ss) result =
     Some (put_tree_samples_rest (put_tree_sample_first (result @ [kSample]) s) s ss)"
| "treeSamples_enc [] result = None"

fun treeSamples_ptrs_enc :: "TreeRefSample list \<Rightarrow> bytes \<Rightarrow> bytes option" where
  "treeSamples_ptrs_enc (s # ss) result =
     Some (put_tree_samples_rest (put_tree_sample_first (result @ [kSample]) s) s ss)"
| "treeSamples_ptrs_enc [] result = None"

fun treeSamples_array_enc :: "TreeRefSample list \<Rightarrow> nat \<Rightarrow> bytes \<Rightarrow> bytes option" where
  "treeSamples_array_enc (s # ss) item_num result =
     (if length (s # ss) < item_num then None
      else Some (put_tree_samples_rest (put_tree_sample_first (result @ [kSample]) s) s
             (take (item_num - 1) ss)))"
| "treeSamples_array_enc [] item_num result = None"

definition trs_lptr :: "TreeRefSeries \<Rightarrow> Labels" where
  "trs_lptr r = (case trs_lset_ptr r of Some l \<Rightarrow> l | None \<Rightarrow> trs_lset r)"

definition put_tree_series_head :: "bytes \<Rightarrow> u16 \<Rightarrow> u64 \<Rightarrow> i64 \<Rightarrow> i64 \<Rightarrow> bytes" where
  "put_tree_series_head result mid sgid flushed_txn log_clean_txn =
     PutFixed64BE (PutFixed64BE (PutFixed64BE (PutFixed16 result mid) sgid) flushed_txn) log_clean_txn"

definition put_tree_series :: "bytes \<Rightarrow> TreeRefSeries \<Rightarrow> bytes" where
  "put_tree_series result r =
     put_labels
       (put_tree_series_head result (trs_mid r) (trs_sgid r) (trs_flushed_txn r) (trs_log_clean_txn r))
       (trs_lptr r)"

definition treeSeries_enc :: "TreeRefSeries list \<Rightarrow> bytes \<Rightarrow> bytes" where
  "treeSeries_enc ss result = foldl put_tree_series (result @ [kSeries]) ss"

definition treeSeries_array_enc :: "TreeRefSeries list \<Rightarrow> nat \<Rightarrow> bytes \<Rightarrow> bytes option" where
  "treeSeries_array_enc ss item_size result =
     (if length ss < item_size then None
      else Some (foldl put_tree_series (result @ [kSeries]) (take item_size ss)))"

definition treeSeries_one_enc :: "TreeRefSeries \<Rightarrow> bytes \<Rightarrow> bytes" where
  "treeSeries_one_enc r result = put_tree_series (result @ [kSeries]) r"

definition tree_series_without_label :: "u16 \<Rightarrow> u64 \<Rightarrow> i64 \<Rightarrow> i64 \<Rightarrow> bytes \<Rightarrow> bytes" where
  "tree_series_without_label mid sgid flushed_txn log_clean_txn result =
     put_tree_series_head (result @ [kSeries]) mid sgid flushed_txn log_clean_txn"

definition treeFlush_enc :: "TreeRefFlush \<Rightarrow> bytes \<Rightarrow> bytes" where
  "treeFlush_enc f result =
     PutFixed64BE (PutFixed64BE (PutFixed16 (result @ [kFlush]) (trf_mid f)) (trf_sgid f)) (trf_txn f)"

subsection \<open>Decoders\<close>

text \<open>
  The loop over the labels of a series: \<open>result\<close> is the slice variable the code
  shares between the reads; a failed read leaves it unchanged.
\<close>

fun read_labels :: "nat \<Rightarrow> bytes \<Rightarrow> bytes \<Rightarrow> Labels \<times> bytes \<times> bytes" where
  "read_labels 0 result s = ([], result, s)"
| "read_labels (Suc n) result s =
     (let (r1, s1) = GetLengthPrefixedSlice s;
          name = (case r1 of Some x \<Rightarrow> x | None \<Rightarrow> result);
          (r2, s2) = GetLengthPrefixedSlice s1;
          val = (case r2 of Some x \<Rightarrow> x | None \<Rightarrow> name);
          (ls, result', s') = read_labels n val s2
      in (Label name val # ls, result', s'))"

lemma read_labels_length:
  "read_labels n result s = (ls, result', s') \<Longrightarrow> length s' \<le> length s"
proof (induction n arbitrary: result s ls)
  case (Suc n)
  obtain r1 s1 where g1: "GetLengthPrefixedSlice s = (r1, s1)" by fastforce
  obtain r2 s2 where g2: "GetLengthPrefixedSlice s1 = (r2, s2)" by fastforce
  from Suc.prems g1 g2 obtain v ls' where "read_labels n v s2 = (ls', result', s')"
    by (auto simp: Let_def split: prod.splits)
  with Suc.IH have "length s' \<le> length s2" by blast
  with GetLengthPrefixedSlice_length [OF g1] GetLengthPrefixedSlice_length [OF g2] show ?case by simp
qed simp

lemma read_fixed64BE_length: "read_fixed64BE s = Some (v, s') \<Longrightarrow> length s' < length s"
  by (auto simp: read_fixed64BE_def elim!: DecodeFixed64BE.elims split: bind_splits)

lemma read_fixed16_length: "read_fixed16 s = Some (v, s') \<Longrightarrow> length s' < length s"
  by (auto simp: read_fixed16_def elim!: DecodeFixed16.elims split: bind_splits)

lemma read_or_length:
  "(v', s') = read_or GetVarint32 old32 s \<Longrightarrow> length s' \<le> length s"
  "(w', s') = read_or GetVarint64 old64 s \<Longrightarrow> length s' \<le> length s"
  by (auto simp: read_or_def split: option.splits dest: GetVarint32_length GetVarint64_length)

lemmas loop_lengths =
  read_fixed64BE_length read_fixed16_length read_labels_length [OF sym] read_or_length

function series_loop ::
  "u32 option \<Rightarrow> bytes \<Rightarrow> bytes \<Rightarrow> RefSeries list \<Rightarrow> RefSeries list option" where
  "series_loop sz result s v =
     (if s = [] then Some v else do {
       (ref, s1) \<leftarrow> read_fixed64BE s;
       (flushed_txn, s2) \<leftarrow> read_fixed64BE s1;
       (log_clean_txn, s3) \<leftarrow> read_fixed64BE s2;
       let (sz', s4) = read_or GetVarint32 sz s3;
       n \<leftarrow> sz';
       let (ls, result', s5) = read_labels (unat n) result s4;
       series_loop sz' result' s5
         (v @ [\<lparr>rs_ref = ref, rs_lset = ls, rs_lset_ptr = None, rs_flushed_txn = flushed_txn,
                rs_log_clean_txn = log_clean_txn\<rparr>])
     })"
  by pat_completeness auto
termination
  by (relation "measure (\<lambda>(sz, result, s, v). length s)")
     (auto dest!: loop_lengths)

declare series_loop.simps [simp del]

text \<open>The overload that fills one \<open>RefSeries\<close>: every round overwrites it and adds to its labels.\<close>

function series_one_loop ::
  "u32 option \<Rightarrow> bytes \<Rightarrow> bytes \<Rightarrow> RefSeries \<Rightarrow> RefSeries option" where
  "series_one_loop sz result s rs =
     (if s = [] then Some rs else do {
       (ref, s1) \<leftarrow> read_fixed64BE s;
       (flushed_txn, s2) \<leftarrow> read_fixed64BE s1;
       (log_clean_txn, s3) \<leftarrow> read_fixed64BE s2;
       let (sz', s4) = read_or GetVarint32 sz s3;
       n \<leftarrow> sz';
       let (ls, result', s5) = read_labels (unat n) result s4;
       series_one_loop sz' result' s5
         (rs\<lparr>rs_ref := ref, rs_flushed_txn := flushed_txn, rs_log_clean_txn := log_clean_txn,
             rs_lset := rs_lset rs @ ls\<rparr>)
     })"
  by pat_completeness auto
termination
  by (relation "measure (\<lambda>(sz, result, s, v). length s)") (auto dest!: loop_lengths)

declare series_one_loop.simps [simp del]

fun series_dec :: "bytes \<Rightarrow> RefSeries list \<Rightarrow> (bool \<times> RefSeries list) option" where
  "series_dec [] v = None"
| "series_dec (k # s) v =
     (if k \<noteq> kSeries then Some (False, v)
      else do { v' \<leftarrow> series_loop None [] s v; Some (True, v') })"

fun series_one_dec :: "bytes \<Rightarrow> RefSeries \<Rightarrow> (bool \<times> RefSeries) option" where
  "series_one_dec [] rs = None"
| "series_one_dec (k # s) rs =
     (if k \<noteq> kSeries then Some (False, rs)
      else do { rs' \<leftarrow> series_one_loop None [] s rs; Some (True, rs') })"

fun read_lsets :: "nat \<Rightarrow> u32 option \<Rightarrow> bytes \<Rightarrow> bytes \<Rightarrow> (Labels list \<times> bytes) option" where
  "read_lsets 0 sz result s = Some ([], s)"
| "read_lsets (Suc k) sz result s =
     do {
       let (sz', s1) = read_or GetVarint32 sz s;
       n \<leftarrow> sz';
       let (ls, result', s2) = read_labels (unat n) result s1;
       (lss, s3) \<leftarrow> read_lsets k sz' result' s2;
       Some (ls # lss, s3)
     }"

fun group_dec :: "bytes \<Rightarrow> RefGroup \<Rightarrow> (bool \<times> RefGroup) option" where
  "group_dec [] g = None"
| "group_dec (k # s) g =
     (if k \<noteq> kGroup then Some (False, g)
      else do {
        (ref, s1) \<leftarrow> read_fixed64BE s;
        let (sz, s2) = read_or GetVarint32 None s1;
        n \<leftarrow> sz;
        let (ls, result, s3) = read_labels (unat n) [] s2;
        let (num_ts, s4) = read_or GetVarint32 None s3;
        m \<leftarrow> num_ts;
        (lss, s5) \<leftarrow> read_lsets (unat m) sz result s4;
        Some (True, g\<lparr>rg_ref := ref, rg_group_lset := rg_group_lset g @ ls,
                       rg_individual_lsets := rg_individual_lsets g @ lss\<rparr>)
      })"

function samples_loop ::
  "u64 option \<Rightarrow> bytes \<Rightarrow> RefSample \<Rightarrow> RefSample list \<Rightarrow> RefSample list option" where
  "samples_loop tmp s prev v =
     (if s = [] then Some v else do {
       let (tmp1, s1) = read_or GetVarint64 tmp s;
       d_ref \<leftarrow> tmp1;
       let (tmp2, s2) = read_or GetVarint64 tmp1 s1;
       d_id \<leftarrow> tmp2;
       let (tmp3, s3) = read_or GetVarint64 tmp2 s2;
       d_t \<leftarrow> tmp3;
       (bits, s4) \<leftarrow> read_fixed64BE s3;
       let (tmp4, s5) = read_or GetVarint64 tmp3 s4;
       d_txn \<leftarrow> tmp4;
       let x = \<lparr>sm_ref = sm_ref prev + zigzag_decode d_ref,
                 sm_logical_id = sm_logical_id prev + zigzag_decode d_id,
                 sm_t = sm_t prev + zigzag_decode d_t,
                 sm_v = decode_double bits,
                 sm_txn = sm_txn prev + zigzag_decode d_txn\<rparr>;
       samples_loop tmp4 s5 x (v @ [x])
     })"
  by pat_completeness auto
termination
  by (relation "measure (\<lambda>(tmp, s, prev, v). length s)") (auto dest!: loop_lengths)

declare samples_loop.simps [simp del]

fun samples_dec :: "bytes \<Rightarrow> RefSample list \<Rightarrow> (bool \<times> RefSample list) option" where
  "samples_dec [] v = None"
| "samples_dec (k # s) v =
     (if k \<noteq> kSample then Some (False, v)
      else do {
        (ref, s1) \<leftarrow> read_fixed64BE s;
        (logical_id, s2) \<leftarrow> read_fixed64BE s1;
        (t, s3) \<leftarrow> read_fixed64BE s2;
        (bits, s4) \<leftarrow> read_fixed64BE s3;
        (txn, s5) \<leftarrow> read_fixed64BE s4;
        let x = \<lparr>sm_ref = ref, sm_logical_id = logical_id, sm_t = t, sm_v = decode_double bits,
                  sm_txn = txn\<rparr>;
        v' \<leftarrow> samples_loop None s5 x (v @ [x]);
        Some (True, v')
      })"

fun read_slots :: "nat \<Rightarrow> u32 option \<Rightarrow> bytes \<Rightarrow> (u32 list \<times> bytes) option" where
  "read_slots 0 slot s = Some ([], s)"
| "read_slots (Suc k) slot s =
     do {
       let (slot', s1) = read_or GetVarint32 slot s;
       x \<leftarrow> slot';
       (xs, s2) \<leftarrow> read_slots k slot' s1;
       Some (x # xs, s2)
     }"

fun group_sample_dec :: "bytes \<Rightarrow> RefGroupSample \<Rightarrow> (bool \<times> RefGroupSample) option" where
  "group_sample_dec [] g = None"
| "group_sample_dec (k # s) g =
     (if k \<noteq> kGroupSample then Some (False, g)
      else do {
        (ref, s1) \<leftarrow> read_fixed64BE s;
        (kind, s2) \<leftarrow> (case s1 of [] \<Rightarrow> None | b # r \<Rightarrow> Some (b, r));
        let (num, s3) = read_or GetVarint32 None s2;
        num_slots \<leftarrow> num;
        (slots, lsets, s4) \<leftarrow>
          (if kind = 1 then
             if drop_bit 31 num_slots = 0 then
               do { (xs, r) \<leftarrow> read_slots (unat num_slots) None s3; Some (xs, [], r) }
             else Some ([], [], s3)
           else do { (lss, r) \<leftarrow> read_lsets (unat num_slots) None [] s3; Some ([], lss, r) });
        (t, s5) \<leftarrow> read_fixed64BE s4;
        (vs, s6) \<leftarrow> read_n read_fixed64BE (unat (num_slots AND 2147483647)) s5;
        txn \<leftarrow> DecodeFixed64BE s6;
        Some (True, g\<lparr>gs_ref := ref, gs_slots := gs_slots g @ slots,
                       gs_individual_lsets := gs_individual_lsets g @ lsets, gs_t := t,
                       gs_v := gs_v g @ map decode_double vs, gs_txn := txn\<rparr>)
      })"

fun flush_dec :: "bytes \<Rightarrow> RefFlush \<Rightarrow> (bool \<times> RefFlush) option" where
  "flush_dec [] f = None"
| "flush_dec (k # s) f =
     (if k \<noteq> kFlush then Some (False, f)
      else do {
        ref \<leftarrow> DecodeFixed64BE s;
        logical_id \<leftarrow> DecodeFixed64BE (drop 8 s);
        txn \<leftarrow> DecodeFixed64BE (drop 16 s);
        Some (True, f\<lparr>rf_ref := ref, rf_logical_id := logical_id, rf_txn := txn\<rparr>)
      })"

function treeSeries_loop ::
  "u32 option \<Rightarrow> bytes \<Rightarrow> bytes \<Rightarrow> TreeRefSeries list \<Rightarrow> TreeRefSeries list option" where
  "treeSeries_loop sz result s v =
     (if s = [] then Some v else do {
       (mid, s0) \<leftarrow> read_fixed16 s;
       (sgid, s1) \<leftarrow> read_fixed64BE s0;
       (flushed_txn, s2) \<leftarrow> read_fixed64BE s1;
       (log_clean_txn, s3) \<leftarrow> read_fixed64BE s2;
       let (sz', s4) = read_or GetVarint32 sz s3;
       n \<leftarrow> sz';
       let (ls, result', s5) = read_labels (unat n) result s4;
       treeSeries_loop sz' result' s5
         (v @ [\<lparr>trs_sgid = sgid, trs_mid = mid, trs_lset = ls, trs_lset_ptr = None,
                trs_flushed_txn = flushed_txn, trs_log_clean_txn = log_clean_txn\<rparr>])
     })"
  by pat_completeness auto
termination
  by (relation "measure (\<lambda>(sz, result, s, v). length s)") (auto dest!: loop_lengths)

declare treeSeries_loop.simps [simp del]

fun treeSeries_dec :: "bytes \<Rightarrow> TreeRefSeries list \<Rightarrow> (bool \<times> TreeRefSeries list) option" where
  "treeSeries_dec [] v = None"
| "treeSeries_dec (k # s) v =
     (if k \<noteq> kSeries then Some (False, v)
      else do { v' \<leftarrow> treeSeries_loop None [] s v; Some (True, v') })"

function treeSeries_one_loop ::
  "u32 option \<Rightarrow> bytes \<Rightarrow> bytes \<Rightarrow> TreeRefSeries \<Rightarrow> TreeRefSeries option" where
  "treeSeries_one_loop sz result s rs =
     (if s = [] then Some rs else do {
       (mid, s0) \<leftarrow> read_fixed16 s;
       (sgid, s1) \<leftarrow> read_fixed64BE s0;
       (flushed_txn, s2) \<leftarrow> read_fixed64BE s1;
       (log_clean_txn, s3) \<leftarrow> read_fixed64BE s2;
       let (sz', s4) = read_or GetVarint32 sz s3;
       n \<leftarrow> sz';
       let (ls, result', s5) = read_labels (unat n) result s4;
       treeSeries_one_loop sz' result' s5
         (rs\<lparr>trs_mid := mid, trs_sgid := sgid, trs_flushed_txn := flushed_txn,
             trs_log_clean_txn := log_clean_txn, trs_lset := trs_lset rs @ ls\<rparr>)
     })"
  by pat_completeness auto
termination
  by (relation "measure (\<lambda>(sz, result, s, v). length s)") (auto dest!: loop_lengths)

declare treeSeries_one_loop.simps [simp del]

fun treeSeries_one_dec :: "bytes \<Rightarrow> TreeRefSeries \<Rightarrow> (bool \<times> TreeRefSeries) option" where
  "treeSeries_one_dec [] rs = None"
| "treeSeries_one_dec (k # s) rs =
     (if k \<noteq> kSeries then Some (False, rs)
      else do { rs' \<leftarrow> treeSeries_one_loop None [] s rs; Some (True, rs') })"

function treeSamples_loop ::
  "u64 option \<Rightarrow> bytes \<Rightarrow> TreeRefSample \<Rightarrow> TreeRefSample list \<Rightarrow> TreeRefSample list option" where
  "treeSamples_loop tmp s prev v =
     (if s = [] then Some v else do {
       let (tmp1, s1) = read_or GetVarint64 tmp s;
       d_mid \<leftarrow> tmp1;
       let (tmp2, s2) = read_or GetVarint64 tmp1 s1;
       d_sgid \<leftarrow> tmp2;
       let (tmp3, s3) = read_or GetVarint64 tmp2 s2;
       d_t \<leftarrow> tmp3;
       (bits, s4) \<leftarrow> read_fixed64BE s3;
       let (tmp4, s5) = read_or GetVarint64 tmp3 s4;
       d_txn \<leftarrow> tmp4;
       let x = \<lparr>ts_sgid = ts_sgid prev + zigzag_decode d_sgid,
                 ts_mid = ucast (ucast (ts_mid prev) + zigzag_decode d_mid),
                 ts_t = ts_t prev + zigzag_decode d_t,
                 ts_v = decode_double bits,
                 ts_txn = ts_txn prev + zigzag_decode d_txn\<rparr>;
       treeSamples_loop tmp4 s5 x (v @ [x])
     })"
  by pat_completeness auto
termination
  by (relation "measure (\<lambda>(tmp, s, prev, v). length s)") (auto dest!: loop_lengths)

declare treeSamples_loop.simps [simp del]

fun treeSamples_dec :: "bytes \<Rightarrow> TreeRefSample list \<Rightarrow> (bool \<times> TreeRefSample list) option" where
  "treeSamples_dec [] v = None"
| "treeSamples_dec (k # s) v =
     (if k \<noteq> kSample then Some (False, v)
      else do {
        (mid, s1) \<leftarrow> read_fixed16 s;
        (sgid, s2) \<leftarrow> read_fixed64BE s1;
        (t, s3) \<leftarrow> read_fixed64BE s2;
        (bits, s4) \<leftarrow> read_fixed64BE s3;
        (txn, s5) \<leftarrow> read_fixed64BE s4;
        let x = \<lparr>ts_sgid = sgid, ts_mid = mid, ts_t = t, ts_v = decode_double bits, ts_txn = txn\<rparr>;
        v' \<leftarrow> treeSamples_loop None s5 x (v @ [x]);
        Some (True, v')
      })"

text \<open>
  On a flush record the function fills \<open>*f\<close> and then runs off its end without a
  \<open>return\<close>: the outcome has the filled structure but no usable return value.
\<close>

fun treeFlush_dec :: "bytes \<Rightarrow> TreeRefFlush \<Rightarrow> (bool option \<times> TreeRefFlush) option" where
  "treeFlush_dec [] f = None"
| "treeFlush_dec (k # s) f =
     (if k \<noteq> kFlush then Some (Some False, f)
      else do {
        mid \<leftarrow> DecodeFixed16 s;
        sgid \<leftarrow> DecodeFixed64BE (drop 2 s);
        txn \<leftarrow> DecodeFixed64BE (drop 10 s);
        Some (None, f\<lparr>trf_mid := mid, trf_sgid := sgid, trf_txn := txn\<rparr>)
      })"

subsection \<open>Bytes of the labels and their decoding\<close>

definition label_bytes :: "Label \<Rightarrow> bytes" where
  "label_bytes l = slice_bytes (label l) @ slice_bytes (lvalue l)"

definition labels_bytes :: "Labels \<Rightarrow> bytes" where
  "labels_bytes ls = EncodeVarint32 (of_nat (length ls)) @ concat (map label_bytes ls)"

definition labels_ok :: "Labels \<Rightarrow> bool" where
  "labels_ok ls \<longleftrightarrow> length ls < 2 ^ 32
     \<and> list_all (\<lambda>l. length (label l) < 2 ^ 32 \<and> length (lvalue l) < 2 ^ 32) ls"

lemma foldl_append: "(\<And>r x. f r x = r @ g x) \<Longrightarrow> foldl f r xs = r @ concat (map g xs)"
  by (induction xs arbitrary: r) simp_all

lemma put_labels_bytes: "put_labels result ls = result @ labels_bytes ls"
  unfolding put_labels_def labels_bytes_def
  by (subst foldl_append [where g = label_bytes]) (simp_all add: put_defs label_bytes_def)

lemma read_labels_bytes:
  "list_all (\<lambda>l. length (label l) < 2 ^ 32 \<and> length (lvalue l) < 2 ^ 32) ls \<Longrightarrow>
   read_labels (length ls) result (concat (map label_bytes ls) @ s)
     = (ls, if ls = [] then result else lvalue (last ls), s)"
  by (induction ls arbitrary: result) (simp_all add: label_bytes_def GetLengthPrefixedSlice_bytes)

text \<open>The two reads a decoder makes for a label set.\<close>

lemma labels_read [codec_simps]:
  assumes "labels_ok ls"
  shows "read_or GetVarint32 sz (labels_bytes ls @ s)
      = (Some (of_nat (length ls)), concat (map label_bytes ls) @ s)"
    and "read_labels (unat (of_nat (length ls) :: u32)) result (concat (map label_bytes ls) @ s)
      = (ls, if ls = [] then result else lvalue (last ls), s)"
  using assms read_labels_bytes [of ls]
  by (simp_all add: labels_bytes_def labels_ok_def varint32.read_or_enc unat_of_nat_32)

lemma labels_read_nil [codec_simps]:
  assumes "labels_ok ls"
  shows "read_or GetVarint32 sz (labels_bytes ls)
      = (Some (of_nat (length ls)), concat (map label_bytes ls))"
    and "read_labels (unat (of_nat (length ls) :: u32)) result (concat (map label_bytes ls))
      = (ls, if ls = [] then result else lvalue (last ls), [])"
  using labels_read [OF assms, where s="[]"] by simp_all

subsection \<open>Series\<close>

definition series_bytes :: "RefSeries \<Rightarrow> bytes" where
  "series_bytes r = EncodeFixed64BE (rs_ref r) @ EncodeFixed64BE (rs_flushed_txn r)
     @ EncodeFixed64BE (rs_log_clean_txn r) @ labels_bytes (rs_lptr r)"

definition tree_series_bytes :: "TreeRefSeries \<Rightarrow> bytes" where
  "tree_series_bytes r = EncodeFixed16 (ucast (trs_mid r)) @ EncodeFixed64BE (trs_sgid r)
     @ EncodeFixed64BE (trs_flushed_txn r) @ EncodeFixed64BE (trs_log_clean_txn r)
     @ labels_bytes (trs_lptr r)"

text \<open>What a decoded series looks like: the labels it was written with, held by value.\<close>

definition rs_plain :: "RefSeries \<Rightarrow> RefSeries" where
  "rs_plain r = \<lparr>rs_ref = rs_ref r, rs_lset = rs_lptr r, rs_lset_ptr = None,
     rs_flushed_txn = rs_flushed_txn r, rs_log_clean_txn = rs_log_clean_txn r\<rparr>"

definition trs_plain :: "TreeRefSeries \<Rightarrow> TreeRefSeries" where
  "trs_plain r = \<lparr>trs_sgid = trs_sgid r, trs_mid = trs_mid r, trs_lset = trs_lptr r,
     trs_lset_ptr = None, trs_flushed_txn = trs_flushed_txn r,
     trs_log_clean_txn = trs_log_clean_txn r\<rparr>"

lemma put_series_bytes: "put_series result r = result @ series_bytes r"
  by (simp add: put_series_def put_series_head_def put_labels_bytes series_bytes_def put_defs)

lemma put_tree_series_bytes: "put_tree_series result r = result @ tree_series_bytes r"
  by (simp add: put_tree_series_def put_tree_series_head_def put_labels_bytes tree_series_bytes_def
      put_defs)

lemma series_enc_bytes: "series_enc ss result = result @ kSeries # concat (map series_bytes ss)"
  by (simp add: series_enc_def foldl_append [where g = series_bytes, OF put_series_bytes])

lemma treeSeries_enc_bytes:
  "treeSeries_enc ss result = result @ kSeries # concat (map tree_series_bytes ss)"
  by (simp add: treeSeries_enc_def foldl_append [where g = tree_series_bytes, OF put_tree_series_bytes])

lemma EncodeFixed_neq_Nil [simp]: "EncodeFixed64BE v \<noteq> []" "EncodeFixed16 h \<noteq> []"
  by (simp_all add: EncodeFixed64BE_def EncodeFixed16_def)

lemma series_loop_bytes:
  "list_all (\<lambda>r. labels_ok (rs_lptr r)) ss \<Longrightarrow>
   series_loop sz result (concat (map series_bytes ss)) v = Some (v @ map rs_plain ss)"
proof (induction ss arbitrary: sz result v)
  case (Cons r ss)
  then show ?case
    by (subst series_loop.simps)
       (simp add: series_bytes_def [of r] codec_simps rs_plain_def [of r])
qed (simp add: series_loop.simps)

lemma treeSeries_loop_bytes:
  "list_all (\<lambda>r. labels_ok (trs_lptr r)) ss \<Longrightarrow>
   treeSeries_loop sz result (concat (map tree_series_bytes ss)) v = Some (v @ map trs_plain ss)"
proof (induction ss arbitrary: sz result v)
  case (Cons r ss)
  then show ?case
    by (subst treeSeries_loop.simps)
       (simp add: tree_series_bytes_def [of r] codec_simps trs_plain_def [of r])
qed (simp add: treeSeries_loop.simps)

lemma series_one_loop_bytes:
  assumes "labels_ok (rs_lptr r)"
  shows "series_one_loop sz result (series_bytes r) rs
    = Some (rs\<lparr>rs_ref := rs_ref r, rs_flushed_txn := rs_flushed_txn r,
        rs_log_clean_txn := rs_log_clean_txn r, rs_lset := rs_lset rs @ rs_lptr r\<rparr>)"
  using assms
  by (subst series_one_loop.simps)
     (simp add: series_bytes_def codec_simps series_one_loop.simps [where s = "[]"])

lemma treeSeries_one_loop_bytes:
  assumes "labels_ok (trs_lptr r)"
  shows "treeSeries_one_loop sz result (tree_series_bytes r) rs
    = Some (rs\<lparr>trs_mid := trs_mid r, trs_sgid := trs_sgid r, trs_flushed_txn := trs_flushed_txn r,
        trs_log_clean_txn := trs_log_clean_txn r, trs_lset := trs_lset rs @ trs_lptr r\<rparr>)"
  using assms
  by (subst treeSeries_one_loop.simps)
     (simp add: tree_series_bytes_def codec_simps treeSeries_one_loop.simps [where s = "[]"])

subsection \<open>Samples\<close>

lemma RefSample_fields [simp]:
  "\<lparr>sm_ref = sm_ref s, sm_logical_id = sm_logical_id s, sm_t = sm_t s, sm_v = sm_v s, sm_txn = sm_txn s\<rparr> = s"
  by (cases s) simp

lemma TreeRefSample_fields [simp]:
  "\<lparr>ts_sgid = ts_sgid s, ts_mid = ts_mid s, ts_t = ts_t s, ts_v = ts_v s, ts_txn = ts_txn s\<rparr> = s"
  by (cases s) simp

definition sample_bytes :: "RefSample \<Rightarrow> RefSample \<Rightarrow> bytes" where
  "sample_bytes prev s =
     EncodeVarint64 (zigzag_encode (sm_ref s - sm_ref prev))
     @ EncodeVarint64 (zigzag_encode (sm_logical_id s - sm_logical_id prev))
     @ EncodeVarint64 (zigzag_encode (sm_t s - sm_t prev))
     @ EncodeFixed64BE (encode_double (sm_v s))
     @ EncodeVarint64 (zigzag_encode (sm_txn s - sm_txn prev))"

fun samples_rest_bytes :: "RefSample \<Rightarrow> RefSample list \<Rightarrow> bytes" where
  "samples_rest_bytes prev [] = []"
| "samples_rest_bytes prev (s # ss) = sample_bytes prev s @ samples_rest_bytes s ss"

lemma put_samples_rest_bytes:
  "put_samples_rest result prev ss = result @ samples_rest_bytes prev ss"
  by (induction ss arbitrary: result prev)
     (simp_all add: put_sample_next_def sample_bytes_def put_defs)

lemma EncodeVarint64_neq_Nil [simp]: "EncodeVarint64 v \<noteq> []"
  by (simp add: EncodeVarint64_eq)

lemma samples_loop_bytes:
  "samples_loop tmp (samples_rest_bytes prev ss) prev v = Some (v @ ss)"
proof (induction ss arbitrary: tmp prev v)
  case (Cons s ss)
  then show ?case
    by (subst samples_loop.simps)
       (simp add: sample_bytes_def varint64.read_or_enc codec_simps encode_double_def decode_double_def
         Let_def)
qed (simp add: samples_loop.simps)

definition tree_sample_bytes :: "TreeRefSample \<Rightarrow> TreeRefSample \<Rightarrow> bytes" where
  "tree_sample_bytes prev s =
     EncodeVarint64 (zigzag_encode (ucast (ts_mid s) - ucast (ts_mid prev)))
     @ EncodeVarint64 (zigzag_encode (ts_sgid s - ts_sgid prev))
     @ EncodeVarint64 (zigzag_encode (ts_t s - ts_t prev))
     @ EncodeFixed64BE (encode_double (ts_v s))
     @ EncodeVarint64 (zigzag_encode (ts_txn s - ts_txn prev))"

fun tree_samples_rest_bytes :: "TreeRefSample \<Rightarrow> TreeRefSample list \<Rightarrow> bytes" where
  "tree_samples_rest_bytes prev [] = []"
| "tree_samples_rest_bytes prev (s # ss) = tree_sample_bytes prev s @ tree_samples_rest_bytes s ss"

lemma put_tree_samples_rest_bytes:
  "put_tree_samples_rest result prev ss = result @ tree_samples_rest_bytes prev ss"
  by (induction ss arbitrary: result prev)
     (simp_all add: put_tree_sample_next_def tree_sample_bytes_def put_defs)

lemma ucast_16_64_16 [simp]: "ucast (ucast (m :: u16) :: u64) = m"
  by (rule bit_word_eqI) (auto simp: bit_simps)

lemma treeSamples_loop_bytes:
  "treeSamples_loop tmp (tree_samples_rest_bytes prev ss) prev v = Some (v @ ss)"
proof (induction ss arbitrary: tmp prev v)
  case (Cons s ss)
  then show ?case
    by (subst treeSamples_loop.simps)
       (simp add: tree_sample_bytes_def varint64.read_or_enc codec_simps encode_double_def
         decode_double_def Let_def)
qed (simp add: treeSamples_loop.simps)

lemma samples_dec_enc:
  "\<exists>b. samples_enc (x # xs) [] = Some b \<and> samples_dec b v = Some (True, v @ x # xs)"
  by (simp add: put_samples_rest_bytes put_sample_first_def put_defs codec_simps samples_loop_bytes
      encode_double_def decode_double_def)

lemma treeSamples_dec_enc:
  "\<exists>b. treeSamples_enc (x # xs) [] = Some b \<and> treeSamples_dec b v = Some (True, v @ x # xs)"
  by (simp add: put_tree_samples_rest_bytes put_tree_sample_first_def put_defs codec_simps
      treeSamples_loop_bytes encode_double_def decode_double_def)

subsection \<open>Groups\<close>

lemma read_lsets_bytes:
  "list_all labels_ok lss \<Longrightarrow>
   read_lsets (length lss) sz result (concat (map labels_bytes lss) @ s) = Some (lss, s)"
  by (induction lss arbitrary: sz result) (simp_all add: codec_simps)

lemma read_slots_bytes:
  "read_slots (length xs) slot (concat (map EncodeVarint32 xs) @ s) = Some (xs, s)"
  by (induction xs arbitrary: slot) (simp_all add: varint32.read_or_enc)

lemma put_double_list_bytes:
  "foldl (\<lambda>r v. PutFixed64BE r (encode_double v)) result vs = result @ concat (map EncodeFixed64BE vs)"
  by (simp add: foldl_append [where g = EncodeFixed64BE] put_defs encode_double_def)

lemma put_varints_bytes: "foldl PutVarint32 result xs = result @ concat (map EncodeVarint32 xs)"
  by (simp add: foldl_append [where g = EncodeVarint32] put_defs)

lemma put_lsets_bytes: "foldl put_labels result lss = result @ concat (map labels_bytes lss)"
  by (simp add: foldl_append [where g = labels_bytes] put_labels_bytes)

lemma read_doubles:
  "read_n read_fixed64BE (length vs) (concat (map EncodeFixed64BE vs) @ s) = Some (vs, s)"
  using fixed64BE.read_n_enc [of vs s] by (simp add: list_all_iff)

definition group_sample_ok :: "RefGroupSample \<Rightarrow> bool" where
  "group_sample_ok g \<longleftrightarrow> length (gs_v g) < 2 ^ 31
     \<and> (if gs_individual_lsets g = []
        then gs_slots g = [] \<or> length (gs_slots g) = length (gs_v g)
        else gs_slots g = [] \<and> length (gs_individual_lsets g) = length (gs_v g)
             \<and> list_all labels_ok (gs_individual_lsets g))"

lemma slot_count:
  assumes "n < 2 ^ 31"
  shows "drop_bit 31 (of_nat n :: u32) = 0"
    and "unat (of_nat n AND 2147483647 :: u32) = n"
    and "drop_bit 31 (push_bit 31 1 OR of_nat n :: u32) \<noteq> 0"
    and "unat ((push_bit 31 1 OR of_nat n) AND 2147483647 :: u32) = n"
proof -
  have n: "unat (of_nat n :: u32) = n" using assms by (simp add: unat_of_nat_32)
  then have lt: "(of_nat n :: u32) < 2 ^ 31" using assms by (simp add: word_less_nat_alt unat_exp)
  then show z: "drop_bit 31 (of_nat n :: u32) = 0" by (simp add: drop_bit_zero_iff_less)
  have mask: "w AND 2147483647 = take_bit 31 w" for w :: u32
    using take_bit_eq_mask [of 31 w] by (simp add: mask_eq_exp_minus_1)
  have t: "take_bit 31 (of_nat n :: u32) = of_nat n"
    using take_or_push_drop [of 31 "of_nat n :: u32"] z by simp
  then show "unat (of_nat n AND 2147483647 :: u32) = n" using n by (simp only: mask)
  have "take_bit 31 (push_bit 31 1 OR of_nat n :: u32) = take_bit 31 (of_nat n)"
    by (rule bit_word_eqI) (auto simp: bit_simps)
  then show "unat ((push_bit 31 1 OR of_nat n) AND 2147483647 :: u32) = n"
    using n t by (simp only: mask)
  have "bit (push_bit 31 1 OR of_nat n :: u32) 31"
    by (simp only: bit_or_iff bit_push_bit_iff) simp
  then show "drop_bit 31 (push_bit 31 1 OR of_nat n :: u32) \<noteq> 0"
    using drop_bit_zeroD [of 31 "push_bit 31 1 OR of_nat n :: u32" 31] by blast
qed

lemma group_sample_enc_bytes:
  "group_sample_enc g [] =
     kGroupSample # EncodeFixed64BE (gs_ref g)
     @ (if gs_individual_lsets g = [] then
          1 # EncodeVarint32 (if gs_slots g = [] then push_bit 31 1 OR of_nat (length (gs_v g))
                else of_nat (length (gs_slots g)))
            @ concat (map EncodeVarint32 (gs_slots g))
        else 2 # EncodeVarint32 (of_nat (length (gs_individual_lsets g)))
            @ concat (map labels_bytes (gs_individual_lsets g)))
     @ EncodeFixed64BE (gs_t g) @ concat (map EncodeFixed64BE (gs_v g)) @ EncodeFixed64BE (gs_txn g)"
  unfolding group_sample_enc_def put_double_list_bytes put_varints_bytes put_lsets_bytes
  by (simp add: put_defs Let_def)

lemma group_sample_dec_enc:
  assumes "group_sample_ok g" "gs_slots g0 = []" "gs_individual_lsets g0 = []" "gs_v g0 = []"
  shows "group_sample_dec (group_sample_enc g []) g0 = Some (True, g)"
proof -
  have n: "length (gs_v g) < 2 ^ 31" using assms(1) by (simp add: group_sample_ok_def)
  have m: "unat (of_nat (length (gs_v g)) :: u32) = length (gs_v g)"
    using n by (simp add: unat_of_nat_32)
  have tail: "DecodeFixed64BE (EncodeFixed64BE x) = Some x" for x
    using DecodeFixed64BE_Encode [of x "[]"] by simp
  note dec = group_sample_enc_bytes varint32.read_or_enc codec_simps read_doubles tail
    decode_double_def assms(2-4) map_idI slot_count [OF n]
  consider (full) "gs_individual_lsets g = []" "gs_slots g = []"
    | (slots) "gs_individual_lsets g = []" "gs_slots g \<noteq> []" "length (gs_slots g) = length (gs_v g)"
    | (lsets) "gs_individual_lsets g \<noteq> []" "gs_slots g = []" "list_all labels_ok (gs_individual_lsets g)"
        "length (gs_individual_lsets g) = length (gs_v g)"
    using assms(1) by (auto simp: group_sample_ok_def split: if_splits)
  then show ?thesis
  proof cases
    case full
    moreover have "drop_bit 31 (push_bit 31 1 :: u32) \<noteq> 0" by simp
    ultimately show ?thesis by (simp del: push_bit_of_1 add: dec)
  next
    case slots
    then show ?thesis
      using read_slots_bytes [of "gs_slots g"] by (simp add: dec m)
  next
    case lsets
    then show ?thesis
      using read_lsets_bytes [OF lsets(3)] by (simp add: dec m)
  qed
qed


lemma group_dec_enc:
  assumes "labels_ok (rg_group_lset g)" "list_all labels_ok (rg_individual_lsets g)"
    "length (rg_individual_lsets g) < 2 ^ 32" "rg_group_lset g0 = []" "rg_individual_lsets g0 = []"
  shows "group_dec (group_enc g []) g0 = Some (True, g)"
proof -
  have enc: "group_enc g [] = kGroup # EncodeFixed64BE (rg_ref g) @ labels_bytes (rg_group_lset g)
      @ EncodeVarint32 (of_nat (length (rg_individual_lsets g)))
      @ concat (map labels_bytes (rg_individual_lsets g))"
    unfolding group_enc_def put_lsets_bytes by (simp add: put_defs put_labels_bytes)
  show ?thesis
    using assms read_lsets_bytes [OF assms(2), where s = "[]"]
    by (simp add: enc varint32.read_or_enc codec_simps unat_of_nat_32)
qed

lemma series_without_labels_bytes:
  "series_without_labels ref flushed_txn log_clean_txn []
    = kSeries # EncodeFixed64BE ref @ EncodeFixed64BE flushed_txn @ EncodeFixed64BE log_clean_txn"
  by (simp add: series_without_labels_def put_series_head_def put_defs)

lemma series_patched:
  "series_without_labels (rs_ref r) flushed_txn log_clean_txn []
      @ drop (length (series_without_labels (rs_ref r) flushed_txn log_clean_txn [])) (series_one_enc r [])
    = series_one_enc (r\<lparr>rs_flushed_txn := flushed_txn, rs_log_clean_txn := log_clean_txn\<rparr>) []"
proof -
  have "rs_lptr (r\<lparr>rs_flushed_txn := flushed_txn, rs_log_clean_txn := log_clean_txn\<rparr>) = rs_lptr r"
    by (simp add: rs_lptr_def split: option.split)
  then show ?thesis by (simp add: series_without_labels_bytes series_one_enc_def put_series_bytes series_bytes_def)
qed

lemma length_series_patch:
  "length (series_without_labels (rs_ref r) flushed_txn log_clean_txn []) \<le> length (series_one_enc r [])"
  by (simp add: series_without_labels_bytes series_one_enc_def put_series_bytes series_bytes_def)

lemma series_patch_prefix:
  "take (length (series_without_labels (rs_ref r) flushed_txn log_clean_txn [])) (series_one_enc r [])
    = series_without_labels (rs_ref r) (rs_flushed_txn r) (rs_log_clean_txn r) []"
  by (simp add: series_without_labels_bytes series_one_enc_def put_series_bytes series_bytes_def)

lemma tree_series_without_label_bytes:
  "tree_series_without_label mid sgid flushed_txn log_clean_txn []
    = kSeries # EncodeFixed16 (ucast mid) @ EncodeFixed64BE sgid @ EncodeFixed64BE flushed_txn @ EncodeFixed64BE log_clean_txn"
  by (simp add: tree_series_without_label_def put_tree_series_head_def put_defs)

lemma tree_series_patched:
  "tree_series_without_label (trs_mid r) (trs_sgid r) flushed_txn log_clean_txn []
      @ drop (length (tree_series_without_label (trs_mid r) (trs_sgid r) flushed_txn log_clean_txn [])) (treeSeries_one_enc r [])
    = treeSeries_one_enc (r\<lparr>trs_flushed_txn := flushed_txn, trs_log_clean_txn := log_clean_txn\<rparr>) []"
proof -
  have "trs_lptr (r\<lparr>trs_flushed_txn := flushed_txn, trs_log_clean_txn := log_clean_txn\<rparr>) = trs_lptr r"
    by (simp add: trs_lptr_def split: option.split)
  then show ?thesis
    by (simp add: tree_series_without_label_bytes treeSeries_one_enc_def put_tree_series_bytes tree_series_bytes_def)
qed

lemma length_tree_series_patch:
  "length (tree_series_without_label (trs_mid r) (trs_sgid r) flushed_txn log_clean_txn []) \<le> length (treeSeries_one_enc r [])"
  by (simp add: tree_series_without_label_bytes treeSeries_one_enc_def put_tree_series_bytes tree_series_bytes_def)

lemma tree_series_patch_prefix:
  "take (length (tree_series_without_label (trs_mid r) (trs_sgid r) flushed_txn log_clean_txn [])) (treeSeries_one_enc r [])
    = tree_series_without_label (trs_mid r) (trs_sgid r) (trs_flushed_txn r) (trs_log_clean_txn r) []"
  by (simp add: tree_series_without_label_bytes treeSeries_one_enc_def put_tree_series_bytes tree_series_bytes_def)

lemma series_patched_dec:
  assumes "labels_ok (rs_lptr r)" "rs_lset rs = []"
  shows "series_one_dec (series_without_labels (rs_ref r) flushed_txn log_clean_txn []
      @ drop (length (series_without_labels (rs_ref r) flushed_txn log_clean_txn [])) (series_one_enc r [])) rs
    = Some (True, rs\<lparr>rs_ref := rs_ref r, rs_flushed_txn := flushed_txn, rs_log_clean_txn := log_clean_txn, rs_lset := rs_lptr r\<rparr>)"
proof -
  let ?r = "r\<lparr>rs_flushed_txn := flushed_txn, rs_log_clean_txn := log_clean_txn\<rparr>"
  have "rs_lptr ?r = rs_lptr r" by (simp add: rs_lptr_def split: option.split)
  then show ?thesis unfolding series_patched
    using assms series_one_loop_bytes [of ?r None "[]" rs] by (simp add: series_one_enc_def put_series_bytes)
qed

subsection \<open>Properties\<close>

text \<open>
  C13: a log record of tree series decodes, into the vector given, to the series it
  was written from: their ids, their transaction marks and the labels that were
  current when they were written. Label sets have to fit the 32-bit lengths of the format.
\<close>

theorem treeSeries_roundtrip:
  assumes "list_all (\<lambda>r. labels_ok (trs_lptr r)) ss"
  shows "treeSeries_dec (treeSeries_enc ss []) v = Some (True, v @ map trs_plain ss)"
  using treeSeries_loop_bytes [OF assms] by (simp add: treeSeries_enc_bytes)

theorem treeSeries_roundtrip_witness:
  "treeSeries_dec (treeSeries_enc [\<lparr>trs_sgid = 5, trs_mid = 7, trs_lset = [Label [97] [98]],
     trs_lset_ptr = None, trs_flushed_txn = - 1, trs_log_clean_txn = 3\<rparr>] []) []
   = Some (True, [\<lparr>trs_sgid = 5, trs_mid = 7, trs_lset = [Label [97] [98]],
     trs_lset_ptr = None, trs_flushed_txn = - 1, trs_log_clean_txn = 3\<rparr>])"
  using treeSeries_roundtrip [of "[\<lparr>trs_sgid = 5, trs_mid = 7, trs_lset = [Label [97] [98]],
     trs_lset_ptr = None, trs_flushed_txn = - 1, trs_log_clean_txn = 3\<rparr>]" "[]"]
  by (simp add: labels_ok_def trs_lptr_def trs_plain_def)

text \<open>
  C12: a log record of tree samples decodes to the samples it was written from, for
  any ids, timestamps, values and transactions: the delta encoding loses nothing,
  even where a difference overflows.
\<close>

theorem treeSamples_roundtrip:
  assumes "ss \<noteq> []"
  shows "\<exists>b. treeSamples_enc ss [] = Some b \<and> treeSamples_dec b v = Some (True, v @ ss)"
  using assms treeSamples_dec_enc by (cases ss) blast+

theorem treeSamples_roundtrip_witness:
  "\<exists>b. treeSamples_enc [\<lparr>ts_sgid = 1, ts_mid = 65535, ts_t = 10, ts_v = 99, ts_txn = 4\<rparr>,
        \<lparr>ts_sgid = 0, ts_mid = 2, ts_t = - 10, ts_v = 98, ts_txn = 5\<rparr>] [] = Some b
     \<and> treeSamples_dec b [] = Some (True, [\<lparr>ts_sgid = 1, ts_mid = 65535, ts_t = 10, ts_v = 99, ts_txn = 4\<rparr>,
        \<lparr>ts_sgid = 0, ts_mid = 2, ts_t = - 10, ts_v = 98, ts_txn = 5\<rparr>])"
  using treeSamples_roundtrip [of "[\<lparr>ts_sgid = 1, ts_mid = 65535, ts_t = 10, ts_v = 99, ts_txn = 4\<rparr>,
        \<lparr>ts_sgid = 0, ts_mid = 2, ts_t = - 10, ts_v = 98, ts_txn = 5\<rparr>]" "[]"]
  by simp

text \<open>
  C14: the records of the head's own log (series, samples and flush marks) decode to
  what they were written from.
\<close>

theorem head_log_roundtrip:
  assumes "list_all (\<lambda>r. labels_ok (rs_lptr r)) ss" "xs \<noteq> []"
  shows "series_dec (series_enc ss []) v = Some (True, v @ map rs_plain ss)
    \<and> (\<exists>b. samples_enc xs [] = Some b \<and> samples_dec b w = Some (True, w @ xs))
    \<and> flush_dec (flush_enc f []) f0 = Some (True, f)"
proof -
  obtain y ys where xs: "xs = y # ys" using assms(2) by (cases xs) auto
  have "flush_dec (flush_enc f []) f0 = Some (True, f)"
    using DecodeFixed64BE_Encode [of _ "[]"] by (cases f) (simp add: flush_enc_def put_defs codec_simps)
  then show ?thesis
    using series_loop_bytes [OF assms(1)] samples_dec_enc [of y ys w]
    by (simp only: xs) (simp add: series_enc_bytes)
qed

theorem head_log_roundtrip_witness:
  "flush_dec (flush_enc \<lparr>rf_ref = 1, rf_logical_id = 2, rf_txn = 3\<rparr> [])
     \<lparr>rf_ref = 0, rf_logical_id = 0, rf_txn = 0\<rparr> = Some (True, \<lparr>rf_ref = 1, rf_logical_id = 2, rf_txn = 3\<rparr>)
   \<and> series_dec (series_enc [\<lparr>rs_ref = 9, rs_lset = [], rs_lset_ptr = Some [Label [1] [2]],
        rs_flushed_txn = 0, rs_log_clean_txn = 1\<rparr>] []) []
     = Some (True, [\<lparr>rs_ref = 9, rs_lset = [Label [1] [2]], rs_lset_ptr = None,
        rs_flushed_txn = 0, rs_log_clean_txn = 1\<rparr>])"
  using head_log_roundtrip [of "[\<lparr>rs_ref = 9, rs_lset = [], rs_lset_ptr = Some [Label [1] [2]],
        rs_flushed_txn = 0, rs_log_clean_txn = 1\<rparr>]" "[\<lparr>sm_ref = 0, sm_logical_id = 0, sm_t = 0, sm_v = 0, sm_txn = 0\<rparr>]"
        "[]" "[]" "\<lparr>rf_ref = 1, rf_logical_id = 2, rf_txn = 3\<rparr>" "\<lparr>rf_ref = 0, rf_logical_id = 0, rf_txn = 0\<rparr>"]
  by (simp add: labels_ok_def rs_lptr_def rs_plain_def)

text \<open>
  C15: group records and group samples decode to what they were written from, into a
  structure whose vectors start empty, for all three forms of a group sample.
\<close>

theorem group_log_roundtrip:
  assumes "group_sample_ok g" "gs_slots g0 = []" "gs_individual_lsets g0 = []" "gs_v g0 = []"
    and "labels_ok (rg_group_lset h)" "list_all labels_ok (rg_individual_lsets h)"
    and "length (rg_individual_lsets h) < 2 ^ 32" "rg_group_lset h0 = []" "rg_individual_lsets h0 = []"
  shows "group_sample_dec (group_sample_enc g []) g0 = Some (True, g)
    \<and> group_dec (group_enc h []) h0 = Some (True, h)"
  using group_sample_dec_enc group_dec_enc assms by blast

theorem group_log_roundtrip_witness:
  "group_sample_dec (group_sample_enc \<lparr>gs_ref = 1, gs_individual_lsets = [], gs_slots = [4, 2],
       gs_t = 5, gs_v = [6, 7], gs_txn = 8\<rparr> [])
     \<lparr>gs_ref = 0, gs_individual_lsets = [], gs_slots = [], gs_t = 0, gs_v = [], gs_txn = 0\<rparr>
   = Some (True, \<lparr>gs_ref = 1, gs_individual_lsets = [], gs_slots = [4, 2],
       gs_t = 5, gs_v = [6, 7], gs_txn = 8\<rparr>)"
  using group_log_roundtrip [of "\<lparr>gs_ref = 1, gs_individual_lsets = [], gs_slots = [4, 2],
       gs_t = 5, gs_v = [6, 7], gs_txn = 8\<rparr>"
       "\<lparr>gs_ref = 0, gs_individual_lsets = [], gs_slots = [], gs_t = 0, gs_v = [], gs_txn = 0\<rparr>"
       "\<lparr>rg_ref = 0, rg_group_lset = [], rg_individual_lsets = []\<rparr>"
       "\<lparr>rg_ref = 0, rg_group_lset = [], rg_individual_lsets = []\<rparr>"]
  by (simp add: group_sample_ok_def labels_ok_def)

text \<open>
  C16: The record without labels, which the head writes over the start of a stored series
  record to mark it, has exactly the bytes that hold the type, the ids and the two
  transaction marks there: it is no longer than the full record, with the old marks it is
  the prefix it replaces, and with new marks the patched bytes are the full record of the
  series with the new marks. This holds for the series records of the head and of the tree.
\<close>

theorem series_patch_in_place:
  "(let patch = series_without_labels (rs_ref r) flushed_txn log_clean_txn []; stored = series_one_enc r []
    in length patch \<le> length stored
       \<and> take (length patch) stored = series_without_labels (rs_ref r) (rs_flushed_txn r) (rs_log_clean_txn r) []
       \<and> patch @ drop (length patch) stored
           = series_one_enc (r\<lparr>rs_flushed_txn := flushed_txn, rs_log_clean_txn := log_clean_txn\<rparr>) [])
   \<and> (let patch = tree_series_without_label (trs_mid t) (trs_sgid t) flushed_txn log_clean_txn []; stored = treeSeries_one_enc t []
    in length patch \<le> length stored
       \<and> take (length patch) stored
           = tree_series_without_label (trs_mid t) (trs_sgid t) (trs_flushed_txn t) (trs_log_clean_txn t) []
       \<and> patch @ drop (length patch) stored
           = treeSeries_one_enc (t\<lparr>trs_flushed_txn := flushed_txn, trs_log_clean_txn := log_clean_txn\<rparr>) [])"
  unfolding Let_def
  by (intro conjI series_patched tree_series_patched length_series_patch length_tree_series_patch
      series_patch_prefix tree_series_patch_prefix)

end
