(* ===== verification/BitIO.thy ===== *)
theory BitIO
  imports Prelude "HOL-Library.Sublist"
begin

text \<open>
  The contracts of a bit writer and of a bit reader. The writer of the WAL codec
  (\<open>GorillaBitWriter\<close>) and the one of the chunks (\<open>BitStream\<close>) both append single bits,
  the two readers consume single bits from a fixed byte string; the loops that
  write and read a field of several bits, most significant bit first, are proved
  here for every implementation of the contracts.
\<close>

subsection \<open>Bits of bytes\<close>

lemma take_Suc_byte_bits:
  assumes "p < 8" "\<forall>i < 8 - p. \<not> bit c i"
  shows "take (Suc p) (byte_bits (if b then c OR push_bit (7 - p) 1 else c)) = take p (byte_bits c) @ [b]"
proof (rule nth_equalityI)
  fix i
  assume "i < length (take (Suc p) (byte_bits (if b then c OR push_bit (7 - p) 1 else c)))"
  then have i: "i \<le> p" using assms(1) by simp
  have "bit (if b then c OR push_bit (7 - p) 1 else c) (7 - i) = (if i < p then bit c (7 - i) else b)"
    using i assms by (auto simp: bit_simps)
  then show "take (Suc p) (byte_bits (if b then c OR push_bit (7 - p) 1 else c)) ! i
      = (take p (byte_bits c) @ [b]) ! i"
    using i assms(1) by (auto simp: byte_bits_def nth_append nth_msb_bits less_Suc_eq_le)
qed (use assms(1) in simp)

lemma byte_bits_inj: "byte_bits a = byte_bits b \<Longrightarrow> a = b"
proof -
  have "bits_acc 0 (byte_bits c) = c" for c :: u8
    by (simp add: byte_bits_def bits_acc_0_msb_bits take_bit_length_eq)
  then show "byte_bits a = byte_bits b \<Longrightarrow> a = b" by metis
qed

lemma bytes_bits_prefix: "prefix (bytes_bits xs) (bytes_bits ys) \<Longrightarrow> prefix xs ys"
proof (induction xs arbitrary: ys)
  case (Cons x xs)
  then obtain y ys' where ys: "ys = y # ys'"
    by (cases ys) (auto simp: byte_bits_def msb_bits_def)
  with Cons.prems obtain zs where "byte_bits y @ bytes_bits ys' = byte_bits x @ bytes_bits xs @ zs"
    by (auto simp: prefix_def)
  then have "byte_bits y = byte_bits x" "bytes_bits ys' = bytes_bits xs @ zs"
    by (simp_all add: append_eq_append_conv)
  with Cons.IH [of ys'] ys byte_bits_inj [of y x] show ?case by (simp add: prefix_def)
qed simp

subsection \<open>Loops over single bits\<close>

primrec put_bits :: "(bool \<Rightarrow> 'w \<Rightarrow> 'w) \<Rightarrow> u64 \<Rightarrow> nat \<Rightarrow> 'w \<Rightarrow> 'w" where
  "put_bits write_bit v 0 w = w"
| "put_bits write_bit v (Suc i) w = put_bits write_bit v i (write_bit (bit v i) w)"

primrec get_bits :: "('r \<Rightarrow> (bool \<times> 'r) option) \<Rightarrow> nat \<Rightarrow> u64 \<Rightarrow> 'r \<Rightarrow> u64 \<times> 'r" where
  "get_bits read_bit 0 v r = (v, r)"
| "get_bits read_bit (Suc n) v r =
     (case read_bit r of
        None \<Rightarrow> (v, r)
      | Some (b, r') \<Rightarrow> get_bits read_bit n (push_bit 1 v OR of_bool b) r')"

subsection \<open>The contract of a writer\<close>

locale bit_sink =
  fixes write_bit :: "bool \<Rightarrow> 'w \<Rightarrow> 'w"
    and out :: "'w \<Rightarrow> bool list"
    and inv :: "'w \<Rightarrow> bool"
  assumes inv_write_bit: "inv w \<Longrightarrow> inv (write_bit b w)"
    and out_write_bit: "inv w \<Longrightarrow> out (write_bit b w) = out w @ [b]"
begin

lemma inv_put_bits: "inv w \<Longrightarrow> inv (put_bits write_bit v n w)"
  by (induction n arbitrary: w) (simp_all add: inv_write_bit)

lemma out_put_bits: "inv w \<Longrightarrow> out (put_bits write_bit v n w) = out w @ msb_bits n v"
  by (induction n arbitrary: w) (simp_all add: inv_write_bit out_write_bit msb_bits_Suc)

lemma put_bits_add:
  "put_bits write_bit v (m + n) w = put_bits write_bit v n (put_bits write_bit (drop_bit n v) m w)"
  by (induction m arbitrary: w) (simp_all add: bit_drop_bit_eq add.commute)

end

subsection \<open>The contract of a reader\<close>

locale bit_source =
  fixes read_bit :: "'r \<Rightarrow> (bool \<times> 'r) option"
    and src :: "'r \<Rightarrow> bool list"
    and pos :: "'r \<Rightarrow> nat"
    and inv :: "'r \<Rightarrow> bool"
  assumes read_bit_some: "inv r \<Longrightarrow> pos r < length (src r) \<Longrightarrow>
      \<exists>r'. read_bit r = Some (src r ! pos r, r') \<and> inv r' \<and> src r' = src r \<and> pos r' = Suc (pos r)"
    and read_bit_none: "inv r \<Longrightarrow> length (src r) \<le> pos r \<Longrightarrow> read_bit r = None"
begin

lemma get_bits_all:
  "inv r \<Longrightarrow> pos r + n \<le> length (src r) \<Longrightarrow>
   \<exists>r'. get_bits read_bit n v r = (bits_acc v (take n (drop (pos r) (src r))), r')
     \<and> inv r' \<and> src r' = src r \<and> pos r' = pos r + n"
proof (induction n arbitrary: v r)
  case (Suc n)
  then have lt: "pos r < length (src r)" by simp
  from read_bit_some [OF Suc.prems(1) lt] obtain r1 where r1:
    "read_bit r = Some (src r ! pos r, r1)" "inv r1" "src r1 = src r" "pos r1 = Suc (pos r)"
    by blast
  from Suc.IH [OF r1(2), of "push_bit 1 v OR of_bool (src r ! pos r)"] Suc.prems r1 show ?case
    by (simp add: Cons_nth_drop_Suc [OF lt, symmetric])
qed simp

lemma get_bits_prefix:
  assumes "inv r" "prefix (ys @ msb_bits n w) (src r)" "pos r = length ys"
  shows "\<exists>r'. get_bits read_bit n v r = (push_bit n v OR take_bit n w, r')
     \<and> inv r' \<and> src r' = src r \<and> pos r' = length ys + n"
proof -
  from assms(2) obtain zs where src: "src r = ys @ msb_bits n w @ zs" by (auto simp: prefix_def)
  from get_bits_all [OF assms(1), of n v] src assms(3) show ?thesis
    by (simp add: bits_acc_msb_bits)
qed

lemma read_bit_prefix:
  assumes "inv r" "prefix (ys @ [b]) (src r)" "pos r = length ys"
  shows "\<exists>r'. read_bit r = Some (b, r') \<and> inv r' \<and> src r' = src r \<and> pos r' = length ys + 1"
proof -
  from assms(2) obtain zs where src: "src r = ys @ b # zs" by (auto simp: prefix_def)
  from read_bit_some [OF assms(1)] src assms(3) show ?thesis by simp
qed

end

end
