(* ===== verification/Gorilla.thy ===== *)
theory Gorilla
  imports LogRecords BitIO
begin

text \<open>
  The compressed sample records of the write-ahead log: \<open>GorillaBitWriter\<close> and
  \<open>treeSamplesGorilla\<close> of \<open>src/leveldb/db/log_writer.cc\<close>, \<open>GorillaBitReader\<close> and the
  decoder of \<open>src/leveldb/db/log_reader.cc\<close>. The loop variables of the encoder and
  of the decoder are the same and form one record.
\<close>

subsection \<open>The bit writer\<close>

record GorillaBitWriter =
  gw_buf :: bytes
  gw_cur_byte :: u8
  gw_bit_pos :: nat

definition GorillaBitWriter_init :: "bytes \<Rightarrow> GorillaBitWriter" where
  "GorillaBitWriter_init buf = \<lparr>gw_buf = buf, gw_cur_byte = 0, gw_bit_pos = 0\<rparr>"

definition writeBit :: "bool \<Rightarrow> GorillaBitWriter \<Rightarrow> GorillaBitWriter" where
  "writeBit b w =
     (let cur = (if b then gw_cur_byte w OR push_bit (7 - gw_bit_pos w) 1 else gw_cur_byte w);
          bit_pos = Suc (gw_bit_pos w)
      in if bit_pos = 8 then \<lparr>gw_buf = gw_buf w @ [cur], gw_cur_byte = 0, gw_bit_pos = 0\<rparr>
         else w\<lparr>gw_cur_byte := cur, gw_bit_pos := bit_pos\<rparr>)"

definition writeBits :: "u64 \<Rightarrow> nat \<Rightarrow> GorillaBitWriter \<Rightarrow> GorillaBitWriter" where
  "writeBits v num_bits w = put_bits writeBit v num_bits w"

definition flushToByte :: "GorillaBitWriter \<Rightarrow> GorillaBitWriter" where
  "flushToByte w =
     (if 0 < gw_bit_pos w
      then \<lparr>gw_buf = gw_buf w @ [gw_cur_byte w], gw_cur_byte = 0, gw_bit_pos = 0\<rparr> else w)"

definition append_bytes :: "bytes \<Rightarrow> GorillaBitWriter \<Rightarrow> GorillaBitWriter" where
  "append_bytes bs w = w\<lparr>gw_buf := gw_buf w @ bs\<rparr>"

function write_varint_loop :: "u64 \<Rightarrow> GorillaBitWriter \<Rightarrow> GorillaBitWriter" where
  "write_varint_loop v w =
     (let byte = ucast (v AND 127); v' = drop_bit 7 v
      in if v' \<noteq> 0 then write_varint_loop v' (append_bytes [byte OR 128] w)
         else append_bytes [byte] w)"
  by pat_completeness auto
termination
  by (relation "measure (\<lambda>(v, w). unat v)")
     (simp_all add: unat_drop_7_less)

declare write_varint_loop.simps [simp del]

definition writeUnsignedVarint :: "u64 \<Rightarrow> GorillaBitWriter \<Rightarrow> GorillaBitWriter" where
  "writeUnsignedVarint v w = write_varint_loop v (flushToByte w)"

definition writeSignedVarint :: "i64 \<Rightarrow> GorillaBitWriter \<Rightarrow> GorillaBitWriter" where
  "writeSignedVarint v w =
     (let uval = (if sint v < 0 then NOT (push_bit 1 v) else push_bit 1 v)
      in writeUnsignedVarint uval w)"

definition writeFixed64BE :: "u64 \<Rightarrow> GorillaBitWriter \<Rightarrow> GorillaBitWriter" where
  "writeFixed64BE v w = append_bytes (EncodeFixed64BE v) (flushToByte w)"

definition writeFixed16 :: "u16 \<Rightarrow> GorillaBitWriter \<Rightarrow> GorillaBitWriter" where
  "writeFixed16 v w = append_bytes (EncodeFixed16 (ucast v)) (flushToByte w)"

subsection \<open>The encoder\<close>

record GorillaState =
  prev_mid :: u16
  prev_sgid :: u64
  prev_t :: i64
  prev_v :: u64
  prev_txn :: i64
  prev_t_delta :: i64
  prev_txn_delta :: i64
  prev_lz :: nat
  prev_tz :: nat

definition gorilla_start :: "TreeRefSample \<Rightarrow> GorillaState" where
  "gorilla_start s0 =
     \<lparr>prev_mid = ts_mid s0, prev_sgid = ts_sgid s0, prev_t = ts_t s0,
      prev_v = encode_double (ts_v s0), prev_txn = ts_txn s0, prev_t_delta = 0, prev_txn_delta = 0,
      prev_lz = 64, prev_tz = 0\<rparr>"

definition gorilla_first_enc :: "TreeRefSample \<Rightarrow> GorillaBitWriter \<Rightarrow> GorillaBitWriter" where
  "gorilla_first_enc s0 bw =
     writeFixed64BE (ts_txn s0) (writeFixed64BE (encode_double (ts_v s0)) (writeFixed64BE (ts_t s0)
       (writeFixed64BE (ts_sgid s0) (writeFixed16 (ts_mid s0) bw))))"

text \<open>The five fields of a sample, in the order the loop body writes them.\<close>

definition mid_enc :: "TreeRefSample \<Rightarrow> GorillaState \<times> GorillaBitWriter \<Rightarrow> GorillaState \<times> GorillaBitWriter" where
  "mid_enc s = (\<lambda>(st, bw).
     if ts_mid s = prev_mid st then (st, writeBit False bw)
     else (st\<lparr>prev_mid := ts_mid s\<rparr>,
           writeSignedVarint (ucast (ts_mid s) - ucast (prev_mid st)) (writeBit True bw)))"

definition sgid_enc :: "TreeRefSample \<Rightarrow> GorillaState \<times> GorillaBitWriter \<Rightarrow> GorillaState \<times> GorillaBitWriter" where
  "sgid_enc s = (\<lambda>(st, bw).
     if ts_sgid s = prev_sgid st then (st, writeBit False bw)
     else (st\<lparr>prev_sgid := ts_sgid s\<rparr>,
           writeSignedVarint (ts_sgid s - prev_sgid st) (writeBit True bw)))"

definition t_enc :: "TreeRefSample \<Rightarrow> GorillaState \<times> GorillaBitWriter \<Rightarrow> GorillaState \<times> GorillaBitWriter" where
  "t_enc s = (\<lambda>(st, bw).
     let t_delta = ts_t s - prev_t st; dod = t_delta - prev_t_delta st
     in (st\<lparr>prev_t_delta := t_delta, prev_t := ts_t s\<rparr>,
         if dod = 0 then writeBit False bw else writeSignedVarint dod (writeBit True bw)))"

definition v_enc :: "TreeRefSample \<Rightarrow> GorillaState \<times> GorillaBitWriter \<Rightarrow> GorillaState \<times> GorillaBitWriter" where
  "v_enc s = (\<lambda>(st, bw).
     let cur_v = encode_double (ts_v s); xor_val = cur_v XOR prev_v st
     in if xor_val = 0 then (st\<lparr>prev_v := cur_v\<rparr>, writeBit False bw)
        else let bw1 = writeBit True bw; leading_zeros = clzll xor_val; trailing_zeros = ctzll xor_val
          in if leading_zeros \<ge> prev_lz st \<and> trailing_zeros \<ge> prev_tz st then
               (st\<lparr>prev_v := cur_v\<rparr>,
                writeBits (drop_bit (prev_tz st) xor_val) (64 - prev_lz st - prev_tz st)
                  (writeBit False bw1))
             else
               let meaningful_bits = 64 - leading_zeros - trailing_zeros
               in (st\<lparr>prev_v := cur_v, prev_lz := leading_zeros, prev_tz := trailing_zeros\<rparr>,
                   writeBits (drop_bit trailing_zeros xor_val) meaningful_bits
                     (writeBits (of_nat (meaningful_bits - 1)) 6
                       (writeBits (of_nat leading_zeros) 5 (writeBit True bw1)))))"

definition txn_enc :: "TreeRefSample \<Rightarrow> GorillaState \<times> GorillaBitWriter \<Rightarrow> GorillaState \<times> GorillaBitWriter" where
  "txn_enc s = (\<lambda>(st, bw).
     let txn_delta = ts_txn s - prev_txn st
     in (st\<lparr>prev_txn_delta := txn_delta, prev_txn := ts_txn s\<rparr>,
         if txn_delta = prev_txn_delta st then writeBit False bw
         else writeSignedVarint txn_delta (writeBit True bw)))"

definition gorilla_sample_enc ::
  "GorillaState \<times> GorillaBitWriter \<Rightarrow> TreeRefSample \<Rightarrow> GorillaState \<times> GorillaBitWriter" where
  "gorilla_sample_enc stw s = txn_enc s (v_enc s (t_enc s (sgid_enc s (mid_enc s stw))))"

text \<open>The overload on an array and its length, and the one on a vector of pointers.\<close>

definition treeSamplesGorilla_enc :: "TreeRefSample list \<Rightarrow> nat \<Rightarrow> bytes \<Rightarrow> bytes option" where
  "treeSamplesGorilla_enc samples item_num result =
     (if item_num = 0 then Some result
      else if length samples < item_num then None
      else
        let result1 = PutVarint32 (result @ [kSampleGorilla]) (of_nat item_num);
            s0 = hd samples;
            bw = gorilla_first_enc s0 (GorillaBitWriter_init result1)
        in if item_num = 1 then Some (gw_buf (flushToByte bw))
           else Some (gw_buf (flushToByte (snd
                  (foldl gorilla_sample_enc (gorilla_start s0, bw) (take (item_num - 1) (tl samples)))))))"

definition treeSamplesGorilla_vec_enc :: "TreeRefSample list \<Rightarrow> bytes" where
  "treeSamplesGorilla_vec_enc samples =
     (let n = unat (of_nat (length samples) :: u32)
      in if n = 0 then []
         else
           let result = PutVarint32 [kSampleGorilla] (of_nat n);
               s0 = hd samples;
               bw = gorilla_first_enc s0 (GorillaBitWriter_init result)
           in if n = 1 then gw_buf (flushToByte bw)
              else gw_buf (flushToByte (snd (foldl gorilla_sample_enc (gorilla_start s0, bw)
                     (take (n - 1) (tl samples))))))"

subsection \<open>The bit reader\<close>

record GorillaBitReader =
  gr_data :: bytes
  gr_byte_pos :: nat
  gr_bit_pos :: nat

definition GorillaBitReader_init :: "bytes \<Rightarrow> GorillaBitReader" where
  "GorillaBitReader_init data = \<lparr>gr_data = data, gr_byte_pos = 0, gr_bit_pos = 0\<rparr>"

text \<open>\<open>None\<close> is the result -1 at the end of the data; the reader is unchanged then.\<close>

definition readBit :: "GorillaBitReader \<Rightarrow> (bool \<times> GorillaBitReader) option" where
  "readBit r =
     (if length (gr_data r) \<le> gr_byte_pos r then None
      else let b = bit (gr_data r ! gr_byte_pos r) (7 - gr_bit_pos r);
               bit_pos = Suc (gr_bit_pos r)
           in Some (b, if bit_pos = 8 then r\<lparr>gr_bit_pos := 0, gr_byte_pos := Suc (gr_byte_pos r)\<rparr>
                       else r\<lparr>gr_bit_pos := bit_pos\<rparr>))"

definition readBits :: "nat \<Rightarrow> GorillaBitReader \<Rightarrow> u64 \<times> GorillaBitReader" where
  "readBits num_bits r = get_bits readBit num_bits 0 r"

definition skipToByte :: "GorillaBitReader \<Rightarrow> GorillaBitReader" where
  "skipToByte r =
     (if 0 < gr_bit_pos r then r\<lparr>gr_bit_pos := 0, gr_byte_pos := Suc (gr_byte_pos r)\<rparr> else r)"

function read_varint_loop :: "u64 \<Rightarrow> nat \<Rightarrow> GorillaBitReader \<Rightarrow> (u64 \<times> GorillaBitReader) option" where
  "read_varint_loop v shift r =
     (if gr_byte_pos r < length (gr_data r) then
        if 64 \<le> shift then None
        else
          let b = gr_data r ! gr_byte_pos r;
              r' = r\<lparr>gr_byte_pos := Suc (gr_byte_pos r)\<rparr>;
              v' = v OR push_bit shift (ucast (b AND 127))
          in if b AND 128 = 0 then Some (v', r') else read_varint_loop v' (shift + 7) r'
      else Some (v, r))"
  by pat_completeness auto
termination
  by (relation "measure (\<lambda>(v, shift, r). length (gr_data r) - gr_byte_pos r)") auto

declare read_varint_loop.simps [simp del]

definition readUnsignedVarint :: "GorillaBitReader \<Rightarrow> (u64 \<times> GorillaBitReader) option" where
  "readUnsignedVarint r = read_varint_loop 0 0 (skipToByte r)"

definition readSignedVarint :: "GorillaBitReader \<Rightarrow> (i64 \<times> GorillaBitReader) option" where
  "readSignedVarint r =
     do { (uval, r') \<leftarrow> readUnsignedVarint r;
          Some (if uval AND 1 \<noteq> 0 then NOT (drop_bit 1 uval) else drop_bit 1 uval, r') }"

definition readFixed64BE :: "GorillaBitReader \<Rightarrow> (u64 \<times> GorillaBitReader) option" where
  "readFixed64BE r =
     (let r1 = skipToByte r
      in do { val \<leftarrow> DecodeFixed64BE (drop (gr_byte_pos r1) (gr_data r1));
              Some (val, r1\<lparr>gr_byte_pos := gr_byte_pos r1 + 8\<rparr>) })"

definition readFixed16 :: "GorillaBitReader \<Rightarrow> (u16 \<times> GorillaBitReader) option" where
  "readFixed16 r =
     (let r1 = skipToByte r
      in do { val \<leftarrow> DecodeFixed16 (drop (gr_byte_pos r1) (gr_data r1));
              Some (val, r1\<lparr>gr_byte_pos := gr_byte_pos r1 + 2\<rparr>) })"

subsection \<open>The decoder\<close>

text \<open>The test \<open>br.readBit() == 0\<close>; the result -1 at the end of the data fails it.\<close>

definition bit_is_0 :: "GorillaBitReader \<Rightarrow> bool \<times> GorillaBitReader" where
  "bit_is_0 r = (case readBit r of Some (b, r') \<Rightarrow> (\<not> b, r') | None \<Rightarrow> (False, r))"

definition mid_dec :: "GorillaState \<Rightarrow> GorillaBitReader \<Rightarrow> (u16 \<times> GorillaState \<times> GorillaBitReader) option" where
  "mid_dec st br =
     (let (z, br1) = bit_is_0 br
      in if z then Some (prev_mid st, st, br1)
         else do { (d, br2) \<leftarrow> readSignedVarint br1;
                   let mid = ucast (ucast (prev_mid st) + d);
                   Some (mid, st\<lparr>prev_mid := mid\<rparr>, br2) })"

definition sgid_dec :: "GorillaState \<Rightarrow> GorillaBitReader \<Rightarrow> (u64 \<times> GorillaState \<times> GorillaBitReader) option" where
  "sgid_dec st br =
     (let (z, br1) = bit_is_0 br
      in if z then Some (prev_sgid st, st, br1)
         else do { (d, br2) \<leftarrow> readSignedVarint br1;
                   let sgid = prev_sgid st + d;
                   Some (sgid, st\<lparr>prev_sgid := sgid\<rparr>, br2) })"

definition t_dec :: "GorillaState \<Rightarrow> GorillaBitReader \<Rightarrow> (i64 \<times> GorillaState \<times> GorillaBitReader) option" where
  "t_dec st br =
     (let (z, br1) = bit_is_0 br
      in do { (dod, br2) \<leftarrow> (if z then Some (0, br1) else readSignedVarint br1);
              let t = prev_t st + prev_t_delta st + dod;
              Some (t, st\<lparr>prev_t_delta := t - prev_t st, prev_t := t\<rparr>, br2) })"

text \<open>A shift by a negative amount or by 64 or more is undefined.\<close>

definition v_dec :: "GorillaState \<Rightarrow> GorillaBitReader \<Rightarrow> (double \<times> GorillaState \<times> GorillaBitReader) option" where
  "v_dec st br =
     (let (z, br1) = bit_is_0 br
      in do {
        (v, st1, br2) \<leftarrow>
          (if z then Some (decode_double (prev_v st), st, br1)
           else let (z2, br3) = bit_is_0 br1
             in if z2 then
                  let (shifted, br4) = readBits (64 - prev_lz st - prev_tz st) br3
                  in if prev_tz st < 64
                     then Some (decode_double (prev_v st XOR push_bit (prev_tz st) shifted), st, br4)
                     else None
                else
                  let (lz, br4) = readBits 5 br3;
                      (m, br5) = readBits 6 br4;
                      meaningful = unat m + 1;
                      (shifted, br6) = readBits meaningful br5
                  in if unat lz + meaningful \<le> 64 \<and> 64 - unat lz - meaningful < 64 then
                       let tz = 64 - unat lz - meaningful
                       in Some (decode_double (prev_v st XOR push_bit tz shifted),
                            st\<lparr>prev_lz := unat lz, prev_tz := tz\<rparr>, br6)
                     else None);
        Some (v, st1\<lparr>prev_v := encode_double v\<rparr>, br2)
      })"

definition txn_dec :: "GorillaState \<Rightarrow> GorillaBitReader \<Rightarrow> (i64 \<times> GorillaState \<times> GorillaBitReader) option" where
  "txn_dec st br =
     (let (z, br1) = bit_is_0 br
      in do { (txn_delta, br2) \<leftarrow> (if z then Some (prev_txn_delta st, br1) else readSignedVarint br1);
              let txn = prev_txn st + txn_delta;
              Some (txn, st\<lparr>prev_txn_delta := txn_delta, prev_txn := txn\<rparr>, br2) })"

definition gorilla_sample_dec ::
  "GorillaState \<Rightarrow> GorillaBitReader \<Rightarrow> (TreeRefSample \<times> GorillaState \<times> GorillaBitReader) option" where
  "gorilla_sample_dec st0 br0 =
     do {
       (mid, st1, br1) \<leftarrow> mid_dec st0 br0;
       (sgid, st2, br2) \<leftarrow> sgid_dec st1 br1;
       (t, st3, br3) \<leftarrow> t_dec st2 br2;
       (v, st4, br4) \<leftarrow> v_dec st3 br3;
       (txn, st5, br5) \<leftarrow> txn_dec st4 br4;
       Some (\<lparr>ts_sgid = sgid, ts_mid = mid, ts_t = t, ts_v = v, ts_txn = txn\<rparr>, st5, br5)
     }"

fun gorilla_loop_dec :: "nat \<Rightarrow> GorillaState \<Rightarrow> GorillaBitReader \<Rightarrow> TreeRefSample list option" where
  "gorilla_loop_dec 0 st br = Some []"
| "gorilla_loop_dec (Suc n) st br =
     do { (s, st', br') \<leftarrow> gorilla_sample_dec st br;
          ss \<leftarrow> gorilla_loop_dec n st' br';
          Some (s # ss) }"

definition gorilla_first_dec :: "GorillaBitReader \<Rightarrow> (TreeRefSample \<times> GorillaBitReader) option" where
  "gorilla_first_dec br0 =
     do {
       (mid, br1) \<leftarrow> readFixed16 br0;
       (sgid, br2) \<leftarrow> readFixed64BE br1;
       (t, br3) \<leftarrow> readFixed64BE br2;
       (v, br4) \<leftarrow> readFixed64BE br3;
       (txn, br5) \<leftarrow> readFixed64BE br4;
       Some (\<lparr>ts_sgid = sgid, ts_mid = mid, ts_t = t, ts_v = decode_double v, ts_txn = txn\<rparr>, br5)
     }"

definition treeSamplesGorilla_dec ::
  "bytes \<Rightarrow> TreeRefSample list \<Rightarrow> (bool \<times> TreeRefSample list) option" where
  "treeSamplesGorilla_dec s v =
     (case s of
        [] \<Rightarrow> Some (False, v)
      | k # input \<Rightarrow>
          if k \<noteq> kSampleGorilla then Some (False, v)
          else case GetVarint32 input of
            None \<Rightarrow> Some (False, v)
          | Some (total_samples, input') \<Rightarrow>
              if total_samples = 0 then Some (True, [])
              else do {
                (s0, br) \<leftarrow> gorilla_first_dec (GorillaBitReader_init input');
                ss \<leftarrow> gorilla_loop_dec (unat total_samples - 1) (gorilla_start s0) br;
                Some (True, s0 # ss)
              })"

subsection \<open>The bits a writer holds\<close>

definition gw_out :: "GorillaBitWriter \<Rightarrow> bool list" where
  "gw_out w = bytes_bits (gw_buf w) @ take (gw_bit_pos w) (byte_bits (gw_cur_byte w))"

definition gw_inv :: "GorillaBitWriter \<Rightarrow> bool" where
  "gw_inv w \<longleftrightarrow> gw_bit_pos w < 8 \<and> (\<forall>i < 8 - gw_bit_pos w. \<not> bit (gw_cur_byte w) i)"

lemma gw_out_writeBit: "gw_inv w \<Longrightarrow> gw_out (writeBit b w) = gw_out w @ [b]"
  using take_Suc_byte_bits [of "gw_bit_pos w" "gw_cur_byte w" b]
  by (auto simp: gw_inv_def gw_out_def writeBit_def Let_def less_Suc_eq numeral_eq_Suc)

lemma gw_inv_writeBit: "gw_inv w \<Longrightarrow> gw_inv (writeBit b w)"
  by (auto simp: gw_inv_def writeBit_def Let_def bit_simps)

interpretation gorilla_sink: bit_sink writeBit gw_out gw_inv
  by unfold_locales (simp_all add: gw_inv_writeBit gw_out_writeBit)

lemma gw_inv_writeBits: "gw_inv w \<Longrightarrow> gw_inv (writeBits v n w)"
  by (simp add: writeBits_def gorilla_sink.inv_put_bits)

lemma gw_out_writeBits: "gw_inv w \<Longrightarrow> gw_out (writeBits v n w) = gw_out w @ msb_bits n v"
  by (simp add: writeBits_def gorilla_sink.out_put_bits)

lemma length_gw_out: "gw_inv w \<Longrightarrow> length (gw_out w) = 8 * length (gw_buf w) + gw_bit_pos w"
  by (simp add: gw_out_def gw_inv_def)

definition aligned :: "GorillaBitWriter \<Rightarrow> bool" where
  "aligned w \<longleftrightarrow> gw_bit_pos w = 0 \<and> gw_cur_byte w = 0"

lemma aligned_out: "aligned w \<Longrightarrow> gw_out w = bytes_bits (gw_buf w)"
  by (simp add: aligned_def gw_out_def)

lemma aligned_inv: "aligned w \<Longrightarrow> gw_inv w"
  by (simp add: aligned_def gw_inv_def)

lemma aligned_append_bytes [simp]: "aligned (append_bytes bs w) = aligned w"
  by (simp add: aligned_def append_bytes_def)

lemma gw_buf_append_bytes [simp]: "gw_buf (append_bytes bs w) = gw_buf w @ bs"
  by (simp add: append_bytes_def)

lemma flushToByte_aligned:
  assumes "gw_inv w"
  shows "aligned (flushToByte w)"
    and "prefix (gw_out w) (gw_out (flushToByte w))"
    and "length (gw_buf (flushToByte w)) = length (gw_buf w) + (if 0 < gw_bit_pos w then 1 else 0)"
proof -
  have "gw_cur_byte w = 0" if "gw_bit_pos w = 0"
    using assms that by (intro bit_word_eqI) (auto simp: gw_inv_def)
  then show "aligned (flushToByte w)" by (auto simp: aligned_def flushToByte_def)
  show "prefix (gw_out w) (gw_out (flushToByte w))"
    by (auto simp: flushToByte_def gw_out_def take_is_prefix)
  show "length (gw_buf (flushToByte w)) = length (gw_buf w) + (if 0 < gw_bit_pos w then 1 else 0)"
    by (simp add: flushToByte_def)
qed

lemma write_varint_loop_eq: "write_varint_loop v w = append_bytes (encode_unsigned_varint v) w"
proof (induction v w rule: write_varint_loop.induct)
  case (1 v w)
  show ?case
    by (subst write_varint_loop.simps, subst encode_unsigned_varint.simps)
       (use 1 in \<open>auto simp: Let_def append_bytes_def\<close>)
qed

lemma writeSignedVarint_eq:
  "writeSignedVarint v w = append_bytes (encode_signed_varint v) (flushToByte w)"
  by (simp add: writeSignedVarint_def writeUnsignedVarint_def write_varint_loop_eq
      encode_signed_varint_def zigzag_encode_def Let_def)

subsection \<open>A reader that follows a writer\<close>

definition gr_src :: "GorillaBitReader \<Rightarrow> bool list" where
  "gr_src r = bytes_bits (gr_data r)"

definition gr_pos :: "GorillaBitReader \<Rightarrow> nat" where
  "gr_pos r = 8 * gr_byte_pos r + gr_bit_pos r"

definition gr_inv :: "GorillaBitReader \<Rightarrow> bool" where
  "gr_inv r \<longleftrightarrow> gr_bit_pos r < 8"

interpretation gorilla_source: bit_source readBit gr_src gr_pos gr_inv
proof
  fix r assume r: "gr_inv r"
  show "\<exists>r'. readBit r = Some (gr_src r ! gr_pos r, r') \<and> gr_inv r' \<and> gr_src r' = gr_src r
      \<and> gr_pos r' = Suc (gr_pos r)" if "gr_pos r < length (gr_src r)"
    using r that
    by (auto simp: gr_inv_def gr_pos_def gr_src_def readBit_def Let_def nth_bytes_bits)
  show "readBit r = None" if "length (gr_src r) \<le> gr_pos r"
    using r that by (auto simp: gr_inv_def gr_pos_def gr_src_def readBit_def)
qed

text \<open>
  The reader stands where the writer stood; what the writer went on to write is in
  the data.
\<close>

definition follows :: "GorillaBitReader \<Rightarrow> GorillaBitWriter \<Rightarrow> bool" where
  "follows r w \<longleftrightarrow> gw_inv w \<and> gr_inv r \<and> gr_pos r = length (gw_out w)"

definition holds :: "bytes \<Rightarrow> GorillaBitWriter \<Rightarrow> bool" where
  "holds data w \<longleftrightarrow> prefix (gw_out w) (bytes_bits data)"

definition extends :: "GorillaBitWriter \<Rightarrow> GorillaBitWriter \<Rightarrow> bool" where
  "extends w w' \<longleftrightarrow> gw_inv w' \<and> prefix (gw_out w) (gw_out w')"

lemma extends_refl: "gw_inv w \<Longrightarrow> extends w w"
  by (simp add: extends_def)

lemma extends_trans [trans]: "extends w w' \<Longrightarrow> extends w' w'' \<Longrightarrow> extends w w''"
  unfolding extends_def using prefix_order.trans by blast

lemma extends_inv: "extends w w' \<Longrightarrow> gw_inv w'"
  by (simp add: extends_def)

lemma holds_extends: "holds data w' \<Longrightarrow> extends w w' \<Longrightarrow> holds data w"
  unfolding holds_def extends_def using prefix_order.trans by blast

lemma extends_writeBit: "gw_inv w \<Longrightarrow> extends w (writeBit b w)"
  by (simp add: extends_def gw_inv_writeBit gw_out_writeBit)

lemma extends_writeBits: "gw_inv w \<Longrightarrow> extends w (writeBits v n w)"
  by (simp add: extends_def gw_inv_writeBits gw_out_writeBits)

lemma out_append_bytes: "aligned w \<Longrightarrow> gw_out (append_bytes bs w) = gw_out w @ bytes_bits bs"
  by (simp add: aligned_def gw_out_def append_bytes_def)

lemma extends_flushed_bytes:
  assumes "gw_inv w"
  shows "extends w (append_bytes bs (flushToByte w))"
proof -
  note f = flushToByte_aligned [OF assms]
  have "extends w (flushToByte w)" using f by (simp add: extends_def aligned_inv)
  also have "extends (flushToByte w) (append_bytes bs (flushToByte w))"
    using f(1) by (simp add: extends_def aligned_inv out_append_bytes)
  finally show ?thesis .
qed

lemma extends_writeSignedVarint: "gw_inv w \<Longrightarrow> extends w (writeSignedVarint v w)"
  by (simp add: writeSignedVarint_eq extends_flushed_bytes)

lemma follow_bit:
  assumes "follows r w" "holds (gr_data r) (writeBit b w)"
  shows "\<exists>r'. readBit r = Some (b, r') \<and> follows r' (writeBit b w) \<and> gr_data r' = gr_data r"
proof -
  have w: "gw_inv w" and r: "gr_inv r" "gr_pos r = length (gw_out w)"
    using assms(1) by (auto simp: follows_def)
  have "prefix (gw_out w @ [b]) (gr_src r)"
    using assms(2) w by (simp add: holds_def gr_src_def gw_out_writeBit)
  from gorilla_source.read_bit_prefix [OF r(1) this r(2)] obtain r' where r':
    "readBit r = Some (b, r')" "gr_inv r'" "gr_pos r' = length (gw_out w) + 1" by blast
  then have "gr_data r' = gr_data r" by (auto simp: readBit_def Let_def split: if_splits)
  with r' w show ?thesis
    by (auto simp: follows_def gw_inv_writeBit gw_out_writeBit)
qed

lemma get_bits_data:
  "get_bits readBit n v r = (x, r') \<Longrightarrow> gr_data r' = gr_data r"
  by (induction n arbitrary: v r)
     (auto simp: readBit_def Let_def split: if_splits option.splits)

lemma follow_bits:
  assumes "follows r w" "holds (gr_data r) (writeBits v n w)"
  shows "\<exists>r'. readBits n r = (take_bit n v, r') \<and> follows r' (writeBits v n w) \<and> gr_data r' = gr_data r"
proof -
  have w: "gw_inv w" and r: "gr_inv r" "gr_pos r = length (gw_out w)"
    using assms(1) by (auto simp: follows_def)
  have "prefix (gw_out w @ msb_bits n v) (gr_src r)"
    using assms(2) w by (simp add: holds_def gr_src_def gw_out_writeBits)
  from gorilla_source.get_bits_prefix [OF r(1) this r(2), of 0] obtain r' where r':
    "readBits n r = (take_bit n v, r')" "gr_inv r'" "gr_pos r' = length (gw_out w) + n"
    by (auto simp: readBits_def)
  then have "gr_data r' = gr_data r" by (auto simp: readBits_def dest: get_bits_data)
  with r' w show ?thesis
    by (auto simp: follows_def gw_inv_writeBits gw_out_writeBits)
qed

lemma follow_flushed:
  assumes "follows r w" "holds (gr_data r) (append_bytes bs (flushToByte w))"
  shows "\<exists>rest. drop (gr_byte_pos (skipToByte r)) (gr_data r) = bs @ rest
      \<and> gr_byte_pos (skipToByte r) = length (gw_buf (flushToByte w))
      \<and> gr_bit_pos (skipToByte r) = 0 \<and> gr_data (skipToByte r) = gr_data r"
proof -
  have w: "gw_inv w" using assms(1) by (simp add: follows_def)
  have "8 * gr_byte_pos r + gr_bit_pos r = 8 * length (gw_buf w) + gw_bit_pos w"
    "gr_bit_pos r < 8" "gw_bit_pos w < 8"
    using assms(1) w length_gw_out [OF w] by (auto simp: follows_def gr_pos_def gr_inv_def gw_inv_def)
  then have pos: "gr_byte_pos r = length (gw_buf w)" "gr_bit_pos r = gw_bit_pos w" by presburger+
  have "prefix (gw_buf (flushToByte w) @ bs) (gr_data r)"
    using assms(2) flushToByte_aligned(1) [OF w]
    by (intro bytes_bits_prefix) (simp add: holds_def out_append_bytes aligned_out)
  with pos flushToByte_aligned(3) [OF w] show ?thesis
    by (auto simp: prefix_def skipToByte_def)
qed

lemma drop_Cons_nth: "drop n xs = y # ys \<Longrightarrow> n < length xs \<and> xs ! n = y \<and> drop (Suc n) xs = ys"
  by (metis drop_Suc list.sel(3) nth_via_drop drop_eq_Nil not_less list.distinct(1) tl_drop)

lemma read_varint_loop_encode:
  "drop (gr_byte_pos r) (gr_data r) = encode_unsigned_varint v @ rest \<Longrightarrow> shift < 64 \<Longrightarrow>
   drop_bit (64 - shift) v = 0 \<Longrightarrow>
   read_varint_loop acc shift r
     = Some (acc OR push_bit shift v, r\<lparr>gr_byte_pos := gr_byte_pos r + length (encode_unsigned_varint v)\<rparr>)"
proof (induction v arbitrary: r acc shift rule: encode_unsigned_varint.induct)
  case (1 v)
  have split: "push_bit shift v = push_bit shift (take_bit 7 v) OR push_bit (shift + 7) (drop_bit 7 v)"
    by (subst take_or_push_drop [of 7 v, symmetric]) (simp add: push_bit_or)
  show ?case
  proof (cases "drop_bit 7 v = 0")
    case True
    then have enc: "encode_unsigned_varint v = [ucast (v AND 127)]"
      by (simp add: encode_unsigned_varint.simps [of v])
    from "1.prems"(1) enc have
      "gr_byte_pos r < length (gr_data r)" "gr_data r ! gr_byte_pos r = ucast (v AND 127)"
      by (auto dest: drop_Cons_nth)
    with True enc split "1.prems"(2) show ?thesis
      by (subst read_varint_loop.simps) (simp add: byte_simps [unfolded not_not] Let_def)
  next
    case False
    then have enc: "encode_unsigned_varint v
        = (ucast (v AND 127) OR 128) # encode_unsigned_varint (drop_bit 7 v)"
      by (simp add: encode_unsigned_varint.simps [of v])
    let ?r = "r\<lparr>gr_byte_pos := Suc (gr_byte_pos r)\<rparr>"
    from "1.prems"(1) enc have at:
      "gr_byte_pos r < length (gr_data r)" "gr_data r ! gr_byte_pos r = ucast (v AND 127) OR 128"
      and tail: "drop (gr_byte_pos ?r) (gr_data ?r) = encode_unsigned_varint (drop_bit 7 v) @ rest"
      by (auto dest: drop_Cons_nth)
    note fits = varint_step_fits [OF "1.prems"(2,3) False]
    from "1.IH" [OF refl refl False tail fits] at "1.prems"(2) enc split show ?thesis
      by (subst read_varint_loop.simps) (simp add: byte_simps [unfolded not_not] Let_def or.assoc)
  qed
qed

lemma follows_after_bytes:
  assumes "follows r w" "holds (gr_data r) (append_bytes bs (flushToByte w))"
  shows "follows ((skipToByte r)\<lparr>gr_byte_pos := gr_byte_pos (skipToByte r) + length bs\<rparr>)
    (append_bytes bs (flushToByte w))"
proof -
  from follow_flushed [OF assms] have
    "gr_byte_pos (skipToByte r) = length (gw_buf (flushToByte w))" "gr_bit_pos (skipToByte r) = 0"
    by auto
  moreover have "aligned (flushToByte w)"
    using assms(1) flushToByte_aligned(1) by (simp add: follows_def)
  ultimately show ?thesis
    by (simp add: follows_def aligned_inv gr_inv_def gr_pos_def out_append_bytes aligned_out)
qed

lemma follow_varint:
  assumes "follows r w" "holds (gr_data r) (writeSignedVarint v w)"
  shows "\<exists>r'. readSignedVarint r = Some (v, r') \<and> follows r' (writeSignedVarint v w)
    \<and> gr_data r' = gr_data r"
proof -
  note h = assms(2) [unfolded writeSignedVarint_eq]
  from follow_flushed [OF assms(1) h] obtain rest where
    "drop (gr_byte_pos (skipToByte r)) (gr_data (skipToByte r)) = encode_unsigned_varint (zigzag_encode v) @ rest"
    "gr_data (skipToByte r) = gr_data r"
    by (auto simp: encode_signed_varint_def)
  with read_varint_loop_encode [OF this(1), of 0 0] follows_after_bytes [OF assms(1) h]
    zigzag_decode_encode [of v]
  show ?thesis
    by (simp add: readSignedVarint_def readUnsignedVarint_def writeSignedVarint_eq
        encode_signed_varint_def zigzag_decode_def)
qed

lemma follow_fixed64BE:
  assumes "follows r w" "holds (gr_data r) (writeFixed64BE v w)"
  shows "\<exists>r'. readFixed64BE r = Some (v, r') \<and> follows r' (writeFixed64BE v w) \<and> gr_data r' = gr_data r"
proof -
  note h = assms(2) [unfolded writeFixed64BE_def]
  from follow_flushed [OF assms(1) h] obtain rest where
    "drop (gr_byte_pos (skipToByte r)) (gr_data r) = EncodeFixed64BE v @ rest"
    "gr_data (skipToByte r) = gr_data r" by auto
  with follows_after_bytes [OF assms(1) h] show ?thesis
    by (simp add: readFixed64BE_def writeFixed64BE_def codec_simps Let_def)
qed

lemma follow_fixed16:
  assumes "follows r w" "holds (gr_data r) (writeFixed16 v w)"
  shows "\<exists>r'. readFixed16 r = Some (v, r') \<and> follows r' (writeFixed16 v w) \<and> gr_data r' = gr_data r"
proof -
  note h = assms(2) [unfolded writeFixed16_def]
  from follow_flushed [OF assms(1) h] obtain rest where
    "drop (gr_byte_pos (skipToByte r)) (gr_data r) = EncodeFixed16 (ucast v) @ rest"
    "gr_data (skipToByte r) = gr_data r" by auto
  with follows_after_bytes [OF assms(1) h] show ?thesis
    by (simp add: readFixed16_def writeFixed16_def codec_simps Let_def)
qed

lemma follow_zero_test:
  assumes "follows r w" "holds (gr_data r) (writeBit b w)"
  shows "\<exists>r'. bit_is_0 r = (\<not> b, r') \<and> follows r' (writeBit b w) \<and> gr_data r' = gr_data r"
  using follow_bit [OF assms] by (auto simp: bit_is_0_def)

lemma follows_inv: "follows r w \<Longrightarrow> gw_inv w"
  by (simp add: follows_def)

text \<open>A field that is one flag, followed by a signed varint when the flag is set.\<close>

lemma extends_flag_varint:
  "gw_inv w \<Longrightarrow> extends w (writeSignedVarint d (writeBit True w))"
  using extends_trans [OF extends_writeBit extends_writeSignedVarint] gw_inv_writeBit by blast

lemma follow_flag_varint:
  assumes "follows r w" "holds (gr_data r) (writeSignedVarint d (writeBit True w))"
  shows "\<exists>r1 r2. bit_is_0 r = (False, r1) \<and> readSignedVarint r1 = Some (d, r2)
    \<and> follows r2 (writeSignedVarint d (writeBit True w)) \<and> gr_data r2 = gr_data r"
proof -
  have "holds (gr_data r) (writeBit True w)"
    using assms holds_extends extends_writeSignedVarint gw_inv_writeBit follows_inv by blast
  from follow_zero_test [OF assms(1) this] obtain r1 where
    r1: "bit_is_0 r = (False, r1)" "follows r1 (writeBit True w)" "gr_data r1 = gr_data r" by auto
  with follow_varint [OF r1(2), of d] assms(2) show ?thesis by auto
qed

lemma extends_mid: "gw_inv w \<Longrightarrow> mid_enc s (st, w) = (st', w') \<Longrightarrow> extends w w'"
  by (auto simp: mid_enc_def extends_writeBit extends_flag_varint split: if_splits)

lemma follow_mid:
  assumes "follows r w" "mid_enc s (st, w) = (st', w')" "holds (gr_data r) w'"
  shows "\<exists>r'. mid_dec st r = Some (ts_mid s, st', r') \<and> follows r' w' \<and> gr_data r' = gr_data r"
  using assms follow_zero_test [of r w False]
    follow_flag_varint [of r w "ucast (ts_mid s) - ucast (prev_mid st)"]
  by (fastforce simp: mid_enc_def mid_dec_def split: if_splits)

lemma extends_sgid: "gw_inv w \<Longrightarrow> sgid_enc s (st, w) = (st', w') \<Longrightarrow> extends w w'"
  by (auto simp: sgid_enc_def extends_writeBit extends_flag_varint split: if_splits)

lemma follow_sgid:
  assumes "follows r w" "sgid_enc s (st, w) = (st', w')" "holds (gr_data r) w'"
  shows "\<exists>r'. sgid_dec st r = Some (ts_sgid s, st', r') \<and> follows r' w' \<and> gr_data r' = gr_data r"
  using assms follow_zero_test [of r w False]
    follow_flag_varint [of r w "ts_sgid s - prev_sgid st"]
  by (fastforce simp: sgid_enc_def sgid_dec_def split: if_splits)

lemma extends_t: "gw_inv w \<Longrightarrow> t_enc s (st, w) = (st', w') \<Longrightarrow> extends w w'"
  by (auto simp: t_enc_def Let_def extends_writeBit extends_flag_varint split: if_splits)

lemma follow_t:
  assumes "follows r w" "t_enc s (st, w) = (st', w')" "holds (gr_data r) w'"
  shows "\<exists>r'. t_dec st r = Some (ts_t s, st', r') \<and> follows r' w' \<and> gr_data r' = gr_data r"
  using assms follow_zero_test [of r w False]
    follow_flag_varint [of r w "ts_t s - prev_t st - prev_t_delta st"]
  by (fastforce simp: t_enc_def t_dec_def Let_def algebra_simps split: if_splits)

lemma extends_txn: "gw_inv w \<Longrightarrow> txn_enc s (st, w) = (st', w') \<Longrightarrow> extends w w'"
  by (auto simp: txn_enc_def Let_def extends_writeBit extends_flag_varint split: if_splits)

lemma follow_txn:
  assumes "follows r w" "txn_enc s (st, w) = (st', w')" "holds (gr_data r) w'"
  shows "\<exists>r'. txn_dec st r = Some (ts_txn s, st', r') \<and> follows r' w' \<and> gr_data r' = gr_data r"
proof (cases "ts_txn s - prev_txn st = prev_txn_delta st")
  case True
  then have "ts_txn s = prev_txn st + prev_txn_delta st" by (simp add: algebra_simps)
  with True assms follow_zero_test [of r w False] show ?thesis
    by (fastforce simp: txn_enc_def txn_dec_def Let_def)
next
  case False
  with assms follow_flag_varint [of r w "ts_txn s - prev_txn st"] show ?thesis
    by (fastforce simp: txn_enc_def txn_dec_def Let_def)
qed

text \<open>
  The window of the value encoding fits the five bits of its header: no window is
  set yet, or it has fewer than 32 leading zeros. The encoder does not enforce it.
\<close>

definition window_ok :: "GorillaState \<Rightarrow> bool" where
  "window_ok st \<longleftrightarrow> prev_lz st = 64 \<and> prev_tz st = 0 \<or> prev_lz st < 32 \<and> prev_lz st + prev_tz st < 64"

definition step_ok :: "u64 \<Rightarrow> u64 \<Rightarrow> bool" where
  "step_ok a b \<longleftrightarrow> a XOR b = 0 \<or> clzll (a XOR b) < 32"

abbreviation (input) window_bits :: "u64 \<Rightarrow> nat \<Rightarrow> GorillaBitWriter \<Rightarrow> GorillaBitWriter" where
  "window_bits y n w \<equiv> writeBits y n (writeBit False (writeBit True w))"

abbreviation (input) fresh_bits :: "u64 \<Rightarrow> nat \<Rightarrow> nat \<Rightarrow> GorillaBitWriter \<Rightarrow> GorillaBitWriter" where
  "fresh_bits y n lz w \<equiv>
     writeBits y n (writeBits (of_nat (n - 1)) 6 (writeBits (of_nat lz) 5 (writeBit True (writeBit True w))))"

lemma extends_window_bits: "gw_inv w \<Longrightarrow> extends w (window_bits y n w)"
  by (meson extends_trans extends_writeBit extends_writeBits gw_inv_writeBit)

lemma extends_fresh_bits: "gw_inv w \<Longrightarrow> extends w (fresh_bits y n lz w)"
  by (meson extends_trans extends_writeBit extends_writeBits gw_inv_writeBit gw_inv_writeBits)

lemma follow_window_bits:
  assumes "follows r w" "holds (gr_data r) (window_bits y n w)"
  shows "\<exists>r1 r2 r3. bit_is_0 r = (False, r1) \<and> bit_is_0 r1 = (True, r2) \<and> readBits n r2 = (take_bit n y, r3)
    \<and> follows r3 (window_bits y n w) \<and> gr_data r3 = gr_data r"
proof -
  let ?w1 = "writeBit True w" and ?w2 = "writeBit False (writeBit True w)"
  have inv: "gw_inv w" "gw_inv ?w1" "gw_inv ?w2"
    using follows_inv [OF assms(1)] by (simp_all add: gw_inv_writeBit)
  note h2 = holds_extends [OF assms(2) extends_writeBits [OF inv(3)]]
  note h1 = holds_extends [OF h2 extends_writeBit [OF inv(2)]]
  from follow_zero_test [OF assms(1) h1]
  obtain r1 where r1: "bit_is_0 r = (False, r1)" "follows r1 ?w1" "gr_data r1 = gr_data r" by auto
  with follow_zero_test [OF r1(2), of False] h2
  obtain r2 where r2: "bit_is_0 r1 = (True, r2)" "follows r2 ?w2" "gr_data r2 = gr_data r" by auto
  with follow_bits [OF r2(2), of y n] assms(2) r1 show ?thesis by auto
qed

lemma follow_fresh_bits:
  assumes "follows r w" "holds (gr_data r) (fresh_bits y n lz w)"
  shows "\<exists>r1 r2 r3 r4 r5. bit_is_0 r = (False, r1) \<and> bit_is_0 r1 = (False, r2)
    \<and> readBits 5 r2 = (take_bit 5 (of_nat lz), r3) \<and> readBits 6 r3 = (take_bit 6 (of_nat (n - 1)), r4)
    \<and> readBits n r4 = (take_bit n y, r5) \<and> follows r5 (fresh_bits y n lz w) \<and> gr_data r5 = gr_data r"
proof -
  let ?w1 = "writeBit True w" and ?w2 = "writeBit True (writeBit True w)"
  let ?w3 = "writeBits (of_nat lz) 5 ?w2" let ?w4 = "writeBits (of_nat (n - 1)) 6 ?w3"
  have inv: "gw_inv w" "gw_inv ?w1" "gw_inv ?w2" "gw_inv ?w3" "gw_inv ?w4"
    using follows_inv [OF assms(1)] by (simp_all add: gw_inv_writeBit gw_inv_writeBits)
  note h4 = holds_extends [OF assms(2) extends_writeBits [OF inv(5)]]
  note h3 = holds_extends [OF h4 extends_writeBits [OF inv(4)]]
  note h2 = holds_extends [OF h3 extends_writeBits [OF inv(3)]]
  note h1 = holds_extends [OF h2 extends_writeBit [OF inv(2)]]
  from follow_zero_test [OF assms(1) h1]
  obtain r1 where r1: "bit_is_0 r = (False, r1)" "follows r1 ?w1" "gr_data r1 = gr_data r" by auto
  with follow_zero_test [OF r1(2), of True] h2
  obtain r2 where r2: "bit_is_0 r1 = (False, r2)" "follows r2 ?w2" "gr_data r2 = gr_data r" by auto
  with follow_bits [OF r2(2), of "of_nat lz" 5] h3
  obtain r3 where r3: "readBits 5 r2 = (take_bit 5 (of_nat lz), r3)" "follows r3 ?w3"
    "gr_data r3 = gr_data r" by auto
  with follow_bits [OF r3(2), of "of_nat (n - 1)" 6] h4
  obtain r4 where r4: "readBits 6 r3 = (take_bit 6 (of_nat (n - 1)), r4)" "follows r4 ?w4"
    "gr_data r4 = gr_data r" by auto
  with follow_bits [OF r4(2), of y n] assms(2) r1 r2 r3 show ?thesis by auto
qed

lemma v_enc_cases:
  defines "x \<equiv> \<lambda>s st. ts_v s XOR prev_v st"
  shows "x s st = 0 \<Longrightarrow> v_enc s (st, w) = (st\<lparr>prev_v := ts_v s\<rparr>, writeBit False w)"
    and "x s st \<noteq> 0 \<Longrightarrow> prev_lz st \<le> clzll (x s st) \<Longrightarrow> prev_tz st \<le> ctzll (x s st) \<Longrightarrow>
      v_enc s (st, w) = (st\<lparr>prev_v := ts_v s\<rparr>,
        window_bits (drop_bit (prev_tz st) (x s st)) (64 - prev_lz st - prev_tz st) w)"
    and "x s st \<noteq> 0 \<Longrightarrow> \<not> (prev_lz st \<le> clzll (x s st) \<and> prev_tz st \<le> ctzll (x s st)) \<Longrightarrow>
      v_enc s (st, w) =
        (st\<lparr>prev_v := ts_v s, prev_lz := clzll (x s st), prev_tz := ctzll (x s st)\<rparr>,
         fresh_bits (drop_bit (ctzll (x s st)) (x s st)) (64 - clzll (x s st) - ctzll (x s st)) (clzll (x s st)) w)"
  by (auto simp: v_enc_def Let_def encode_double_def x_def)

lemma window_header:
  assumes "lz < 32" "0 < n" "n \<le> 64"
  shows "unat (take_bit 5 (of_nat lz :: u64)) = lz" "unat (take_bit 6 (of_nat (n - 1) :: u64)) + 1 = n"
proof -
  have *: "unat (take_bit k (of_nat m :: u64)) = m" if "m < 2 ^ k" "k \<le> 6" for m k
  proof -
    have "(2::nat) ^ k \<le> 2 ^ 6" using that(2) by (intro power_increasing) simp_all
    with that show ?thesis
      by (simp add: unsigned_take_bit_eq unsigned_of_nat take_bit_nat_eq_self_iff)
  qed
  show "unat (take_bit 5 (of_nat lz :: u64)) = lz" using *[of lz 5] assms by simp
  show "unat (take_bit 6 (of_nat (n - 1) :: u64)) + 1 = n" using *[of "n - 1" 6] assms by simp
qed

lemma follow_v_fresh:
  assumes r: "follows r w" and x: "x \<noteq> 0" "clzll x < 32"
    and h: "holds (gr_data r) (fresh_bits (drop_bit (ctzll x) x) (64 - clzll x - ctzll x) (clzll x) w)"
  shows "\<exists>r'. v_dec st r = Some (prev_v st XOR x,
        st\<lparr>prev_v := prev_v st XOR x, prev_lz := clzll x, prev_tz := ctzll x\<rparr>, r')
    \<and> follows r' (fresh_bits (drop_bit (ctzll x) x) (64 - clzll x - ctzll x) (clzll x) w)
    \<and> gr_data r' = gr_data r"
proof -
  let ?n = "64 - clzll x - ctzll x"
  have n: "0 < ?n" "?n \<le> 64" "clzll x + ?n \<le> 64" "64 - clzll x - ?n = ctzll x" "ctzll x < 64"
    using clzll_ctzll_less [OF x(1)] by simp_all
  note hdr = window_header [OF x(2) n(1,2)]
  from follow_fresh_bits [OF r h] obtain r1 r2 r3 r4 r5 where steps:
    "bit_is_0 r = (False, r1)" "bit_is_0 r1 = (False, r2)"
    "readBits 5 r2 = (take_bit 5 (of_nat (clzll x)), r3)"
    "readBits 6 r3 = (take_bit 6 (of_nat (?n - 1)), r4)"
    "readBits ?n r4 = (take_bit ?n (drop_bit (ctzll x) x), r5)"
    "follows r5 (fresh_bits (drop_bit (ctzll x) x) ?n (clzll x) w)" "gr_data r5 = gr_data r"
    by blast
  have "push_bit (ctzll x) (take_bit ?n (drop_bit (ctzll x) x)) = x" by (rule window_exact) simp_all
  then show ?thesis
    unfolding v_dec_def Let_def steps(1,2,3,4) prod.case hdr steps(5) using n steps(6,7)
    by (simp add: encode_double_def decode_double_def)
qed

lemma extends_v:
  assumes "gw_inv w" "v_enc s (st, w) = (st', w')"
  shows "extends w w'"
proof -
  have "w' = snd (v_enc s (st, w))" using assms(2) by simp
  then show ?thesis
    using extends_writeBit [OF assms(1)] extends_window_bits [OF assms(1)] extends_fresh_bits [OF assms(1)]
    by (simp only: v_enc_def Let_def prod.case snd_conv if_distrib [of snd] split: if_split) blast
qed

lemma follow_v:
  assumes "follows r w" "v_enc s (st, w) = (st', w')" "holds (gr_data r) w'"
    and "window_ok st" "step_ok (ts_v s) (prev_v st)"
  shows "window_ok st' \<and> (\<exists>r'. v_dec st r = Some (ts_v s, st', r') \<and> follows r' w' \<and> gr_data r' = gr_data r)"
proof -
  define x where "x = ts_v s XOR prev_v st"
  have v: "prev_v st XOR x = ts_v s" by (simp add: x_def xor.commute xor.assoc)
  note enc = assms(2) v_enc_cases [of s st w, folded x_def]
  consider (same) "x = 0"
    | (window) "x \<noteq> 0" "prev_lz st \<le> clzll x" "prev_tz st \<le> ctzll x"
    | (fresh) "x \<noteq> 0" "\<not> (prev_lz st \<le> clzll x \<and> prev_tz st \<le> ctzll x)"
    by blast
  then show ?thesis
  proof cases
    case same
    then have "prev_v st = ts_v s" using v by simp
    then show ?thesis
      using same enc(1,2) assms(1,3,4) follow_zero_test [of r w False]
      by (auto simp: v_dec_def window_ok_def encode_double_def decode_double_def)
  next
    case window
    have "prev_tz st < 64" using assms(4) by (auto simp: window_ok_def)
    with window enc(1,3) assms(1,3,4) window_exact [OF window(2,3)] v show ?thesis
      using follow_window_bits [of r w "drop_bit (prev_tz st) x" "64 - prev_lz st - prev_tz st"]
      by (fastforce simp: v_dec_def window_ok_def encode_double_def decode_double_def)
  next
    case fresh
    have lz: "clzll x < 32" using assms(5) fresh(1) by (simp add: step_ok_def x_def)
    let ?w = "fresh_bits (drop_bit (ctzll x) x) (64 - clzll x - ctzll x) (clzll x) w"
    have st': "st' = st\<lparr>prev_v := ts_v s, prev_lz := clzll x, prev_tz := ctzll x\<rparr>" and w': "w' = ?w"
      using enc(1) enc(4) [OF fresh] by simp_all
    have "window_ok st'" using lz clzll_ctzll_less [OF fresh(1)] by (simp add: st' window_ok_def)
    with follow_v_fresh [OF assms(1) fresh(1) lz, of st] assms(3) show ?thesis
      unfolding w' st' v by blast
  qed
qed

text \<open>One sample.\<close>

lemma window_kept:
  "mid_enc s (st, w) = (st', w') \<Longrightarrow> prev_v st' = prev_v st \<and> window_ok st' = window_ok st"
  "sgid_enc s (st, w) = (st', w') \<Longrightarrow> prev_v st' = prev_v st \<and> window_ok st' = window_ok st"
  "t_enc s (st, w) = (st', w') \<Longrightarrow> prev_v st' = prev_v st \<and> window_ok st' = window_ok st"
  "txn_enc s (st, w) = (st', w') \<Longrightarrow> prev_v st' = prev_v st \<and> window_ok st' = window_ok st"
  by (auto simp: mid_enc_def sgid_enc_def t_enc_def txn_enc_def Let_def window_ok_def split: if_splits)

lemma v_enc_prev: "v_enc s (st, w) = (st', w') \<Longrightarrow> prev_v st' = ts_v s"
  by (auto simp: v_enc_def Let_def encode_double_def split: if_splits)

lemma extends_sample:
  assumes "gw_inv w" "gorilla_sample_enc (st, w) s = (st', w')"
  shows "extends w w'"
proof -
  obtain st1 w1 where 1: "mid_enc s (st, w) = (st1, w1)" by fastforce
  obtain st2 w2 where 2: "sgid_enc s (st1, w1) = (st2, w2)" by fastforce
  obtain st3 w3 where 3: "t_enc s (st2, w2) = (st3, w3)" by fastforce
  obtain st4 w4 where 4: "v_enc s (st3, w3) = (st4, w4)" by fastforce
  have 5: "txn_enc s (st4, w4) = (st', w')" using assms(2) 1 2 3 4 by (simp add: gorilla_sample_enc_def)
  note e1 = extends_mid [OF assms(1) 1]
  note e2 = extends_sgid [OF extends_inv [OF e1] 2]
  note e3 = extends_t [OF extends_inv [OF e2] 3]
  note e4 = extends_v [OF extends_inv [OF e3] 4]
  note e5 = extends_txn [OF extends_inv [OF e4] 5]
  from extends_trans [OF extends_trans [OF extends_trans [OF extends_trans [OF e1 e2] e3] e4] e5]
  show ?thesis .
qed

lemma follow_sample:
  assumes "follows r w" "gorilla_sample_enc (st, w) s = (st', w')" "holds (gr_data r) w'"
    and "window_ok st" "step_ok (ts_v s) (prev_v st)"
  shows "window_ok st' \<and> prev_v st' = ts_v s
    \<and> (\<exists>r'. gorilla_sample_dec st r = Some (s, st', r') \<and> follows r' w' \<and> gr_data r' = gr_data r)"
proof -
  obtain st1 w1 where 1: "mid_enc s (st, w) = (st1, w1)" by fastforce
  obtain st2 w2 where 2: "sgid_enc s (st1, w1) = (st2, w2)" by fastforce
  obtain st3 w3 where 3: "t_enc s (st2, w2) = (st3, w3)" by fastforce
  obtain st4 w4 where 4: "v_enc s (st3, w3) = (st4, w4)" by fastforce
  have 5: "txn_enc s (st4, w4) = (st', w')" using assms(2) 1 2 3 4 by (simp add: gorilla_sample_enc_def)
  note e1 = extends_mid [OF follows_inv [OF assms(1)] 1]
  note e2 = extends_sgid [OF extends_inv [OF e1] 2]
  note e3 = extends_t [OF extends_inv [OF e2] 3]
  note e4 = extends_v [OF extends_inv [OF e3] 4]
  note e5 = extends_txn [OF extends_inv [OF e4] 5]
  note h4 = holds_extends [OF assms(3) e5]
  note h3 = holds_extends [OF h4 e4]
  note h2 = holds_extends [OF h3 e3]
  note h1 = holds_extends [OF h2 e2]
  note k = window_kept(1) [OF 1] window_kept(2) [OF 2] window_kept(3) [OF 3] window_kept(4) [OF 5]
  from follow_mid [OF assms(1) 1 h1] obtain r1 where
    r1: "mid_dec st r = Some (ts_mid s, st1, r1)" "follows r1 w1" "gr_data r1 = gr_data r" by blast
  from follow_sgid [OF r1(2) 2] h2 r1(3) obtain r2 where
    r2: "sgid_dec st1 r1 = Some (ts_sgid s, st2, r2)" "follows r2 w2" "gr_data r2 = gr_data r" by auto
  from follow_t [OF r2(2) 3] h3 r2(3) obtain r3 where
    r3: "t_dec st2 r2 = Some (ts_t s, st3, r3)" "follows r3 w3" "gr_data r3 = gr_data r" by auto
  from follow_v [OF r3(2) 4] h4 r3(3) k assms(4,5) obtain r4 where
    r4: "v_dec st3 r3 = Some (ts_v s, st4, r4)" "follows r4 w4" "gr_data r4 = gr_data r"
    and ok: "window_ok st4" by auto
  from follow_txn [OF r4(2) 5] assms(3) r4(3) obtain r5 where
    r5: "txn_dec st4 r4 = Some (ts_txn s, st', r5)" "follows r5 w'" "gr_data r5 = gr_data r" by auto
  show ?thesis
    using r1 r2 r3 r4 r5 ok k v_enc_prev [OF 4] by (simp add: gorilla_sample_dec_def)
qed

text \<open>
  A window with 32 or more leading zeros: the header keeps the count modulo 32 and
  the decoder shifts the difference 32 bits too far.
\<close>

lemma window_header_wrap:
  assumes "32 \<le> lz" "lz < 64"
  shows "unat (take_bit 5 (of_nat lz :: u64)) = lz - 32"
proof -
  have "lz mod 32 = lz - 32" using assms by (simp add: le_mod_geq)
  then show ?thesis
    using assms by (simp only: unsigned_take_bit_eq unsigned_of_nat) (simp add: take_bit_eq_mod)
qed

lemma follow_v_lossy:
  assumes r: "follows r w" and x: "x \<noteq> 0" "32 \<le> clzll x"
    and h: "holds (gr_data r) (fresh_bits (drop_bit (ctzll x) x) (64 - clzll x - ctzll x) (clzll x) w)"
  shows "\<exists>r'. v_dec st r = Some (prev_v st XOR push_bit 32 x,
        st\<lparr>prev_v := prev_v st XOR push_bit 32 x, prev_lz := clzll x - 32, prev_tz := 32 + ctzll x\<rparr>, r')
    \<and> follows r' (fresh_bits (drop_bit (ctzll x) x) (64 - clzll x - ctzll x) (clzll x) w)
    \<and> gr_data r' = gr_data r"
proof -
  let ?n = "64 - clzll x - ctzll x"
  have lt: "clzll x + ctzll x < 64" by (rule clzll_ctzll_less [OF x(1)])
  have n: "0 < ?n" "?n \<le> 64" "clzll x - 32 + ?n \<le> 64" "64 - (clzll x - 32) - ?n = 32 + ctzll x"
    "32 + ctzll x < 64" "clzll x < 64"
    using lt x(2) by simp_all
  note hdr = window_header_wrap [OF x(2) n(6)]
  from follow_fresh_bits [OF r h] obtain r1 r2 r3 r4 r5 where steps:
    "bit_is_0 r = (False, r1)" "bit_is_0 r1 = (False, r2)"
    "readBits 5 r2 = (take_bit 5 (of_nat (clzll x)), r3)"
    "readBits 6 r3 = (take_bit 6 (of_nat (?n - 1)), r4)"
    "readBits ?n r4 = (take_bit ?n (drop_bit (ctzll x) x), r5)"
    "follows r5 (fresh_bits (drop_bit (ctzll x) x) ?n (clzll x) w)" "gr_data r5 = gr_data r"
    by blast
  have hdr2: "unat (take_bit 6 (of_nat (?n - 1) :: u64)) + 1 = ?n"
    using window_header(2) [of 0 ?n] n by simp
  have "push_bit (ctzll x) (take_bit ?n (drop_bit (ctzll x) x)) = x" by (rule window_exact) simp_all
  then have "push_bit (32 + ctzll x) (take_bit ?n (drop_bit (ctzll x) x)) = push_bit 32 x"
    by (simp only: push_bit_push_bit [symmetric])
  then show ?thesis
    unfolding v_dec_def Let_def steps(1,2,3,4) prod.case hdr(1) hdr2 steps(5) using n(3-5) steps(6,7)
    by (simp add: encode_double_def decode_double_def)
qed

text \<open>The whole record.\<close>

fun steps_ok :: "u64 \<Rightarrow> TreeRefSample list \<Rightarrow> bool" where
  "steps_ok v [] = True"
| "steps_ok v (s # ss) = (step_ok (ts_v s) v \<and> steps_ok (ts_v s) ss)"

lemma extends_loop:
  "gw_inv w \<Longrightarrow> extends w (snd (foldl gorilla_sample_enc (st, w) ss))"
proof (induction ss arbitrary: st w)
  case (Cons s ss)
  obtain st1 w1 where 1: "gorilla_sample_enc (st, w) s = (st1, w1)" by fastforce
  note e = extends_sample [OF Cons.prems 1]
  from extends_trans [OF e Cons.IH [OF extends_inv [OF e]]] 1 show ?case by simp
qed (simp add: extends_refl)

lemma follow_loop:
  assumes "follows r w" "holds (gr_data r) (snd (foldl gorilla_sample_enc (st, w) ss))"
    and "window_ok st" "steps_ok (prev_v st) ss"
  shows "gorilla_loop_dec (length ss) st r = Some ss"
  using assms
proof (induction ss arbitrary: st w r)
  case (Cons s ss)
  obtain st1 w1 where 1: "gorilla_sample_enc (st, w) s = (st1, w1)" by fastforce
  note e = extends_sample [OF follows_inv [OF Cons.prems(1)] 1]
  have h: "holds (gr_data r) w1"
    using Cons.prems(2) 1 holds_extends extends_loop [OF extends_inv [OF e]] by fastforce
  from follow_sample [OF Cons.prems(1) 1 h Cons.prems(3)] Cons.prems(4) obtain r1 where
    r1: "gorilla_sample_dec st r = Some (s, st1, r1)" "follows r1 w1" "gr_data r1 = gr_data r"
    and ok: "window_ok st1" "prev_v st1 = ts_v s" by auto
  from Cons.IH [OF r1(2)] Cons.prems(2,4) 1 r1 ok show ?case by simp
qed simp

lemma extends_writeFixed:
  "gw_inv w \<Longrightarrow> extends w (writeFixed64BE x w)" "gw_inv w \<Longrightarrow> extends w (writeFixed16 y w)"
  by (simp_all add: writeFixed64BE_def writeFixed16_def extends_flushed_bytes)

lemma extends_first:
  assumes "gw_inv w"
  shows "extends w (gorilla_first_enc s w)"
proof -
  note e1 = extends_writeFixed(2) [OF assms, of "ts_mid s"]
  note e2 = extends_writeFixed(1) [OF extends_inv [OF e1], of "ts_sgid s"]
  note e3 = extends_writeFixed(1) [OF extends_inv [OF e2], of "ts_t s"]
  note e4 = extends_writeFixed(1) [OF extends_inv [OF e3], of "encode_double (ts_v s)"]
  note e5 = extends_writeFixed(1) [OF extends_inv [OF e4], of "ts_txn s"]
  from extends_trans [OF extends_trans [OF extends_trans [OF extends_trans [OF e1 e2] e3] e4] e5]
  show ?thesis unfolding gorilla_first_enc_def .
qed

lemma follow_first:
  assumes "follows r w" "holds (gr_data r) (gorilla_first_enc s w)"
  shows "\<exists>r'. gorilla_first_dec r = Some (s, r') \<and> follows r' (gorilla_first_enc s w) \<and> gr_data r' = gr_data r"
proof -
  let ?w1 = "writeFixed16 (ts_mid s) w" let ?w2 = "writeFixed64BE (ts_sgid s) ?w1"
  let ?w3 = "writeFixed64BE (ts_t s) ?w2" let ?w4 = "writeFixed64BE (ts_v s) ?w3"
  let ?w5 = "writeFixed64BE (ts_txn s) ?w4"
  have w5: "gorilla_first_enc s w = ?w5" by (simp add: gorilla_first_enc_def encode_double_def)
  note e1 = extends_writeFixed(2) [OF follows_inv [OF assms(1)], of "ts_mid s"]
  note e2 = extends_writeFixed(1) [OF extends_inv [OF e1], of "ts_sgid s"]
  note e3 = extends_writeFixed(1) [OF extends_inv [OF e2], of "ts_t s"]
  note e4 = extends_writeFixed(1) [OF extends_inv [OF e3], of "ts_v s"]
  note e5 = extends_writeFixed(1) [OF extends_inv [OF e4], of "ts_txn s"]
  note h5 = assms(2) [unfolded w5]
  note h4 = holds_extends [OF h5 e5]
  note h3 = holds_extends [OF h4 e4]
  note h2 = holds_extends [OF h3 e3]
  note h1 = holds_extends [OF h2 e2]
  from follow_fixed16 [OF assms(1) h1] obtain r1 where
    r1: "readFixed16 r = Some (ts_mid s, r1)" "follows r1 ?w1" "gr_data r1 = gr_data r" by blast
  from follow_fixed64BE [OF r1(2)] h2 r1(3) obtain r2 where
    r2: "readFixed64BE r1 = Some (ts_sgid s, r2)" "follows r2 ?w2" "gr_data r2 = gr_data r" by auto
  from follow_fixed64BE [OF r2(2)] h3 r2(3) obtain r3 where
    r3: "readFixed64BE r2 = Some (ts_t s, r3)" "follows r3 ?w3" "gr_data r3 = gr_data r" by auto
  from follow_fixed64BE [OF r3(2)] h4 r3(3) obtain r4 where
    r4: "readFixed64BE r3 = Some (ts_v s, r4)" "follows r4 ?w4" "gr_data r4 = gr_data r" by auto
  from follow_fixed64BE [OF r4(2)] h5 r4(3) obtain r5 where
    r5: "readFixed64BE r4 = Some (ts_txn s, r5)" "follows r5 ?w5" "gr_data r5 = gr_data r" by auto
  show ?thesis
    using r1 r2 r3 r4 r5 by (simp add: gorilla_first_dec_def w5 decode_double_def)
qed

text \<open>What is in the buffer before the bit stream starts does not matter to the writer.\<close>

definition prepend :: "bytes \<Rightarrow> GorillaBitWriter \<Rightarrow> GorillaBitWriter" where
  "prepend p w = w\<lparr>gw_buf := p @ gw_buf w\<rparr>"

lemma prepend_writeBit [simp]: "writeBit b (prepend p w) = prepend p (writeBit b w)"
  by (simp add: writeBit_def prepend_def Let_def)

lemma prepend_writeBits [simp]: "writeBits v n (prepend p w) = prepend p (writeBits v n w)"
  unfolding writeBits_def by (induction n arbitrary: w) simp_all

lemma prepend_flushToByte [simp]: "flushToByte (prepend p w) = prepend p (flushToByte w)"
  by (simp add: flushToByte_def prepend_def)

lemma prepend_append_bytes [simp]: "append_bytes bs (prepend p w) = prepend p (append_bytes bs w)"
  by (simp add: append_bytes_def prepend_def)

lemma prepend_writeSignedVarint [simp]:
  "writeSignedVarint v (prepend p w) = prepend p (writeSignedVarint v w)"
  by (simp add: writeSignedVarint_eq)

lemma prepend_first: "gorilla_first_enc s (prepend p w) = prepend p (gorilla_first_enc s w)"
  by (simp add: gorilla_first_enc_def writeFixed64BE_def writeFixed16_def)

lemma prepend_fields:
  "mid_enc s (apsnd (prepend p) x) = apsnd (prepend p) (mid_enc s x)"
  "sgid_enc s (apsnd (prepend p) x) = apsnd (prepend p) (sgid_enc s x)"
  "t_enc s (apsnd (prepend p) x) = apsnd (prepend p) (t_enc s x)"
  "v_enc s (apsnd (prepend p) x) = apsnd (prepend p) (v_enc s x)"
  "txn_enc s (apsnd (prepend p) x) = apsnd (prepend p) (txn_enc s x)"
  by (cases x, simp add: mid_enc_def sgid_enc_def t_enc_def v_enc_def txn_enc_def Let_def)+

lemma prepend_sample:
  "gorilla_sample_enc (apsnd (prepend p) x) s = apsnd (prepend p) (gorilla_sample_enc x s)"
  by (simp only: gorilla_sample_enc_def prepend_fields)

lemma prepend_loop:
  "foldl gorilla_sample_enc (st, prepend p w) ss
     = apsnd (prepend p) (foldl gorilla_sample_enc (st, w) ss)"
proof (induction ss rule: rev_induct)
  case (snoc s ss)
  then show ?case by (simp add: prepend_sample)
qed simp

definition gorilla_body :: "TreeRefSample \<Rightarrow> TreeRefSample list \<Rightarrow> bytes" where
  "gorilla_body s0 ss = gw_buf (flushToByte (snd
     (foldl gorilla_sample_enc (gorilla_start s0, gorilla_first_enc s0 (GorillaBitWriter_init [])) ss)))"

lemma treeSamplesGorilla_enc_body:
  assumes "n \<le> length ss"
  shows "treeSamplesGorilla_enc (s0 # ss) (Suc n) result
    = Some (result @ kSampleGorilla # EncodeVarint32 (of_nat (Suc n)) @ gorilla_body s0 (take n ss))"
proof -
  have init: "GorillaBitWriter_init p = prepend p (GorillaBitWriter_init [])" for p
    by (simp add: GorillaBitWriter_init_def prepend_def)
  have buf: "gw_buf (prepend p w) = p @ gw_buf w" for p w by (simp add: prepend_def)
  show ?thesis
    using assms unfolding treeSamplesGorilla_enc_def Let_def gorilla_body_def
    by (subst (1 2) init) (cases n, simp_all add: prepend_first prepend_loop buf put_defs)
qed

lemma gorilla_body_start:
  "\<exists>r w. gorilla_first_dec (GorillaBitReader_init (gorilla_body s0 ss)) = Some (s0, r) \<and> follows r w
    \<and> holds (gr_data r) (snd (foldl gorilla_sample_enc (gorilla_start s0, w) ss))"
proof -
  let ?w0 = "GorillaBitWriter_init []" and ?r0 = "GorillaBitReader_init (gorilla_body s0 ss)"
  let ?w1 = "gorilla_first_enc s0 ?w0"
  let ?w2 = "snd (foldl gorilla_sample_enc (gorilla_start s0, ?w1) ss)"
  have f0: "follows ?r0 ?w0"
    by (simp add: follows_def GorillaBitWriter_init_def GorillaBitReader_init_def gw_inv_def gr_inv_def
        gr_pos_def gw_out_def)
  note e1 = extends_first [OF follows_inv [OF f0], of s0]
  note e2 = extends_loop [OF extends_inv [OF e1], of "gorilla_start s0" ss]
  have data: "gr_data ?r0 = gw_buf (flushToByte ?w2)"
    by (simp add: GorillaBitReader_init_def gorilla_body_def)
  have h2: "holds (gr_data ?r0) ?w2"
    using flushToByte_aligned(1,2) [OF extends_inv [OF e2]] by (simp add: holds_def data aligned_out)
  with follow_first [OF f0 holds_extends [OF h2 e2]] show ?thesis by metis
qed

lemma gorilla_body_dec:
  assumes "steps_ok (ts_v s0) ss"
  shows "\<exists>r. gorilla_first_dec (GorillaBitReader_init (gorilla_body s0 ss)) = Some (s0, r)
    \<and> gorilla_loop_dec (length ss) (gorilla_start s0) r = Some ss"
proof -
  obtain r w where r: "gorilla_first_dec (GorillaBitReader_init (gorilla_body s0 ss)) = Some (s0, r)"
    "follows r w" "holds (gr_data r) (snd (foldl gorilla_sample_enc (gorilla_start s0, w) ss))"
    using gorilla_body_start [of s0 ss] by blast
  have "window_ok (gorilla_start s0)" "steps_ok (prev_v (gorilla_start s0)) ss"
    using assms by (simp_all add: window_ok_def gorilla_start_def encode_double_def)
  with follow_loop [OF r(2,3)] r(1) show ?thesis by simp
qed

lemma gorilla_dec_enc:
  assumes "length ss < 2 ^ 32 - 1" "steps_ok (ts_v s0) ss"
  shows "\<exists>b. treeSamplesGorilla_enc (s0 # ss) (Suc (length ss)) [] = Some b
    \<and> treeSamplesGorilla_dec b v = Some (True, s0 # ss)"
proof -
  have n: "unat (of_nat (Suc (length ss)) :: u32) = Suc (length ss)"
    using assms(1) by (intro unat_of_nat_32) simp
  then have "(of_nat (Suc (length ss)) :: u32) \<noteq> 0" by (metis unat_0 nat.distinct(1))
  with n gorilla_body_dec [OF assms(2)] show ?thesis
    by (auto simp: treeSamplesGorilla_enc_body treeSamplesGorilla_dec_def varint32.dec_enc
        simp del: of_nat_Suc)
qed

lemma treeSamplesGorilla_vec_enc_eq:
  assumes "length ss < 2 ^ 32"
  shows "treeSamplesGorilla_enc ss (length ss) [] = Some (treeSamplesGorilla_vec_enc ss)"
  using unat_of_nat_32 [OF assms]
  by (simp add: treeSamplesGorilla_enc_def treeSamplesGorilla_vec_enc_def Let_def)

lemma xor_eq_0_iff: "a XOR b = 0 \<longleftrightarrow> a = b" for a b :: u64
  by (auto simp: bit_eq_iff bit_xor_iff)

lemma follow_sample_lossy:
  assumes "follows r w" "gorilla_sample_enc (st, w) s = (st', w')" "holds (gr_data r) w'"
    and "prev_lz st = 64" "32 \<le> clzll (ts_v s XOR prev_v st)" "ts_v s \<noteq> prev_v st"
  shows "\<exists>st'' r'. gorilla_sample_dec st r
    = Some (s\<lparr>ts_v := prev_v st XOR push_bit 32 (ts_v s XOR prev_v st)\<rparr>, st'', r')"
proof -
  obtain st1 w1 where 1: "mid_enc s (st, w) = (st1, w1)" by fastforce
  obtain st2 w2 where 2: "sgid_enc s (st1, w1) = (st2, w2)" by fastforce
  obtain st3 w3 where 3: "t_enc s (st2, w2) = (st3, w3)" by fastforce
  obtain st4 w4 where 4: "v_enc s (st3, w3) = (st4, w4)" by fastforce
  have 5: "txn_enc s (st4, w4) = (st', w')" using assms(2) 1 2 3 4 by (simp add: gorilla_sample_enc_def)
  note e1 = extends_mid [OF follows_inv [OF assms(1)] 1]
  note e2 = extends_sgid [OF extends_inv [OF e1] 2]
  note e3 = extends_t [OF extends_inv [OF e2] 3]
  note e4 = extends_v [OF extends_inv [OF e3] 4]
  note h4 = holds_extends [OF assms(3) extends_txn [OF extends_inv [OF e4] 5]]
  note h3 = holds_extends [OF h4 e4]
  note h2 = holds_extends [OF h3 e3]
  note h1 = holds_extends [OF h2 e2]
  define x where "x = ts_v s XOR prev_v st"
  have kept: "prev_v st3 = prev_v st" "prev_lz st3 = 64"
    using 1 2 3 assms(4) by (auto simp: mid_enc_def sgid_enc_def t_enc_def Let_def split: if_splits)
  have x: "x \<noteq> 0" "32 \<le> clzll x" "clzll x < 64"
    using assms(5,6) clzll_ctzll_less [of x] by (auto simp: x_def xor_eq_0_iff)
  let ?w = "fresh_bits (drop_bit (ctzll x) x) (64 - clzll x - ctzll x) (clzll x) w3"
  have w4: "w4 = ?w" and st4: "prev_txn st4 = prev_txn st3" "prev_txn_delta st4 = prev_txn_delta st3"
    using 4 v_enc_cases(3) [of s st3 w3] x kept by (auto simp: x_def)
  let ?v = "prev_v st XOR push_bit 32 x"
  let ?st4 = "st3\<lparr>prev_v := ?v, prev_lz := clzll x - 32, prev_tz := 32 + ctzll x\<rparr>"
  from follow_mid [OF assms(1) 1 h1] obtain r1 where
    r1: "mid_dec st r = Some (ts_mid s, st1, r1)" "follows r1 w1" "gr_data r1 = gr_data r" by blast
  from follow_sgid [OF r1(2) 2] h2 r1(3) obtain r2 where
    r2: "sgid_dec st1 r1 = Some (ts_sgid s, st2, r2)" "follows r2 w2" "gr_data r2 = gr_data r" by auto
  from follow_t [OF r2(2) 3] h3 r2(3) obtain r3 where
    r3: "t_dec st2 r2 = Some (ts_t s, st3, r3)" "follows r3 w3" "gr_data r3 = gr_data r" by auto
  from follow_v_lossy [OF r3(2) x(1,2), of st3] h4 r3(3) kept(1) obtain r4 where
    r4: "v_dec st3 r3 = Some (?v, ?st4, r4)" "follows r4 w4" "gr_data r4 = gr_data r"
    unfolding w4 by auto
  have "\<exists>st5. txn_enc s (?st4, w4) = (st5, w')"
    using 5 st4 by (auto simp: txn_enc_def Let_def)
  then obtain st5 where 5: "txn_enc s (?st4, w4) = (st5, w')" by blast
  from follow_txn [OF r4(2) 5] assms(3) r4(3) obtain r5 where
    "txn_dec ?st4 r4 = Some (ts_txn s, st5, r5)" by auto
  with r1 r2 r3 r4 show ?thesis by (cases s) (simp add: gorilla_sample_dec_def x_def)
qed

subsection \<open>Properties\<close>

text \<open>
  C4: a compressed sample record decodes to exactly the samples it was written from,
  whatever their ids, timestamps and transactions, as long as two consecutive values
  that differ also differ in their upper 32 bits; the array and the vector overload
  write the same record.
\<close>

theorem treeSamplesGorilla_roundtrip:
  assumes "ss \<noteq> []" "length ss < 2 ^ 32" "steps_ok (ts_v (hd ss)) (tl ss)"
  shows "treeSamplesGorilla_enc ss (length ss) [] = Some (treeSamplesGorilla_vec_enc ss)
    \<and> treeSamplesGorilla_dec (treeSamplesGorilla_vec_enc ss) v = Some (True, ss)"
proof -
  obtain s0 rest where ss: "ss = s0 # rest" using assms(1) by (cases ss) auto
  with gorilla_dec_enc [of rest s0 v] treeSamplesGorilla_vec_enc_eq [OF assms(2)] assms show ?thesis
    by auto
qed

definition smp :: "u64 \<Rightarrow> u16 \<Rightarrow> i64 \<Rightarrow> double \<Rightarrow> i64 \<Rightarrow> TreeRefSample" where
  "smp sgid mid t v txn = \<lparr>ts_sgid = sgid, ts_mid = mid, ts_t = t, ts_v = v, ts_txn = txn\<rparr>"

lemma sample_steps:
  "steps_ok 4607182418800017408 [smp 1 4 1060 4611686018427387904 9, smp 2 4 1119 4611686018427387904 10]"
  using clzll_less [of "9218868437227405312" 62] by (simp add: step_ok_def smp_def)

theorem treeSamplesGorilla_roundtrip_witness:
  "treeSamplesGorilla_dec (treeSamplesGorilla_vec_enc
     [smp 1 3 1000 4607182418800017408 8, smp 1 4 1060 4611686018427387904 9,
      smp 2 4 1119 4611686018427387904 10]) []
   = Some (True, [smp 1 3 1000 4607182418800017408 8, smp 1 4 1060 4611686018427387904 9,
      smp 2 4 1119 4611686018427387904 10])"
  using treeSamplesGorilla_roundtrip [of "[smp 1 3 1000 4607182418800017408 8,
      smp 1 4 1060 4611686018427387904 9, smp 2 4 1119 4611686018427387904 10]" "[]"] sample_steps
  by (simp add: smp_def)

text \<open>
  C30: the hypothesis on the values is needed. When the second of two samples differs
  from the first only in the lower 32 bits of its value, the record decodes to a
  different value: the difference comes back shifted by 32 bits.
\<close>

theorem treeSamplesGorilla_lossy:
  assumes "ts_v s1 \<noteq> ts_v s0" "32 \<le> clzll (ts_v s1 XOR ts_v s0)"
  shows "treeSamplesGorilla_dec (treeSamplesGorilla_vec_enc [s0, s1]) v
    = Some (True, [s0, s1\<lparr>ts_v := ts_v s0 XOR push_bit 32 (ts_v s1 XOR ts_v s0)\<rparr>])"
proof -
  let ?st = "gorilla_start s0"
  obtain r1 w1 where first: "gorilla_first_dec (GorillaBitReader_init (gorilla_body s0 [s1])) = Some (s0, r1)"
    "follows r1 w1" "holds (gr_data r1) (snd (gorilla_sample_enc (?st, w1) s1))"
    using gorilla_body_start [of s0 "[s1]"] by auto
  obtain st2 w2 where 1: "gorilla_sample_enc (?st, w1) s1 = (st2, w2)" by fastforce
  have st: "prev_lz ?st = 64" "prev_v ?st = ts_v s0" by (simp_all add: gorilla_start_def encode_double_def)
  from follow_sample_lossy [OF first(2) 1 _ st(1)] first(3) assms 1 st(2) obtain st3 r2 where
    "gorilla_sample_dec ?st r1
      = Some (s1\<lparr>ts_v := ts_v s0 XOR push_bit 32 (ts_v s1 XOR ts_v s0)\<rparr>, st3, r2)" by auto
  moreover have "treeSamplesGorilla_vec_enc [s0, s1] = kSampleGorilla # EncodeVarint32 2 @ gorilla_body s0 [s1]"
    using treeSamplesGorilla_enc_body [of 1 "[s1]" s0 "[]"] treeSamplesGorilla_vec_enc_eq [of "[s0, s1]"]
    by simp
  ultimately show ?thesis
    using first(1) by (simp add: treeSamplesGorilla_dec_def varint32.dec_enc)
qed

theorem treeSamplesGorilla_lossy_witness:
  "treeSamplesGorilla_dec (treeSamplesGorilla_vec_enc
     [smp 1 3 1000 4607182418800017408 8, smp 1 3 1060 4607182418800017409 9]) []
   = Some (True, [smp 1 3 1000 4607182418800017408 8, smp 1 3 1060 4607182423094984704 9])"
  using treeSamplesGorilla_lossy [of "smp 1 3 1060 4607182418800017409 9" "smp 1 3 1000 4607182418800017408 8" "[]"]
    clzll_ge_32 [of 1]
  by (simp add: smp_def)

end
