(* ===== verification/Env.thy ===== *)
theory Env
  imports Prelude "HOL-Library.Sublist"
begin

text \<open>
  The file abstractions of \<open>leveldb/util/env_posix.cc\<close> and \<open>io_posix.cc\<close>
  over the POSIX calls they use. A file descriptor carries the bytes of the file and
  the sequence of things the kernel will do to the coming calls (transfer fewer
  bytes than asked, interrupt, fail); once the sequence is used up every call
  succeeds in full. The sequence is universally quantified in the lemmas, so they
  hold however the kernel behaves. The locale \<open>append_file\<close> is the contract of
  a \<open>WritableFile\<close> that the log writer relies on.
\<close>

datatype Status = OK | IOError | Corruption string

subsection \<open>The system calls\<close>

datatype io_event = IoShort nat | IoIntr | IoFail

datatype io_result = Done nat | Interrupted | Failed

record Fd =
  fd_data :: bytes
  fd_events :: "io_event list"

definition next_io :: "Fd \<Rightarrow> nat \<Rightarrow> io_result \<times> Fd" where
  "next_io fd n = (case fd_events fd of
       [] \<Rightarrow> (Done n, fd)
     | IoShort k # es \<Rightarrow> (Done (min k n), fd\<lparr>fd_events := es\<rparr>)
     | IoIntr # es \<Rightarrow> (Interrupted, fd\<lparr>fd_events := es\<rparr>)
     | IoFail # es \<Rightarrow> (Failed, fd\<lparr>fd_events := es\<rparr>))"

text \<open>\<open>write\<close> at the end of the file, \<open>pwrite\<close> and \<open>pread\<close> at an offset; a
  hole left by \<open>pwrite\<close> reads as zeros.\<close>

definition file_splice :: "bytes \<Rightarrow> nat \<Rightarrow> bytes \<Rightarrow> bytes" where
  "file_splice f off d = (if d = [] then f else take off (f @ replicate (off - length f) 0) @ d @ drop (off + length d) f)"

definition sys_write :: "Fd \<Rightarrow> bytes \<Rightarrow> io_result \<times> Fd" where
  "sys_write fd d = (case next_io fd (length d) of
       (Done k, fd) \<Rightarrow> (Done k, fd\<lparr>fd_data := fd_data fd @ take k d\<rparr>) | r \<Rightarrow> r)"

definition sys_pwrite :: "Fd \<Rightarrow> bytes \<Rightarrow> nat \<Rightarrow> io_result \<times> Fd" where
  "sys_pwrite fd d off = (case next_io fd (length d) of
       (Done k, fd) \<Rightarrow> (Done k, fd\<lparr>fd_data := file_splice (fd_data fd) off (take k d)\<rparr>) | r \<Rightarrow> r)"

definition sys_pread :: "Fd \<Rightarrow> nat \<Rightarrow> nat \<Rightarrow> io_result \<times> bytes \<times> Fd" where
  "sys_pread fd n off = (case next_io fd (min n (length (fd_data fd) - off)) of
       (Done k, fd) \<Rightarrow> (Done k, take k (drop off (fd_data fd)), fd) | (r, fd) \<Rightarrow> (r, [], fd))"

subsection \<open>PosixWritableFile\<close>

definition kWritableFileBufferSize :: nat where
  "kWritableFileBufferSize = 65536"

text \<open>\<open>wf_buf\<close> is \<open>buf_[0, pos_ - 1]\<close>.\<close>

record PosixWritableFile =
  wf_fd :: Fd
  wf_buf :: bytes

function WriteUnbuffered :: "Fd \<Rightarrow> bytes \<Rightarrow> Status \<times> Fd" where
  "WriteUnbuffered fd d =
     (if d = [] then (OK, fd)
      else case sys_write fd d of
          (Done k, fd') \<Rightarrow> WriteUnbuffered fd' (drop k d)
        | (Interrupted, fd') \<Rightarrow> WriteUnbuffered fd' d
        | (Failed, fd') \<Rightarrow> (IOError, fd'))"
  by pat_completeness auto
termination
  by (relation "measure (\<lambda>(fd, d). length (fd_events fd) + length d)")
    (auto simp: sys_write_def next_io_def split: list.splits io_event.splits)

declare WriteUnbuffered.simps [simp del]

definition FlushBuffer :: "PosixWritableFile \<Rightarrow> Status \<times> PosixWritableFile" where
  "FlushBuffer w = (let (s, fd) = WriteUnbuffered (wf_fd w) (wf_buf w) in (s, w\<lparr>wf_fd := fd, wf_buf := []\<rparr>))"

definition wf_Append :: "PosixWritableFile \<Rightarrow> bytes \<Rightarrow> Status \<times> PosixWritableFile" where
  "wf_Append w d =
     (let copy_size = min (length d) (kWritableFileBufferSize - length (wf_buf w));
          w = w\<lparr>wf_buf := wf_buf w @ take copy_size d\<rparr>;
          d = drop copy_size d
      in if d = [] then (OK, w)
         else let (s, w) = FlushBuffer w
              in if s \<noteq> OK then (s, w)
                 else if length d < kWritableFileBufferSize then (OK, w\<lparr>wf_buf := d\<rparr>)
                 else let (s, fd) = WriteUnbuffered (wf_fd w) d in (s, w\<lparr>wf_fd := fd\<rparr>))"

text \<open>The outcomes of \<open>close\<close>, of opening and syncing the directory, and of
  \<open>fdatasync\<close> are arguments.\<close>

definition wf_Close :: "bool \<Rightarrow> PosixWritableFile \<Rightarrow> Status \<times> PosixWritableFile" where
  "wf_Close close_ok w = (let (s, w) = FlushBuffer w in (if \<not> close_ok \<and> s = OK then IOError else s, w))"

definition wf_Flush :: "PosixWritableFile \<Rightarrow> Status \<times> PosixWritableFile" where
  "wf_Flush w = FlushBuffer w"

definition SyncDirIfManifest :: "bool \<Rightarrow> bool \<Rightarrow> bool \<Rightarrow> Status" where
  "SyncDirIfManifest is_manifest open_ok sync_ok =
     (if \<not> is_manifest then OK else if \<not> open_ok then IOError else if sync_ok then OK else IOError)"

definition wf_Sync :: "bool \<Rightarrow> bool \<Rightarrow> bool \<Rightarrow> bool \<Rightarrow> PosixWritableFile \<Rightarrow> Status \<times> PosixWritableFile" where
  "wf_Sync is_manifest open_ok dir_ok sync_ok w =
     (let s = SyncDirIfManifest is_manifest open_ok dir_ok
      in if s \<noteq> OK then (s, w)
         else let (s, w) = FlushBuffer w
              in if s \<noteq> OK then (s, w) else (if sync_ok then OK else IOError, w))"

subsection \<open>PosixSequentialFile\<close>

record PosixSequentialFile =
  sq_fd :: Fd
  sq_pos :: nat

text \<open>\<open>None\<close> leaves the caller's slice as it was.\<close>

function sq_Read :: "PosixSequentialFile \<Rightarrow> nat \<Rightarrow> Status \<times> bytes option \<times> PosixSequentialFile" where
  "sq_Read f n = (case sys_pread (sq_fd f) n (sq_pos f) of
       (Done k, d, fd) \<Rightarrow> (OK, Some d, f\<lparr>sq_fd := fd, sq_pos := sq_pos f + k\<rparr>)
     | (Interrupted, d, fd) \<Rightarrow> sq_Read (f\<lparr>sq_fd := fd\<rparr>) n
     | (Failed, d, fd) \<Rightarrow> (IOError, None, f\<lparr>sq_fd := fd\<rparr>))"
  by pat_completeness auto
termination
  by (relation "measure (\<lambda>(f, n). length (fd_events (sq_fd f)))")
    (auto simp: sys_pread_def next_io_def split: list.splits io_event.splits)

declare sq_Read.simps [simp del]

definition sq_Skip :: "PosixSequentialFile \<Rightarrow> u64 \<Rightarrow> Status \<times> PosixSequentialFile" where
  "sq_Skip f n = (if sint n < - int (sq_pos f) then (IOError, f)
     else (OK, f\<lparr>sq_pos := nat (int (sq_pos f) + sint n)\<rparr>))"

subsection \<open>PosixRandomRWFile\<close>

definition kLimit1Gb :: nat where
  "kLimit1Gb = 2 ^ 30"

function PosixPositionedWrite :: "Fd \<Rightarrow> bytes \<Rightarrow> nat \<Rightarrow> bool \<times> Fd" where
  "PosixPositionedWrite fd d off =
     (if d = [] then (True, fd)
      else case sys_pwrite fd (take kLimit1Gb d) off of
          (Done k, fd') \<Rightarrow> PosixPositionedWrite fd' (drop k d) (off + k)
        | (Interrupted, fd') \<Rightarrow> PosixPositionedWrite fd' d off
        | (Failed, fd') \<Rightarrow> (False, fd'))"
  by pat_completeness auto
termination
  by (relation "measure (\<lambda>(fd, d, off). length (fd_events fd) + length d)")
    (auto simp: sys_pwrite_def next_io_def kLimit1Gb_def split: list.splits io_event.splits)

declare PosixPositionedWrite.simps [simp del]

definition rw_Write :: "Fd \<Rightarrow> nat \<Rightarrow> bytes \<Rightarrow> Status \<times> Fd" where
  "rw_Write fd off d = (let (ok, fd) = PosixPositionedWrite fd d off in (if ok then OK else IOError, fd))"

function rw_Read_loop :: "Fd \<Rightarrow> nat \<Rightarrow> nat \<Rightarrow> bytes \<Rightarrow> Status \<times> bytes \<times> Fd" where
  "rw_Read_loop fd off left acc =
     (if left = 0 then (OK, acc, fd)
      else case sys_pread fd left off of
          (Done k, d, fd') \<Rightarrow> if k = 0 then (OK, acc, fd') else rw_Read_loop fd' (off + k) (left - k) (acc @ d)
        | (Interrupted, d, fd') \<Rightarrow> rw_Read_loop fd' off left acc
        | (Failed, d, fd') \<Rightarrow> (IOError, acc, fd'))"
  by pat_completeness auto
termination
  by (relation "measure (\<lambda>(fd, off, left, acc). length (fd_events fd) + left)")
    (auto simp: sys_pread_def next_io_def split: list.splits io_event.splits)

declare rw_Read_loop.simps [simp del]

text \<open>The second component is what was stored into the scratch buffer, also when the
  read fails half way.\<close>

definition rw_Read :: "Fd \<Rightarrow> nat \<Rightarrow> nat \<Rightarrow> Status \<times> bytes \<times> Fd" where
  "rw_Read fd off n = rw_Read_loop fd off n []"

subsection \<open>PosixMmapReadableFile\<close>

text \<open>\<open>offset + n\<close> is computed in 64 bits; a slice outside the mapping is undefined
  behaviour (\<open>None\<close>).\<close>

definition mmap_Read :: "bytes \<Rightarrow> u64 \<Rightarrow> u64 \<Rightarrow> (Status \<times> bytes) option" where
  "mmap_Read base off n =
     (if unat (off + n) > length base then Some (IOError, [])
      else if unat off + unat n \<le> length base then Some (OK, take (unat n) (drop (unat off) base))
      else None)"

subsection \<open>Facts\<close>

lemma next_io_data: "next_io fd n = (r, fd') \<Longrightarrow> fd_data fd' = fd_data fd"
  by (auto simp: next_io_def split: list.splits io_event.splits)

lemma next_io_le: "next_io fd n = (Done k, fd') \<Longrightarrow> k \<le> n"
  by (auto simp: next_io_def split: list.splits io_event.splits)

lemma next_io_quiet [simp]: "fd_events fd = [] \<Longrightarrow> next_io fd n = (Done n, fd)"
  by (simp add: next_io_def)

lemma WriteUnbuffered_data:
  assumes "WriteUnbuffered fd d = (s, fd')"
  shows "prefix (fd_data fd') (fd_data fd @ d) \<and> prefix (fd_data fd) (fd_data fd') \<and> (s = OK \<longrightarrow> fd_data fd' = fd_data fd @ d)"
  using assms
proof (induction fd d rule: WriteUnbuffered.induct)
  case (1 fd d)
  show ?case
  proof (cases "d = []")
    case True
    then show ?thesis using 1(3) by (simp add: WriteUnbuffered.simps)
  next
    case False
    obtain r fd1 where n: "next_io fd (length d) = (r, fd1)" by fastforce
    note same = next_io_data [OF n]
    show ?thesis
    proof (cases r)
      case (Done k)
      then have w: "sys_write fd d = (Done k, fd1\<lparr>fd_data := fd_data fd @ take k d\<rparr>)"
        using n by (simp add: sys_write_def same)
      then have "WriteUnbuffered (fd1\<lparr>fd_data := fd_data fd @ take k d\<rparr>) (drop k d) = (s, fd')"
        using 1(3) False by (simp add: WriteUnbuffered.simps [of fd])
      from 1(1) [OF False w [symmetric] refl this] show ?thesis
        by simp (meson append_prefixD)
    next
      case Interrupted
      then have w: "sys_write fd d = (Interrupted, fd1)" using n by (simp add: sys_write_def)
      then have "WriteUnbuffered fd1 d = (s, fd')" using 1(3) False by (simp add: WriteUnbuffered.simps [of fd])
      from 1(2) [OF False w [symmetric] refl this] show ?thesis by (simp add: same)
    next
      case Failed
      then show ?thesis using 1(3) False n same by (auto simp: WriteUnbuffered.simps [of fd] sys_write_def)
    qed
  qed
qed

lemma WriteUnbuffered_quiet:
  "fd_events fd = [] \<Longrightarrow> WriteUnbuffered fd d = (OK, fd\<lparr>fd_data := fd_data fd @ d\<rparr>)"
  by (subst WriteUnbuffered.simps, subst WriteUnbuffered.simps) (simp add: sys_write_def)

text \<open>What the file will hold once the buffer is flushed.\<close>

definition wf_contents :: "PosixWritableFile \<Rightarrow> bytes" where
  "wf_contents w = fd_data (wf_fd w) @ wf_buf w"

definition wf_inv :: "PosixWritableFile \<Rightarrow> bool" where
  "wf_inv w \<longleftrightarrow> length (wf_buf w) \<le> kWritableFileBufferSize"

lemma FlushBuffer_contents:
  assumes "FlushBuffer w = (s, w')"
  shows "wf_buf w' = []" "prefix (wf_contents w') (wf_contents w)" "prefix (fd_data (wf_fd w)) (wf_contents w')"
    "s = OK \<Longrightarrow> wf_contents w' = wf_contents w \<and> fd_data (wf_fd w') = wf_contents w"
  using assms WriteUnbuffered_data [of "wf_fd w" "wf_buf w"]
  by (auto simp: FlushBuffer_def wf_contents_def split: prod.splits)

lemma wf_Append_contents:
  assumes "wf_Append w d = (s, w')" "wf_inv w"
  shows "wf_inv w'" "prefix (wf_contents w') (wf_contents w @ d)" "s = OK \<Longrightarrow> wf_contents w' = wf_contents w @ d"
proof -
  let ?n = "min (length d) (kWritableFileBufferSize - length (wf_buf w))"
  let ?w1 = "w\<lparr>wf_buf := wf_buf w @ take ?n d\<rparr>"
  have c1: "wf_contents ?w1 @ drop ?n d = wf_contents w @ d" by (simp add: wf_contents_def)
  have i1: "wf_inv ?w1" using assms(2) by (auto simp: wf_inv_def)
  obtain s2 w2 where f: "FlushBuffer ?w1 = (s2, w2)" by fastforce
  note F = FlushBuffer_contents [OF f]
  consider "drop ?n d = []" "s = OK" "w' = ?w1"
    | "s2 \<noteq> OK" "s = s2" "w' = w2"
    | "s2 = OK" "length (drop ?n d) < kWritableFileBufferSize" "s = OK" "w' = w2\<lparr>wf_buf := drop ?n d\<rparr>"
    | fd where "s2 = OK" "WriteUnbuffered (wf_fd w2) (drop ?n d) = (s, fd)" "w' = w2\<lparr>wf_fd := fd\<rparr>"
    using assms(1) unfolding wf_Append_def Let_def f by (auto split: if_splits prod.splits)
  then have "wf_inv w' \<and> prefix (wf_contents w') (wf_contents ?w1 @ drop ?n d)
      \<and> (s = OK \<longrightarrow> wf_contents w' = wf_contents ?w1 @ drop ?n d)"
  proof cases
    case 2
    then show ?thesis using F(1,2) by (simp add: wf_inv_def prefix_prefix)
  next
    case 4
    from WriteUnbuffered_data [OF 4(2)] show ?thesis
      using F 4 by (auto simp: wf_inv_def wf_contents_def)
  qed (use i1 F in \<open>auto simp: wf_inv_def wf_contents_def\<close>)
  then show "wf_inv w'" "prefix (wf_contents w') (wf_contents w @ d)" "s = OK \<Longrightarrow> wf_contents w' = wf_contents w @ d"
    unfolding c1 by simp_all
qed

lemma FlushBuffer_inv: "FlushBuffer w = (s, w') \<Longrightarrow> wf_inv w'"
  using FlushBuffer_contents(1) by (auto simp: wf_inv_def)

text \<open>A kernel that shortens and interrupts calls but never fails one.\<close>

definition calm :: "Fd \<Rightarrow> bool" where
  "calm fd \<longleftrightarrow> IoFail \<notin> set (fd_events fd)"

lemma next_io_calm: "next_io fd n = (r, fd') \<Longrightarrow> calm fd \<Longrightarrow> r \<noteq> Failed \<and> calm fd'"
  by (auto simp: next_io_def calm_def split: list.splits io_event.splits)

lemma sys_write_calm: "sys_write fd d = (r, fd') \<Longrightarrow> calm fd \<Longrightarrow> r \<noteq> Failed \<and> calm fd'"
  by (auto simp: sys_write_def calm_def dest!: next_io_calm split: prod.splits io_result.splits)

lemma WriteUnbuffered_calm: "WriteUnbuffered fd d = (s, fd') \<Longrightarrow> calm fd \<Longrightarrow> s = OK \<and> calm fd'"
proof (induction fd d rule: WriteUnbuffered.induct)
  case (1 fd d)
  obtain r fd1 where w: "sys_write fd d = (r, fd1)" by fastforce
  then have c: "r \<noteq> Failed" "calm fd1" using sys_write_calm 1(4) by blast+
  show ?case
  proof (cases "d = []")
    case False
    show ?thesis
    proof (cases r)
      case (Done k)
      then show ?thesis using 1(1) [OF False w [symmetric] Done] 1(3) w False c by (simp add: WriteUnbuffered.simps [of fd])
    next
      case Interrupted
      then show ?thesis using 1(2) [OF False w [symmetric] Interrupted] 1(3) w False c by (simp add: WriteUnbuffered.simps [of fd])
    qed (use c in simp)
  qed (use 1 in \<open>simp add: WriteUnbuffered.simps\<close>)
qed

lemma wf_Append_calm: "wf_Append w d = (s, w') \<Longrightarrow> calm (wf_fd w) \<Longrightarrow> s = OK \<and> calm (wf_fd w')"
  by (auto simp: wf_Append_def FlushBuffer_def Let_def dest!: WriteUnbuffered_calm split: if_splits prod.splits)

lemma FlushBuffer_calm: "FlushBuffer w = (s, w') \<Longrightarrow> calm (wf_fd w) \<Longrightarrow> s = OK \<and> calm (wf_fd w')"
  by (auto simp: FlushBuffer_def dest!: WriteUnbuffered_calm split: prod.splits)

text \<open>The promises of a file that grows at its end.\<close>

locale append_file =
  fixes append_op :: "'f \<Rightarrow> bytes \<Rightarrow> Status \<times> 'f" and contents :: "'f \<Rightarrow> bytes" and inv :: "'f \<Rightarrow> bool"
  assumes inv_append: "append_op f d = (s, f') \<Longrightarrow> inv f \<Longrightarrow> inv f'"
    and append_prefix: "append_op f d = (s, f') \<Longrightarrow> inv f \<Longrightarrow> prefix (contents f') (contents f @ d)"
    and append_ok: "append_op f d = (OK, f') \<Longrightarrow> inv f \<Longrightarrow> contents f' = contents f @ d"
begin

text \<open>A header and a payload in two calls, the second only after the first succeeded.\<close>

lemma append_twice:
  assumes "append_op f h = (s1, f1)" "(if s1 = OK then append_op f1 d else (s1, f1)) = (s, f2)" "inv f"
  shows "inv f2 \<and> prefix (contents f2) (contents f @ h @ d) \<and> (s = OK \<longrightarrow> contents f2 = contents f @ h @ d)"
proof (cases "s1 = OK")
  case True
  then have "contents f1 = contents f @ h" "inv f1" using assms append_ok inv_append by blast+
  then show ?thesis using assms(2) True append_ok append_prefix inv_append by fastforce
next
  case False
  then show ?thesis
    using assms append_prefix [OF assms(1,3)] inv_append [OF assms(1,3)] prefix_prefix [of "contents f1" "contents f @ h" d]
    by simp
qed

end

interpretation posix_file: append_file wf_Append wf_contents wf_inv
  by unfold_locales (auto dest: wf_Append_contents)

lemma file_splice_append: "off \<le> length f \<Longrightarrow> file_splice f off (d @ e) = file_splice (file_splice f off d) (off + length d) e"
  by (cases "d = []"; cases "e = []") (auto simp: file_splice_def ac_simps)

lemma PosixPositionedWrite_quiet:
  assumes "fd_events fd = []" "off \<le> length (fd_data fd)"
  shows "PosixPositionedWrite fd d off = (True, fd\<lparr>fd_data := file_splice (fd_data fd) off d\<rparr>)"
  using assms
proof (induction fd d off rule: PosixPositionedWrite.induct)
  case (1 fd d off)
  show ?case
  proof (cases "d = []")
    case True
    then show ?thesis by (simp add: PosixPositionedWrite.simps file_splice_def)
  next
    case False
    let ?t = "take kLimit1Gb d" and ?fd = "fd\<lparr>fd_data := file_splice (fd_data fd) off (take kLimit1Gb d)\<rparr>"
    have "take (length ?t) ?t = ?t" by (rule take_all) simp
    then have w: "sys_pwrite fd ?t off = (Done (length ?t), ?fd)"
      using 1(3) by (simp only: sys_pwrite_def next_io_quiet prod.case io_result.case)
    have "PosixPositionedWrite ?fd (drop (length ?t) d) (off + length ?t)
        = (True, ?fd\<lparr>fd_data := file_splice (fd_data ?fd) (off + length ?t) (drop (length ?t) d)\<rparr>)"
      using 1 False w by (intro 1(1)) (auto simp: file_splice_def)
    moreover have "file_splice (fd_data ?fd) (off + length ?t) (drop (length ?t) d) = file_splice (fd_data fd) off d"
    proof -
      have "d = ?t @ drop (length ?t) d" by (cases "length d \<le> kLimit1Gb") simp_all
      then show ?thesis using file_splice_append [OF 1(4), of ?t "drop (length ?t) d"] by simp
    qed
    ultimately show ?thesis using False by (simp add: PosixPositionedWrite.simps [of fd d] w)
  qed
qed

lemma rw_Write_quiet:
  "fd_events fd = [] \<Longrightarrow> off \<le> length (fd_data fd) \<Longrightarrow>
    rw_Write fd off d = (OK, fd\<lparr>fd_data := file_splice (fd_data fd) off d\<rparr>)"
  by (simp add: rw_Write_def PosixPositionedWrite_quiet)

lemma rw_Read_quiet:
  assumes "fd_events fd = []"
  shows "rw_Read fd off n = (OK, take n (drop off (fd_data fd)), fd)"
proof -
  let ?k = "min n (length (fd_data fd) - off)"
  have p: "sys_pread fd m o' = (Done (min m (length (fd_data fd) - o')), take (min m (length (fd_data fd) - o')) (drop o' (fd_data fd)), fd)" for m o'
    using assms by (simp add: sys_pread_def)
  have "rw_Read_loop fd (off + ?k) (n - ?k) acc = (OK, acc, fd)" if "?k \<noteq> 0" for acc
    by (subst rw_Read_loop.simps) (auto simp: p)
  moreover have "take ?k (drop off (fd_data fd)) = take n (drop off (fd_data fd))" by (simp add: min_def)
  ultimately show ?thesis unfolding rw_Read_def
    by (subst rw_Read_loop.simps) (auto simp: p)
qed

lemma sq_Read_quiet:
  "fd_events (sq_fd f) = [] \<Longrightarrow> sq_Read f n =
     (OK, Some (take n (drop (sq_pos f) (fd_data (sq_fd f)))),
      f\<lparr>sq_pos := sq_pos f + min n (length (fd_data (sq_fd f)) - sq_pos f)\<rparr>)"
  by (subst sq_Read.simps) (simp add: sys_pread_def min_def)

subsection \<open>Properties\<close>

text \<open>
  C29: Whatever the kernel does to the writes, the bytes of a writable file (on disk
  and buffered) after \<open>Append\<close> are a prefix of the old bytes followed by the new
  data; if \<open>Append\<close> reports success they are all of it, and a successful
  \<open>Flush\<close> then has all of it in the file. The buffer never exceeds its size.
\<close>

theorem writable_file_refines_append:
  assumes "wf_inv w" "wf_Append w d = (s, w')" "wf_Flush w' = (s2, w2)"
  shows "wf_inv w' \<and> prefix (wf_contents w') (wf_contents w @ d)
    \<and> (s = OK \<longrightarrow> wf_contents w' = wf_contents w @ d)
    \<and> (s = OK \<and> s2 = OK \<longrightarrow> fd_data (wf_fd w2) = wf_contents w @ d)"
  using wf_Append_contents [OF assms(2,1)] FlushBuffer_contents(4) [OF assms(3) [unfolded wf_Flush_def]] by auto

theorem writable_file_refines_append_witness:
  "fd_data (wf_fd (snd (wf_Flush (snd (wf_Append
      \<lparr>wf_fd = \<lparr>fd_data = [1], fd_events = [IoIntr, IoShort 2, IoShort 0]\<rparr>, wf_buf = [2]\<rparr> [3, 4]))))) = [1, 2, 3, 4]"
proof -
  let ?w = "\<lparr>wf_fd = \<lparr>fd_data = [1], fd_events = [IoIntr, IoShort 2, IoShort 0]\<rparr>, wf_buf = [2]\<rparr>"
  let ?v = "\<lparr>wf_fd = \<lparr>fd_data = [1], fd_events = [IoIntr, IoShort 2, IoShort 0]\<rparr>, wf_buf = [2, 3, 4]\<rparr>"
  have a: "wf_Append ?w [3, 4] = (OK, ?v)" by (simp add: wf_Append_def kWritableFileBufferSize_def)
  have f: "wf_Flush ?v = (OK, \<lparr>wf_fd = \<lparr>fd_data = [1, 2, 3, 4], fd_events = []\<rparr>, wf_buf = []\<rparr>)"
    by (simp add: wf_Flush_def FlushBuffer_def WriteUnbuffered.simps sys_write_def next_io_def)
  have "wf_inv ?w" by (simp add: wf_inv_def kWritableFileBufferSize_def)
  from writable_file_refines_append [OF this a f] show ?thesis by (simp add: a f wf_contents_def)
qed

end
