(* ===== verification/LogFraming.thy ===== *)
theory LogFraming
  imports Crc32c Env
begin

text \<open>
  The block-framed log of \<open>leveldb/db/log_writer.cc\<close> and \<open>log_reader.cc\<close>
  on top of the POSIX files: \<open>Writer::AddRecord\<close> cuts a record into fragments that
  never straddle a 32 KiB block, \<open>Reader::ReadRecord\<close> reassembles them,
  resynchronises and reports what it drops. Record offsets of the reader are 64-bit
  words, as the comparisons with them wrap. Every call of \<open>ReadRecord\<close> terminates,
  whatever the file holds. What the two sides guarantee together is shown in
  \<open>LogRoundtrip\<close>.
\<close>

subsection \<open>Format\<close>

definition kZeroType :: u8 where "kZeroType = 0"
definition kFullType :: u8 where "kFullType = 1"
definition kFirstType :: u8 where "kFirstType = 2"
definition kMiddleType :: u8 where "kMiddleType = 3"
definition kLastType :: u8 where "kLastType = 4"
definition kMaxRecordType :: nat where "kMaxRecordType = 4"
definition kBlockSize :: nat where "kBlockSize = 32768"
definition kHeaderSize :: nat where "kHeaderSize = 4 + 2 + 1"
definition kEof :: u32 where "kEof = of_nat (kMaxRecordType + 1)"
definition kBadRecord :: u32 where "kBadRecord = of_nat (kMaxRecordType + 2)"

subsection \<open>Writer\<close>

record Writer =
  lw_dest :: PosixWritableFile
  lw_block_offset :: nat
  lw_num_block :: nat
  lw_type_crc :: "u32 list"

definition InitTypeCrc :: "crc_lib \<Rightarrow> u64 \<Rightarrow> u32 list" where
  "InitTypeCrc lib addr = map (\<lambda>i. Value lib addr [of_nat i]) [0..<kMaxRecordType + 1]"

definition Writer_new :: "crc_lib \<Rightarrow> u64 \<Rightarrow> PosixWritableFile \<Rightarrow> Writer" where
  "Writer_new lib addr dest =
     \<lparr>lw_dest = dest, lw_block_offset = 0, lw_num_block = 0, lw_type_crc = InitTypeCrc lib addr\<rparr>"

definition Writer_at :: "crc_lib \<Rightarrow> u64 \<Rightarrow> PosixWritableFile \<Rightarrow> nat \<Rightarrow> Writer" where
  "Writer_at lib addr dest dest_length =
     \<lparr>lw_dest = dest, lw_block_offset = dest_length mod kBlockSize, lw_num_block = dest_length div kBlockSize,
      lw_type_crc = InitTypeCrc lib addr\<rparr>"

definition write_off :: "Writer \<Rightarrow> nat" where
  "write_off w = kBlockSize * lw_num_block w + lw_block_offset w"

definition record_header :: "crc_lib \<Rightarrow> u64 \<Rightarrow> u32 list \<Rightarrow> u8 \<Rightarrow> bytes \<Rightarrow> bytes" where
  "record_header lib addr type_crc t d =
     EncodeFixed32 (Mask (Extend lib addr (type_crc ! unat t) d)) @ [of_nat (length d), of_nat (length d div 256), t]"

definition EmitPhysicalRecord :: "crc_lib \<Rightarrow> u64 \<Rightarrow> Writer \<Rightarrow> u8 \<Rightarrow> bytes \<Rightarrow> Status \<times> Writer" where
  "EmitPhysicalRecord lib addr w t d =
     (let (s, f) = wf_Append (lw_dest w) (record_header lib addr (lw_type_crc w) t d);
          (s, f) = (if s = OK then wf_Append f d else (s, f))
      in (s, w\<lparr>lw_dest := f, lw_block_offset := lw_block_offset w + (kHeaderSize + length d)\<rparr>))"

text \<open>The status of appending the trailer is not looked at.\<close>

definition switch_block :: "Writer \<Rightarrow> Writer" where
  "switch_block w =
     (let leftover = kBlockSize - lw_block_offset w
      in if leftover < kHeaderSize then
           w\<lparr>lw_dest := (if leftover > 0 then snd (wf_Append (lw_dest w) (replicate leftover 0)) else lw_dest w),
             lw_block_offset := 0, lw_num_block := lw_num_block w + 1\<rparr>
         else w)"

definition fragment_type :: "bool \<Rightarrow> bool \<Rightarrow> u8" where
  "fragment_type at_begin at_end =
     (if at_begin \<and> at_end then kFullType else if at_begin then kFirstType
      else if at_end then kLastType else kMiddleType)"

lemma EmitPhysicalRecord_offset:
  "EmitPhysicalRecord lib addr w t d = (s, w') \<Longrightarrow> lw_block_offset w' = lw_block_offset w + kHeaderSize + length d"
  by (auto simp: EmitPhysicalRecord_def split: prod.splits)

lemma switch_block_offset:
  "lw_block_offset (switch_block w) =
     (if kBlockSize - lw_block_offset w < kHeaderSize then 0 else lw_block_offset w)"
  by (simp add: switch_block_def Let_def)

function AddRecord_loop :: "crc_lib \<Rightarrow> u64 \<Rightarrow> Writer \<Rightarrow> bytes \<Rightarrow> bool \<Rightarrow> Status \<times> Writer" where
  "AddRecord_loop lib addr w d at_begin =
     (let w = switch_block w;
          avail = kBlockSize - lw_block_offset w - kHeaderSize;
          n = (if length d < avail then length d else avail);
          (s, w) = EmitPhysicalRecord lib addr w (fragment_type at_begin (length d = n)) (take n d)
      in if s = OK \<and> n < length d then AddRecord_loop lib (addr + of_nat n) w (drop n d) False
         else (s, w))"
  by pat_completeness auto
termination
  by (relation "measure (\<lambda>(lib, addr, w, d, b). 2 * length d
        + (if kBlockSize - lw_block_offset (switch_block w) - kHeaderSize = 0 then 1 else 0))")
    (auto simp: switch_block_offset kBlockSize_def kHeaderSize_def dest!: EmitPhysicalRecord_offset [OF sym] split: if_splits)

declare AddRecord_loop.simps [simp del]

definition AddRecord :: "crc_lib \<Rightarrow> u64 \<Rightarrow> Writer \<Rightarrow> bytes \<Rightarrow> Status \<times> Writer" where
  "AddRecord lib addr w data = AddRecord_loop lib addr w data True"

subsection \<open>Reader\<close>

text \<open>\<open>lr_addr\<close> is the address of the first byte of \<open>buffer_\<close>, \<open>lr_base\<close> of the
  backing store. \<open>lr_reports\<close> is what the reporter was told, newest first.\<close>

record Reader =
  lr_file :: PosixSequentialFile
  lr_reporter :: bool
  lr_reports :: "(u64 \<times> Status) list"
  lr_checksum :: bool
  lr_base :: u64
  lr_buffer :: bytes
  lr_addr :: u64
  lr_eof :: bool
  lr_last_record_offset :: u64
  lr_end_of_buffer_offset :: u64
  lr_initial_offset :: u64
  lr_resyncing :: bool

definition Reader_new :: "PosixSequentialFile \<Rightarrow> bool \<Rightarrow> bool \<Rightarrow> u64 \<Rightarrow> u64 \<Rightarrow> Reader" where
  "Reader_new file reporter checksum base initial_offset =
     \<lparr>lr_file = file, lr_reporter = reporter, lr_reports = [], lr_checksum = checksum, lr_base = base,
      lr_buffer = [], lr_addr = 0, lr_eof = False, lr_last_record_offset = 0, lr_end_of_buffer_offset = 0,
      lr_initial_offset = initial_offset, lr_resyncing = (initial_offset > 0)\<rparr>"

definition ReportDrop :: "Reader \<Rightarrow> u64 \<Rightarrow> Status \<Rightarrow> Reader" where
  "ReportDrop r n reason =
     (if lr_reporter r \<and> lr_end_of_buffer_offset r - of_nat (length (lr_buffer r)) - n \<ge> lr_initial_offset r
      then r\<lparr>lr_reports := (n, reason) # lr_reports r\<rparr> else r)"

definition ReportCorruption :: "Reader \<Rightarrow> u64 \<Rightarrow> string \<Rightarrow> Reader" where
  "ReportCorruption r n reason = ReportDrop r n (Corruption reason)"

definition SkipToInitialBlock :: "Reader \<Rightarrow> bool \<times> Reader" where
  "SkipToInitialBlock r =
     (let offset_in_block = lr_initial_offset r mod of_nat kBlockSize;
          start = lr_initial_offset r - offset_in_block;
          start = (if offset_in_block > of_nat (kBlockSize - 6) then start + of_nat kBlockSize else start);
          r = r\<lparr>lr_end_of_buffer_offset := start\<rparr>
      in if start > 0 then
           let (s, f) = sq_Skip (lr_file r) start; r = r\<lparr>lr_file := f\<rparr>
           in if s \<noteq> OK then (False, ReportDrop r start s) else (True, r)
         else (True, r))"

text \<open>The part of \<open>ReadPhysicalRecord\<close> after the buffer holds a whole header.\<close>

definition parse_physical :: "crc_lib \<Rightarrow> Reader \<Rightarrow> bytes \<Rightarrow> u32 \<times> bytes \<times> Reader" where
  "parse_physical lib r result =
     (let header = lr_buffer r;
          a = ucast (header ! 4) :: u32;
          b = ucast (header ! 5);
          type = scast (header ! 6) :: u32;
          len = unat (a OR push_bit 8 b);
          drop_size = of_nat (length header)
      in if kHeaderSize + len > length header then
           let r = r\<lparr>lr_buffer := []\<rparr>
           in if \<not> lr_eof r then (kBadRecord, result, ReportCorruption r drop_size ''bad record length'')
              else (kEof, result, r)
         else if type = ucast kZeroType \<and> len = 0 then (kBadRecord, result, r\<lparr>lr_buffer := []\<rparr>)
         else if lr_checksum r \<and>
             Value lib (lr_addr r + 6) (take (1 + len) (drop 6 header)) \<noteq> Unmask (the (DecodeFixed32 header)) then
           (kBadRecord, result, ReportCorruption (r\<lparr>lr_buffer := []\<rparr>) drop_size ''checksum mismatch'')
         else
           let r = r\<lparr>lr_buffer := drop (kHeaderSize + len) header,
                     lr_addr := lr_addr r + of_nat (kHeaderSize + len)\<rparr>
           in if lr_end_of_buffer_offset r - of_nat (length (lr_buffer r)) - of_nat kHeaderSize - of_nat len
                 < lr_initial_offset r then (kBadRecord, [], r)
              else (type, take len (drop kHeaderSize header), r))"

definition refill :: "Reader \<Rightarrow> Status \<times> Reader" where
  "refill r =
     (let (s, d, f) = sq_Read (lr_file r) kBlockSize;
          d = (case d of Some d \<Rightarrow> d | None \<Rightarrow> [])
      in (s, r\<lparr>lr_file := f, lr_buffer := d, lr_addr := lr_base r,
               lr_end_of_buffer_offset := lr_end_of_buffer_offset r + of_nat (length d)\<rparr>))"

function ReadPhysicalRecord :: "crc_lib \<Rightarrow> Reader \<Rightarrow> bytes \<Rightarrow> u32 \<times> bytes \<times> Reader" where
  "ReadPhysicalRecord lib r result =
     (if length (lr_buffer r) < kHeaderSize then
        if \<not> lr_eof r then
          let (s, r) = refill r
          in if s \<noteq> OK then (kEof, result, (ReportDrop (r\<lparr>lr_buffer := []\<rparr>) (of_nat kBlockSize) s)\<lparr>lr_eof := True\<rparr>)
             else ReadPhysicalRecord lib
                    (if length (lr_buffer r) < kBlockSize then r\<lparr>lr_eof := True\<rparr> else r) result
        else (kEof, result, r\<lparr>lr_buffer := []\<rparr>)
      else parse_physical lib r result)"
  by pat_completeness auto
termination
  by (relation "measure (\<lambda>(lib, r, result).
        (if length (lr_buffer r) < kHeaderSize then if lr_eof r then 1 else 2 else 0))")
    (auto simp: kBlockSize_def kHeaderSize_def)

declare ReadPhysicalRecord.simps [simp del]

text \<open>The bytes the reader has not consumed yet.\<close>

definition lr_remaining :: "Reader \<Rightarrow> nat" where
  "lr_remaining r = length (lr_buffer r) + (length (fd_data (sq_fd (lr_file r))) - sq_pos (lr_file r))"

lemma ReportDrop_same [simp]:
  "lr_buffer (ReportDrop r n s) = lr_buffer r" "lr_file (ReportDrop r n s) = lr_file r"
  "lr_buffer (ReportCorruption r n m) = lr_buffer r" "lr_file (ReportCorruption r n m) = lr_file r"
  by (simp_all add: ReportDrop_def ReportCorruption_def)

lemma parse_physical_decreases:
  assumes "parse_physical lib r result = (t, result', r')" "kHeaderSize \<le> length (lr_buffer r)"
  shows "lr_file r' = lr_file r \<and> length (lr_buffer r') < length (lr_buffer r)"
proof -
  have "0 < length (lr_buffer r)" using assms(2) unfolding kHeaderSize_def by linarith
  then show ?thesis
    using assms(1) by (auto simp: parse_physical_def Let_def kHeaderSize_def split: if_splits)
qed

lemma sq_Read_remaining:
  "sq_Read f n = (s, d, f') \<Longrightarrow>
    fd_data (sq_fd f') = fd_data (sq_fd f)
    \<and> (case d of Some d \<Rightarrow> length d | None \<Rightarrow> 0) + (length (fd_data (sq_fd f)) - sq_pos f') \<le> length (fd_data (sq_fd f)) - sq_pos f"
proof (induction f n rule: sq_Read.induct)
  case (1 f n)
  obtain r e fd where p: "sys_pread (sq_fd f) n (sq_pos f) = (r, e, fd)" by (metis prod_cases3)
  have same: "fd_data fd = fd_data (sq_fd f)"
    using p by (auto simp: sys_pread_def dest: next_io_data split: prod.splits io_result.splits)
  show ?case
  proof (cases r)
    case (Done k)
    then have "length e = k" "k \<le> length (fd_data (sq_fd f)) - sq_pos f"
      using p same by (auto simp: sys_pread_def min_def dest!: next_io_le split: prod.splits io_result.splits if_splits)
    then show ?thesis using 1(2) p Done same by (auto simp: sq_Read.simps [of f])
  next
    case Interrupted
    then have "sq_Read (f\<lparr>sq_fd := fd\<rparr>) n = (s, d, f')" using 1(2) p by (simp add: sq_Read.simps [of f])
    from 1(1) [OF p [symmetric] Interrupted refl this] show ?thesis using same by simp
  next
    case Failed
    then show ?thesis using 1(2) p same by (auto simp: sq_Read.simps [of f])
  qed
qed

lemma refill_remaining: "refill r = (s, r') \<Longrightarrow> lr_remaining r' \<le> length (fd_data (sq_fd (lr_file r))) - sq_pos (lr_file r)"
  by (auto simp: refill_def lr_remaining_def dest!: sq_Read_remaining split: prod.splits option.splits)

lemma ReadPhysicalRecord_decreases:
  "ReadPhysicalRecord lib r result = (t, result', r') \<Longrightarrow> t \<noteq> kEof \<Longrightarrow> lr_remaining r' < lr_remaining r"
proof (induction lib r result rule: ReadPhysicalRecord.induct)
  case (1 lib r result)
  show ?case
  proof (cases "length (lr_buffer r) < kHeaderSize")
    case True
    obtain s r1 where f: "refill r = (s, r1)" by fastforce
    let ?r2 = "if length (lr_buffer r1) < kBlockSize then r1\<lparr>lr_eof := True\<rparr> else r1"
    have e: "\<not> lr_eof r" "s = OK" "ReadPhysicalRecord lib ?r2 result = (t, result', r')"
      using 1(2,3) True f by (auto simp: ReadPhysicalRecord.simps [of lib r] split: if_splits)
    have "lr_remaining r' < lr_remaining ?r2"
      using 1(1) [OF True _ f [symmetric] refl] e 1(3) by simp
    then show ?thesis using refill_remaining [OF f] by (auto simp: lr_remaining_def split: if_splits)
  next
    case False
    then show ?thesis using 1(2) parse_physical_decreases [of lib r result t result' r']
      by (simp add: ReadPhysicalRecord.simps [of lib r] lr_remaining_def)
  qed
qed

text \<open>The state of the loop of \<open>ReadRecord\<close> apart from the reader: whether a
  fragmented record is open, its bytes so far, its offset, and the last fragment.\<close>

record frag_state =
  fs_in :: bool
  fs_scratch :: bytes
  fs_offset :: u64
  fs_fragment :: bytes

function ReadRecord_loop :: "crc_lib \<Rightarrow> Reader \<Rightarrow> frag_state \<Rightarrow> bool \<times> bytes \<times> Reader" where
  "ReadRecord_loop lib r st =
     (let (record_type, fragment, r) = ReadPhysicalRecord lib r (fs_fragment st);
          st = st\<lparr>fs_fragment := fragment\<rparr>;
          physical_record_offset = lr_end_of_buffer_offset r - of_nat (length (lr_buffer r))
            - of_nat kHeaderSize - of_nat (length fragment);
          skip = (lr_resyncing r \<and> record_type \<in> {ucast kMiddleType, ucast kLastType});
          r = (if lr_resyncing r \<and> record_type \<noteq> ucast kMiddleType then r\<lparr>lr_resyncing := False\<rparr> else r);
          partial = of_nat (length (fs_scratch st))
      in if record_type = kEof then (False, [], r)
         else if skip then ReadRecord_loop lib r st
         else if record_type = ucast kFullType then
           let r = (if fs_in st \<and> fs_scratch st \<noteq> [] then ReportCorruption r partial ''partial record without end(1)'' else r)
           in (True, fragment, r\<lparr>lr_last_record_offset := physical_record_offset\<rparr>)
         else if record_type = ucast kFirstType then
           ReadRecord_loop lib
             (if fs_in st \<and> fs_scratch st \<noteq> [] then ReportCorruption r partial ''partial record without end(2)'' else r)
             (st\<lparr>fs_offset := physical_record_offset, fs_scratch := fragment, fs_in := True\<rparr>)
         else if record_type = ucast kMiddleType then
           if \<not> fs_in st then
             ReadRecord_loop lib (ReportCorruption r (of_nat (length fragment)) ''missing start of fragmented record(1)'') st
           else ReadRecord_loop lib r (st\<lparr>fs_scratch := fs_scratch st @ fragment\<rparr>)
         else if record_type = ucast kLastType then
           if \<not> fs_in st then
             ReadRecord_loop lib (ReportCorruption r (of_nat (length fragment)) ''missing start of fragmented record(2)'') st
           else (True, fs_scratch st @ fragment, r\<lparr>lr_last_record_offset := fs_offset st\<rparr>)
         else if record_type = kBadRecord then
           if fs_in st then
             ReadRecord_loop lib (ReportCorruption r partial ''error in middle of record'') (st\<lparr>fs_in := False, fs_scratch := []\<rparr>)
           else ReadRecord_loop lib r st
         else
           ReadRecord_loop lib
             (ReportCorruption r (of_nat (length fragment + (if fs_in st then length (fs_scratch st) else 0))) ''unknown record type'')
             (st\<lparr>fs_in := False, fs_scratch := []\<rparr>))"
  by pat_completeness auto
termination
  by (relation "measure (\<lambda>(lib, r, st). lr_remaining r)")
    (auto dest!: ReadPhysicalRecord_decreases [OF sym] simp: lr_remaining_def)

declare ReadRecord_loop.simps [simp del]

definition ReadRecord :: "crc_lib \<Rightarrow> Reader \<Rightarrow> bool \<times> bytes \<times> Reader" where
  "ReadRecord lib r =
     (let (ok, r) = (if lr_last_record_offset r < lr_initial_offset r then SkipToInitialBlock r else (True, r))
      in if ok then ReadRecord_loop lib r \<lparr>fs_in = False, fs_scratch = [], fs_offset = 0, fs_fragment = []\<rparr>
         else (False, [], r))"

end
