(* ===== verification/LogRoundtrip.thy ===== *)
theory LogRoundtrip
  imports LogFraming
begin

text \<open>
  The writer and the reader of \<open>LogFraming\<close> against each other: the bytes a
  sequence of records occupies, that the writer produces exactly these, and that
  reading any prefix of them returns the records that lie in the prefix completely
  and nothing else. The prefix is what is left of the log after a crash.
\<close>

subsection \<open>The bytes of a log\<close>

text \<open>
  What the writer is meant to produce: the physical record of a fragment, the bytes
  of a record that starts at file position \<open>p\<close>, and of a sequence of records.
\<close>

definition frame :: "u8 \<Rightarrow> bytes \<Rightarrow> bytes" where
  "frame t d = EncodeFixed32 (Mask (crc32c 0 (t # d))) @ [of_nat (length d), of_nat (length d div 256), t] @ d"

definition block_left :: "nat \<Rightarrow> nat" where
  "block_left p = kBlockSize - p mod kBlockSize"

definition pad :: "nat \<Rightarrow> bytes" where
  "pad p = (if block_left p < kHeaderSize then replicate (block_left p) 0 else [])"

definition avail :: "nat \<Rightarrow> nat" where
  "avail p = block_left (p + length (pad p)) - kHeaderSize"

lemma length_frame [simp]: "length (frame t d) = kHeaderSize + length d"
  by (simp add: frame_def EncodeFixed32_def kHeaderSize_def)

lemmas block_defs = block_left_def pad_def avail_def kBlockSize_def kHeaderSize_def

lemma block_left_pad: "kHeaderSize \<le> block_left (p + length (pad p))"
proof (cases "block_left p < kHeaderSize")
  case True
  have "(p + block_left p) mod kBlockSize = 0"
    unfolding block_left_def by (metis kBlockSize_def mod_add_left_eq le_add_diff_inverse mod_le_divisor mod_self zero_less_numeral)
  then show ?thesis using True by (simp add: pad_def) (simp add: block_left_def kBlockSize_def kHeaderSize_def)
qed (simp add: pad_def)

lemma avail_fits: "avail p + kHeaderSize + (p + length (pad p)) mod kBlockSize = kBlockSize"
  using block_left_pad [of p] by (simp add: avail_def) (simp add: block_left_def kBlockSize_def kHeaderSize_def)

lemma avail_block_start: "x mod kBlockSize = 0 \<Longrightarrow> pad x = [] \<and> avail x = kBlockSize - kHeaderSize"
  by (simp add: avail_def pad_def block_left_def) (simp add: kBlockSize_def kHeaderSize_def)

lemma block_full: "(p + length (pad p) + kHeaderSize + avail p) mod kBlockSize = 0"
proof -
  let ?q = "p + length (pad p)"
  have "(?q + kHeaderSize + avail p) mod kBlockSize = (avail p + kHeaderSize + ?q mod kBlockSize) mod kBlockSize"
    using mod_add_right_eq [of "avail p + kHeaderSize" ?q kBlockSize] by (simp add: ac_simps)
  then show ?thesis unfolding avail_fits by simp
qed

lemma avail_next: "0 < avail (p + length (pad p) + kHeaderSize + avail p)"
proof -
  have "avail (p + length (pad p) + kHeaderSize + avail p) = kBlockSize - kHeaderSize"
    using block_full by (rule avail_block_start [THEN conjunct2])
  then show ?thesis by (simp only:) (simp add: kBlockSize_def kHeaderSize_def)
qed

function record_bytes :: "nat \<Rightarrow> bytes \<Rightarrow> bool \<Rightarrow> bytes" where
  "record_bytes p d at_begin =
     (let n = min (length d) (avail p)
      in pad p @ frame (fragment_type at_begin (length d = n)) (take n d)
         @ (if n < length d then record_bytes (p + length (pad p) + kHeaderSize + n) (drop n d) False else []))"
  by pat_completeness auto
termination
proof (relation "measure (\<lambda>(p, d, b). 2 * length d + (if avail p = 0 then 1 else 0))")
  fix p d n
  assume n: "n = min (length d) (avail p)" "n < length d"
  then have "n = avail p" by simp
  then show "((p + length (pad p) + kHeaderSize + n, drop n d, False), (p, d, at_begin))
      \<in> measure (\<lambda>(p, d, b). 2 * length d + (if avail p = 0 then 1 else 0))" for at_begin
    using n avail_next [of p] by (cases "avail p = 0") auto
qed simp

declare record_bytes.simps [simp del]

fun log_bytes :: "nat \<Rightarrow> bytes list \<Rightarrow> bytes" where
  "log_bytes p [] = []"
| "log_bytes p (d # ds) = record_bytes p d True @ log_bytes (p + length (record_bytes p d True)) ds"

subsection \<open>The writer produces them\<close>

text \<open>A writer whose next byte goes to file position \<open>p\<close>.\<close>

definition lw_at :: "crc_lib \<Rightarrow> Writer \<Rightarrow> nat \<Rightarrow> bool" where
  "lw_at lib w p \<longleftrightarrow> wf_inv (lw_dest w) \<and> calm (wf_fd (lw_dest w)) \<and> (\<exists>addr. lw_type_crc w = InitTypeCrc lib addr)
     \<and> lw_block_offset w \<le> kBlockSize \<and> write_off w = p"

lemma fragment_type_range: "unat (fragment_type b e) \<in> {1..4}"
  by (simp add: fragment_type_def kFullType_def kFirstType_def kLastType_def kMiddleType_def)

lemma InitTypeCrc_nth:
  assumes "crc_lib_ok lib" "unat t \<le> 4"
  shows "InitTypeCrc lib addr ! unat t = crc32c 0 [t]"
  using assms by (simp add: InitTypeCrc_def kMaxRecordType_def Value_def Extend_eq nth_append del: upt_Suc)

lemma record_header_frame:
  assumes "crc_lib_ok lib" "unat t \<le> 4"
  shows "record_header lib addr (InitTypeCrc lib addr') t d @ d = frame t d"
  using crc32c_append [of 0 "[t]" d] assms
  by (simp add: record_header_def frame_def InitTypeCrc_nth Extend_eq)

lemma EmitPhysicalRecord_frame:
  assumes "EmitPhysicalRecord lib addr w t d = (s, w')" "crc_lib_ok lib" "lw_at lib w p" "unat t \<le> 4"
    "lw_block_offset w + kHeaderSize + length d \<le> kBlockSize"
  shows "s = OK \<and> lw_at lib w' (p + kHeaderSize + length d) \<and> wf_contents (lw_dest w') = wf_contents (lw_dest w) @ frame t d"
proof -
  obtain addr' where tc: "lw_type_crc w = InitTypeCrc lib addr'" using assms(3) by (auto simp: lw_at_def)
  obtain s1 f1 where h: "wf_Append (lw_dest w) (record_header lib addr (lw_type_crc w) t d) = (s1, f1)" by fastforce
  then have c1: "s1 = OK" "calm (wf_fd f1)" using assms(3) wf_Append_calm by (auto simp: lw_at_def)
  obtain f2 where f2: "wf_Append f1 d = (s, f2)"
      and w': "w' = w\<lparr>lw_dest := f2, lw_block_offset := lw_block_offset w + (kHeaderSize + length d)\<rparr>"
    using assms(1) h c1 by (auto simp: EmitPhysicalRecord_def split: prod.splits)
  have c2: "s = OK" "calm (wf_fd f2)" using f2 c1 wf_Append_calm by blast+
  have "wf_inv f2 \<and> wf_contents f2 = wf_contents (lw_dest w) @ frame t d"
    using posix_file.append_twice [OF h, of d s f2] c1 c2 f2 assms(3) record_header_frame [OF assms(2,4), of addr addr' d]
    by (simp add: lw_at_def tc)
  then show ?thesis using assms(3,5) c2 w' by (auto simp: lw_at_def write_off_def)
qed

lemma lw_at_offset:
  assumes "lw_at lib w p"
  shows "kBlockSize - lw_block_offset w < kHeaderSize \<longleftrightarrow> lw_block_offset w = kBlockSize \<or> block_left p < kHeaderSize"
    "lw_block_offset w = kBlockSize \<Longrightarrow> p mod kBlockSize = 0"
    "lw_block_offset w \<noteq> kBlockSize \<Longrightarrow> lw_block_offset w = p mod kBlockSize"
proof -
  show "lw_block_offset w = kBlockSize \<Longrightarrow> p mod kBlockSize = 0" using assms by (auto simp: lw_at_def write_off_def)
  show ne: "lw_block_offset w \<noteq> kBlockSize \<Longrightarrow> lw_block_offset w = p mod kBlockSize"
    using assms by (auto simp: lw_at_def write_off_def)
  show "kBlockSize - lw_block_offset w < kHeaderSize \<longleftrightarrow> lw_block_offset w = kBlockSize \<or> block_left p < kHeaderSize"
    using ne by (cases "lw_block_offset w = kBlockSize") (simp_all add: block_left_def kHeaderSize_def)
qed

lemma switch_block_pad:
  assumes "lw_at lib w p"
  shows "lw_at lib (switch_block w) (p + length (pad p))"
    "wf_contents (lw_dest (switch_block w)) = wf_contents (lw_dest w) @ pad p"
    "kBlockSize - lw_block_offset (switch_block w) - kHeaderSize = avail p"
    "lw_block_offset (switch_block w) + kHeaderSize \<le> kBlockSize"
proof -
  let ?left = "kBlockSize - lw_block_offset w"
  obtain s f where a: "wf_Append (lw_dest w) (replicate ?left 0) = (s, f)" by fastforce
  note A = wf_Append_contents [OF a] and C = wf_Append_calm [OF a]
  have "lw_at lib (switch_block w) (p + length (pad p))
      \<and> wf_contents (lw_dest (switch_block w)) = wf_contents (lw_dest w) @ pad p
      \<and> lw_block_offset (switch_block w) = (p + length (pad p)) mod kBlockSize"
  proof (cases "?left < kHeaderSize")
    case False
    then have "pad p = []" "lw_block_offset w = p mod kBlockSize"
      using lw_at_offset [OF assms] by (auto simp: pad_def kHeaderSize_def)
    then show ?thesis using False assms by (simp add: switch_block_def)
  next
    case True
    show ?thesis
    proof (cases "lw_block_offset w = kBlockSize")
      case full: True
      then have "p mod kBlockSize = 0" using lw_at_offset [OF assms] by blast
      then show ?thesis using True full assms avail_block_start
        by (auto simp: switch_block_def lw_at_def write_off_def)
    next
      case part: False
      then have off: "lw_block_offset w = p mod kBlockSize" "block_left p < kHeaderSize"
        using True lw_at_offset [OF assms] by blast+
      then have l: "?left = block_left p" by (simp add: block_left_def)
      have "(p + block_left p) mod kBlockSize = 0"
        unfolding block_left_def by (metis kBlockSize_def mod_add_left_eq le_add_diff_inverse mod_le_divisor mod_self zero_less_numeral)
      moreover have "0 < ?left" using part assms by (simp add: lw_at_def)
      moreover have "kBlockSize * Suc (lw_num_block w) = p + block_left p"
        using assms unfolding l [symmetric] by (auto simp: lw_at_def write_off_def)
      ultimately show ?thesis using True a A C assms off(2) unfolding l
        by (simp add: switch_block_def lw_at_def pad_def Let_def l write_off_def)
    qed
  qed
  then show "lw_at lib (switch_block w) (p + length (pad p))"
    "wf_contents (lw_dest (switch_block w)) = wf_contents (lw_dest w) @ pad p"
    "kBlockSize - lw_block_offset (switch_block w) - kHeaderSize = avail p"
    "lw_block_offset (switch_block w) + kHeaderSize \<le> kBlockSize"
    using block_left_pad [of p] by (simp_all add: avail_def) (simp_all add: block_left_def kHeaderSize_def)
qed

lemma AddRecord_loop_bytes:
  assumes "crc_lib_ok lib" "lw_at lib w p" "AddRecord_loop lib addr w d b = (s, w')"
  shows "s = OK \<and> wf_contents (lw_dest w') = wf_contents (lw_dest w) @ record_bytes p d b
    \<and> lw_at lib w' (p + length (record_bytes p d b))"
  using assms(2,3)
proof (induction p d b arbitrary: addr w s w' rule: record_bytes.induct)
  case (1 p d b)
  note sw = switch_block_pad [OF 1(2)]
  let ?n = "min (length d) (avail p)" and ?t = "fragment_type b (length d = min (length d) (avail p))"
  have n: "(if length d < avail p then length d else avail p) = ?n" by simp
  obtain s1 w1 where e: "EmitPhysicalRecord lib addr (switch_block w) ?t (take ?n d) = (s1, w1)" by fastforce
  have "lw_block_offset (switch_block w) + kHeaderSize + length (take ?n d) \<le> kBlockSize"
    using sw(3,4) unfolding length_take by linarith
  from EmitPhysicalRecord_frame [OF e assms(1) sw(1) _ this] fragment_type_range [of b "length d = ?n"]
  have w1: "s1 = OK" "lw_at lib w1 (p + length (pad p) + kHeaderSize + ?n)"
      "wf_contents (lw_dest w1) = wf_contents (lw_dest w) @ pad p @ frame ?t (take ?n d)"
    using sw(2) by simp_all
  have loop: "AddRecord_loop lib addr w d b
      = (if ?n < length d then AddRecord_loop lib (addr + of_nat ?n) w1 (drop ?n d) False else (OK, w1))"
    by (subst AddRecord_loop.simps) (simp only: Let_def sw(3) n e w1(1) prod.case simp_thms)
  show ?case
  proof (cases "?n < length d")
    case True
    let ?p = "p + length (pad p) + kHeaderSize + ?n"
    have "record_bytes p d b = pad p @ frame ?t (take ?n d) @ record_bytes ?p (drop ?n d) False"
      using True by (subst record_bytes.simps) (simp only: Let_def if_True)
    moreover have "AddRecord_loop lib (addr + of_nat ?n) w1 (drop ?n d) False = (s, w')"
      using 1(3) loop by (simp only: True if_True)
    then have "s = OK \<and> wf_contents (lw_dest w') = wf_contents (lw_dest w1) @ record_bytes ?p (drop ?n d) False
        \<and> lw_at lib w' (?p + length (record_bytes ?p (drop ?n d) False))"
      by (rule 1(1) [OF refl True w1(2)])
    ultimately show ?thesis using w1(3) by (simp add: add.assoc)
  next
    case False
    then have "record_bytes p d b = pad p @ frame ?t (take ?n d)"
      by (subst record_bytes.simps) (simp only: Let_def if_False append_Nil2)
    then show ?thesis using 1(3) loop w1 False by (simp add: add.assoc)
  qed
qed

lemma AddRecord_log_bytes:
  assumes "crc_lib_ok lib" "lw_at lib w p" "AddRecord lib addr w d = (s, w')"
  shows "s = OK \<and> wf_contents (lw_dest w') = wf_contents (lw_dest w) @ log_bytes p [d]
    \<and> lw_at lib w' (p + length (log_bytes p [d]))"
  using AddRecord_loop_bytes [OF assms(1,2) assms(3) [unfolded AddRecord_def]] by simp

subsection \<open>The reader parses them\<close>

text \<open>A reader at file position \<open>p\<close>: the buffer holds what follows up to the end of
  the block or of the file.\<close>

definition lr_at :: "Reader \<Rightarrow> bytes \<Rightarrow> nat \<Rightarrow> bool" where
  "lr_at r data p \<longleftrightarrow> fd_data (sq_fd (lr_file r)) = data \<and> fd_events (sq_fd (lr_file r)) = []
     \<and> sq_pos (lr_file r) = p + length (lr_buffer r)
     \<and> lr_buffer r = take (length (lr_buffer r)) (drop p data) \<and> p \<le> length data
     \<and> p mod kBlockSize + length (lr_buffer r) \<le> kBlockSize
     \<and> (if lr_eof r then p + length (lr_buffer r) = length data else (p + length (lr_buffer r)) mod kBlockSize = 0)
     \<and> lr_initial_offset r = 0 \<and> \<not> lr_resyncing r"

lemma le16_length: "n < 65536 \<Longrightarrow>
  unat ((ucast (of_nat n :: u8) :: u32) OR push_bit 8 (ucast (of_nat (n div 256) :: u8))) = n"
proof -
  assume n: "n < 65536"
  have "(ucast (of_nat n :: u8) :: u32) OR push_bit 8 (ucast (of_nat (n div 256) :: u8)) = of_nat n"
  proof (rule bit_word_eqI)
    fix k
    assume "k < LENGTH(32)"
    have "take_bit 16 n = n" using n by (simp add: take_bit_nat_eq_self_iff)
    then have "bit n k \<Longrightarrow> k < 16" by (metis bit_take_bit_iff)
    moreover have "n div 256 = drop_bit 8 n" by (simp add: drop_bit_eq_div)
    ultimately show "bit ((ucast (of_nat n :: u8) :: u32) OR push_bit 8 (ucast (of_nat (n div 256) :: u8))) k
        \<longleftrightarrow> bit (of_nat n :: u32) k"
      by (auto simp: bit_simps)
  qed
  then show ?thesis using n by (simp add: unat_of_nat)
qed

lemma record_type_cases:
  assumes "unat (t :: u8) \<in> {1..4}"
  shows "t = kFullType \<or> t = kFirstType \<or> t = kMiddleType \<or> t = kLastType"
proof -
  have "t = of_nat (unat t)" by simp
  moreover have "unat t = 1 \<or> unat t = 2 \<or> unat t = 3 \<or> unat t = 4" using assms by auto
  ultimately show ?thesis
    unfolding kFullType_def kFirstType_def kMiddleType_def kLastType_def
    by (metis of_nat_1 of_nat_numeral)
qed

lemmas record_types = kFullType_def kFirstType_def kMiddleType_def kLastType_def kZeroType_def

lemma record_type_signed:
  assumes "unat (t :: u8) \<in> {1..4}"
  shows "(scast t :: u32) = ucast t" "(ucast t :: u32) \<noteq> ucast kZeroType"
  using record_type_cases [OF assms] by (auto simp: record_types)

definition frame_head :: "u8 \<Rightarrow> bytes \<Rightarrow> bytes" where
  "frame_head t d = EncodeFixed32 (Mask (crc32c 0 (t # d))) @ [of_nat (length d), of_nat (length d div 256), t]"

lemma frame_split: "frame t d = frame_head t d @ d" "length (frame_head t d) = kHeaderSize"
  by (simp_all add: frame_def frame_head_def EncodeFixed32_def kHeaderSize_def)

lemma take_frame: "kHeaderSize \<le> k \<Longrightarrow> take k (frame t d @ tail) = frame_head t d @ take (k - kHeaderSize) (d @ tail)"
  unfolding frame_split append_assoc take_append [of k "frame_head t d"] by (simp add: frame_split)

lemma frame_head_nth:
  "(frame_head t d @ rest) ! 4 = of_nat (length d)" "(frame_head t d @ rest) ! 5 = of_nat (length d div 256)"
  "(frame_head t d @ rest) ! 6 = t" "drop 6 (frame_head t d @ rest) = t # rest"
  "DecodeFixed32 (frame_head t d @ rest) = Some (Mask (crc32c 0 (t # d)))"
  unfolding frame_head_def append_assoc DecodeFixed32_Encode by (simp_all add: EncodeFixed32_def)

lemma parse_frame:
  assumes "crc_lib_ok lib" "lr_buffer r = frame_head t d @ rest" "rest = take m (d @ tail)"
    "length d < 65536" "unat t \<in> {1..4}" "lr_initial_offset r = 0"
  shows "length d \<le> length rest \<Longrightarrow> parse_physical lib r res
      = (ucast t, d, r\<lparr>lr_buffer := drop (length d) rest, lr_addr := lr_addr r + of_nat (kHeaderSize + length d)\<rparr>)"
    and "length rest < length d \<Longrightarrow> lr_eof r \<Longrightarrow> parse_physical lib r res = (kEof, res, r\<lparr>lr_buffer := []\<rparr>)"
proof -
  note head = frame_head_nth [of t d rest] le16_length [OF assms(4)] record_type_signed [OF assms(5)]
  { assume le: "length d \<le> length rest"
    then have "take (length d) rest = d" using assms(3) by auto
    then show "parse_physical lib r res
      = (ucast t, d, r\<lparr>lr_buffer := drop (length d) rest, lr_addr := lr_addr r + of_nat (kHeaderSize + length d)\<rparr>)"
      using le assms(1,6) unfolding parse_physical_def Let_def assms(2) head
      by (simp add: Value_def Extend_eq frame_split record_type_signed(2) [OF assms(5)]) }
  { assume "length rest < length d" "lr_eof r"
    then show "parse_physical lib r res = (kEof, res, r\<lparr>lr_buffer := []\<rparr>)"
      unfolding parse_physical_def Let_def assms(2) head by (simp add: frame_split) }
qed

text \<open>Refilling the buffer moves to the next block; the rest of the old one is skipped.\<close>

lemma lr_refill:
  assumes "lr_at r data p" "length (lr_buffer r) < kHeaderSize" "\<not> lr_eof r"
  obtains r2 where "ReadPhysicalRecord lib r res = ReadPhysicalRecord lib r2 res" "lr_at r2 data (p + length (lr_buffer r))"
    "kHeaderSize \<le> length (lr_buffer r2) \<or> lr_eof r2" "lr_reports r2 = lr_reports r"
proof -
  let ?q = "p + length (lr_buffer r)"
  obtain s r1 where f: "refill r = (s, r1)" by fastforce
  let ?r2 = "if length (lr_buffer r1) < kBlockSize then r1\<lparr>lr_eof := True\<rparr> else r1"
  have q: "sq_pos (lr_file r) = ?q" "?q mod kBlockSize = 0" "?q \<le> length data"
    using assms by (auto simp: lr_at_def)
       (metis add.commute add_diff_inverse_nat drop_eq_Nil le_add2 length_drop length_take less_or_eq_imp_le linorder_not_less min.cobounded1 nat_add_left_cancel_le)
  have r1: "s = OK" "lr_buffer r1 = take kBlockSize (drop ?q data)" "fd_data (sq_fd (lr_file r1)) = data"
      "fd_events (sq_fd (lr_file r1)) = []" "sq_pos (lr_file r1) = ?q + length (lr_buffer r1)" "lr_reports r1 = lr_reports r"
      "lr_eof r1 = lr_eof r" "lr_initial_offset r1 = lr_initial_offset r" "lr_resyncing r1 = lr_resyncing r"
    using f assms(1) q by (auto simp: refill_def lr_at_def sq_Read_quiet min_def)
  have "ReadPhysicalRecord lib r res = ReadPhysicalRecord lib ?r2 res"
    using assms f r1(1) by (simp add: ReadPhysicalRecord.simps [of lib r])
  moreover have "lr_at ?r2 data ?q"
    using assms(1,3) q r1 unfolding lr_at_def by (auto simp: min_def)
  moreover have "kHeaderSize \<le> length (lr_buffer ?r2) \<or> lr_eof ?r2" by (auto simp: kBlockSize_def kHeaderSize_def)
  ultimately show ?thesis using that r1(6) by (simp split: if_splits)
qed

lemma lr_advance:
  assumes "lr_at r data p" "x \<le> length (lr_buffer r)"
  shows "lr_at (r\<lparr>lr_buffer := drop x (lr_buffer r), lr_addr := a\<rparr>) data (p + x)"
proof -
  let ?n = "length (lr_buffer r)"
  have b: "lr_buffer r = take ?n (drop p data)" "?n \<le> length data - p" "p \<le> length data"
    using assms(1) unfolding lr_at_def by (auto simp del: take_drop) (metis length_take length_drop min.cobounded1)
  have "drop x (lr_buffer r) = take (?n - x) (drop (p + x) data)"
    by (subst b(1)) (simp add: drop_take add.commute)
  moreover have "(p + x) mod kBlockSize \<le> p mod kBlockSize + x"
    by (metis mod_add_left_eq mod_less_eq_dividend)
  ultimately show ?thesis using assms b(2,3) unfolding lr_at_def by (auto simp del: take_drop)
qed

lemma frame_ready:
  assumes "crc_lib_ok lib" "lr_at r data p" "kHeaderSize \<le> length (lr_buffer r) \<or> lr_eof r"
    "drop p data = take k (frame t d @ tail)" "p mod kBlockSize + kHeaderSize + length d \<le> kBlockSize" "unat t \<in> {1..4}"
  shows "kHeaderSize + length d \<le> k \<Longrightarrow> \<exists>r'. ReadPhysicalRecord lib r res = (ucast t, d, r')
      \<and> lr_at r' data (p + kHeaderSize + length d) \<and> lr_reports r' = lr_reports r"
    and "k < kHeaderSize + length d \<Longrightarrow> \<exists>r'. ReadPhysicalRecord lib r res = (kEof, res, r') \<and> lr_reports r' = lr_reports r"
proof -
  let ?n = "length (lr_buffer r)"
  have d: "length d < 65536" using assms(5) by (simp add: kBlockSize_def kHeaderSize_def)
  have len: "length data - p = min k (kHeaderSize + length d + length tail)"
    using arg_cong [OF assms(4), of length] by simp
  have buf: "lr_buffer r = take ?n (drop p data)" using assms(2) by (simp add: lr_at_def)
  then have nk: "?n \<le> length data - p" by (metis length_drop length_take min.cobounded1)
  have full: "kHeaderSize + length d \<le> ?n" if "\<not> lr_eof r"
  proof -
    have "(p mod kBlockSize + ?n) mod kBlockSize = 0" "p mod kBlockSize + ?n \<le> kBlockSize" "0 < ?n"
      using that assms(2,3) by (auto simp: lr_at_def mod_add_left_eq kHeaderSize_def)
    then have "p mod kBlockSize + ?n = kBlockSize"
      by (metis add_is_0 le_neq_implies_less less_not_refl mod_less)
    then show ?thesis using assms(5) by linarith
  qed
  have all: "?n = length data - p" if "lr_eof r" using that assms(2) by (auto simp: lr_at_def)
  show "\<exists>r'. ReadPhysicalRecord lib r res = (kEof, res, r') \<and> lr_reports r' = lr_reports r" if k: "k < kHeaderSize + length d"
  proof -
    have e: "lr_eof r" "?n = k" using full nk len k all by fastforce+
    show ?thesis
    proof (cases "?n < kHeaderSize")
      case True
      then show ?thesis using e by (simp add: ReadPhysicalRecord.simps [of lib r])
    next
      case False
      have "lr_buffer r = take k (frame t d @ tail)"
        using buf unfolding assms(4) e(2) take_take by simp
      then have "lr_buffer r = frame_head t d @ take (k - kHeaderSize) (d @ tail)"
        using take_frame [of k t d tail] False e(2) by (simp only: not_less)
      from parse_frame(2) [OF assms(1) this refl d assms(6)] show ?thesis
        using e k False assms(2) by (simp add: ReadPhysicalRecord.simps [of lib r] lr_at_def)
    qed
  qed
  show "\<exists>r'. ReadPhysicalRecord lib r res = (ucast t, d, r')
      \<and> lr_at r' data (p + kHeaderSize + length d) \<and> lr_reports r' = lr_reports r" if k: "kHeaderSize + length d \<le> k"
  proof -
    have n: "kHeaderSize + length d \<le> ?n" using full all len k by (cases "lr_eof r") auto
    obtain m where m: "m = ?n - kHeaderSize" by blast
    let ?rest = "take m (d @ tail)"
    have b: "lr_buffer r = frame_head t d @ ?rest"
    proof -
      have "min ?n k = ?n" using nk len by linarith
      then have "lr_buffer r = take ?n (frame t d @ tail)" using buf unfolding assms(4) take_take by simp
      then show ?thesis using n m take_frame [of ?n t d tail] by simp
    qed
    then have "length d \<le> length ?rest" using n by (metis add_le_cancel_left frame_split(2) length_append)
    note parsed = parse_frame(1) [OF assms(1) b refl d assms(6) _ this]
    have "drop (kHeaderSize + length d) (lr_buffer r) = drop (length d) ?rest"
      unfolding b drop_append by (simp only: frame_split(2)) (simp add: frame_split(2))
    moreover have "ReadPhysicalRecord lib r res = parse_physical lib r res"
      using n by (subst ReadPhysicalRecord.simps) simp
    moreover have "lr_initial_offset r = 0" using assms(2) by (simp add: lr_at_def)
    ultimately have "ReadPhysicalRecord lib r res = (ucast t, d, r\<lparr>lr_buffer := drop (kHeaderSize + length d) (lr_buffer r),
        lr_addr := lr_addr r + of_nat (kHeaderSize + length d)\<rparr>)"
      using parsed by (simp only:)
    then show ?thesis using lr_advance [OF assms(2) n] by (simp add: add.assoc)
  qed
qed

lemma lr_at_block_end:
  assumes "lr_at r data p" "\<not> lr_eof r"
  shows "length (lr_buffer r) = block_left p \<or> length (lr_buffer r) = 0 \<and> p mod kBlockSize = 0"
proof -
  let ?n = "length (lr_buffer r)"
  have a: "(p mod kBlockSize + ?n) mod kBlockSize = 0" "p mod kBlockSize + ?n \<le> kBlockSize"
    using assms by (auto simp: lr_at_def mod_add_left_eq)
  show ?thesis
  proof (cases "p mod kBlockSize + ?n = kBlockSize")
    case False
    then show ?thesis using a by simp
  next
    case True
    then show ?thesis unfolding block_left_def by linarith
  qed
qed

lemma drop_of_take_append:
  assumes "drop p data = take k (xs @ ys)"
  shows "drop (p + length xs) data = take (k - length xs) ys"
proof -
  have "drop (length xs) (drop p data) = take (k - length xs) (drop (length xs) (xs @ ys))"
    unfolding assms by (rule drop_take)
  then show ?thesis by (simp add: add.commute)
qed

lemma fragment_step:
  assumes "crc_lib_ok lib" "lr_at r data p" "drop p data = take k (pad p @ frame t d @ tail)"
    "length d \<le> avail p" "unat t \<in> {1..4}"
  shows "length (pad p) + kHeaderSize + length d \<le> k \<Longrightarrow> \<exists>r'. ReadPhysicalRecord lib r res = (ucast t, d, r')
      \<and> lr_at r' data (p + length (pad p) + kHeaderSize + length d) \<and> lr_reports r' = lr_reports r" (is "_ \<Longrightarrow> ?A")
    and "k < length (pad p) + kHeaderSize + length d \<Longrightarrow>
      \<exists>r'. ReadPhysicalRecord lib r res = (kEof, res, r') \<and> lr_reports r' = lr_reports r" (is "_ \<Longrightarrow> ?B")
proof -
  let ?n = "length (lr_buffer r)" and ?q = "p + length (pad p)"
  have fits: "?q mod kBlockSize + kHeaderSize + length d \<le> kBlockSize" using assms(4) avail_fits [of p] by linarith
  have dq: "drop ?q data = take (k - length (pad p)) (frame t d @ tail)"
    using drop_of_take_append [OF assms(3)] .
  have main: "(length (pad p) + kHeaderSize + length d \<le> k \<longrightarrow> ?A) \<and> (k < length (pad p) + kHeaderSize + length d \<longrightarrow> ?B)"
    if r2: "ReadPhysicalRecord lib r res = ReadPhysicalRecord lib r2 res" "lr_at r2 data ?q"
      "kHeaderSize \<le> length (lr_buffer r2) \<or> lr_eof r2" "lr_reports r2 = lr_reports r" for r2
    using frame_ready [OF assms(1) r2(2,3) dq fits assms(5), of res] r2(1,4) unfolding add.assoc [of "length (pad p)"]
    by (cases "length (pad p) + (kHeaderSize + length d) \<le> k")
      (simp_all add: le_diff_conv2 less_diff_conv kHeaderSize_def ac_simps)
  have "(length (pad p) + kHeaderSize + length d \<le> k \<longrightarrow> ?A) \<and> (k < length (pad p) + kHeaderSize + length d \<longrightarrow> ?B)"
  proof (cases "kHeaderSize \<le> ?n \<or> lr_eof r")
    case True
    show ?thesis
    proof (cases "pad p = []")
      case True
      then show ?thesis using main [OF refl] \<open>kHeaderSize \<le> ?n \<or> lr_eof r\<close> assms(2) by simp
    next
      case False
      then have left: "length (pad p) = block_left p" "block_left p < kHeaderSize"
        by (simp_all add: pad_def split: if_splits)
      then have "?n \<le> block_left p" using assms(2) by (auto simp: lr_at_def block_left_def)
      then have e: "lr_eof r" "?n < kHeaderSize" using True left by auto
      then have "?B" by (simp add: ReadPhysicalRecord.simps [of lib r])
      moreover have "length data - p \<le> block_left p" using assms(2) e(1) \<open>?n \<le> block_left p\<close> by (auto simp: lr_at_def)
      then have "k \<le> length (pad p)" using arg_cong [OF assms(3), of length] left by (simp add: kHeaderSize_def min_def split: if_splits)
      ultimately show ?thesis by (simp add: kHeaderSize_def)
    qed
  next
    case False
    then have n: "?n < kHeaderSize" "\<not> lr_eof r" by auto
    have "?n = length (pad p)"
      using lr_at_block_end [OF assms(2) n(2)] n(1) by (auto simp: pad_def block_left_def kBlockSize_def kHeaderSize_def)
    then show ?thesis using lr_refill [OF assms(2) n, of lib res] main by metis
  qed
  then show "length (pad p) + kHeaderSize + length d \<le> k \<Longrightarrow> ?A" "k < length (pad p) + kHeaderSize + length d \<Longrightarrow> ?B"
    by blast+
qed

lemma lr_at_last_record [simp]: "lr_at (r\<lparr>lr_last_record_offset := x\<rparr>) data p = lr_at r data p"
  by (simp add: lr_at_def)

lemmas record_type_words = record_types kEof_def kBadRecord_def kMaxRecordType_def

lemma loop_eof:
  assumes "ReadPhysicalRecord lib r (fs_fragment st) = (kEof, f, r1)"
  shows "\<exists>r'. ReadRecord_loop lib r st = (False, [], r') \<and> lr_reports r' = lr_reports r1"
  using assms by (subst ReadRecord_loop.simps) (simp add: Let_def)

lemma loop_fragment:
  assumes "ReadPhysicalRecord lib r (fs_fragment st) = (ucast (fragment_type b e), f, r1)" "lr_at r1 data p" "fs_in st = (\<not> b)"
  shows "e \<Longrightarrow> \<exists>r'. ReadRecord_loop lib r st = (True, (if b then [] else fs_scratch st) @ f, r')
      \<and> lr_at r' data p \<and> lr_reports r' = lr_reports r1"
    and "\<not> e \<Longrightarrow> \<exists>st'. ReadRecord_loop lib r st = ReadRecord_loop lib r1 st' \<and> fs_in st'
      \<and> fs_scratch st' = (if b then [] else fs_scratch st) @ f"
proof -
  have s: "\<not> lr_resyncing r1" using assms(2) by (simp add: lr_at_def)
  show "e \<Longrightarrow> \<exists>r'. ReadRecord_loop lib r st = (True, (if b then [] else fs_scratch st) @ f, r')
      \<and> lr_at r' data p \<and> lr_reports r' = lr_reports r1"
    using assms s by (subst ReadRecord_loop.simps) (simp add: Let_def fragment_type_def record_type_words)
  show "\<not> e \<Longrightarrow> \<exists>st'. ReadRecord_loop lib r st = ReadRecord_loop lib r1 st' \<and> fs_in st'
      \<and> fs_scratch st' = (if b then [] else fs_scratch st) @ f"
    using assms s by (subst ReadRecord_loop.simps) (auto simp: Let_def fragment_type_def record_type_words)
qed

lemma ReadRecord_loop_record:
  assumes "crc_lib_ok lib" "lr_at r data p" "drop p data = take k (record_bytes p d b @ tail)" "fs_in st = (\<not> b)"
  shows "(length (record_bytes p d b) \<le> k \<longrightarrow> (\<exists>r'. ReadRecord_loop lib r st = (True, (if b then [] else fs_scratch st) @ d, r')
      \<and> lr_at r' data (p + length (record_bytes p d b)) \<and> lr_reports r' = lr_reports r))
    \<and> (k < length (record_bytes p d b) \<longrightarrow> (\<exists>r'. ReadRecord_loop lib r st = (False, [], r') \<and> lr_reports r' = lr_reports r))"
  using assms(2-4)
proof (induction p d b arbitrary: r k st rule: record_bytes.induct)
  case (1 p d b)
  define n where "n = min (length d) (avail p)"
  define t where "t = fragment_type b (length d = n)"
  define p' where "p' = p + length (pad p) + kHeaderSize + n"
  define more where "more = (if n < length d then record_bytes p' (drop n d) False else [])"
  have n: "n \<le> length d" "length (take n d) = n" "length (take n d) \<le> avail p" by (simp_all add: n_def)
  have rb: "record_bytes p d b = pad p @ frame t (take n d) @ more"
    unfolding more_def t_def p'_def n_def by (subst record_bytes.simps) (simp only: Let_def)
  have len: "length (record_bytes p d b) = length (pad p) + kHeaderSize + n + length more" using n by (simp add: rb)
  have d1: "drop p data = take k (pad p @ frame t (take n d) @ more @ tail)" using 1(3) by (simp only: rb append_assoc)
  note step = fragment_step [OF assms(1) 1(2) d1 n(3) fragment_type_range [of b "length d = n", folded t_def],
      where res = "fs_fragment st", unfolded n(2)]
  show ?case
  proof (cases "length (pad p) + kHeaderSize + n \<le> k")
    case False
    then show ?thesis using step(2) loop_eof [of lib r st] len by fastforce
  next
    case True
    obtain r1 where r1: "ReadPhysicalRecord lib r (fs_fragment st) = (ucast t, take n d, r1)" "lr_at r1 data p'"
        "lr_reports r1 = lr_reports r"
      using step(1) [OF True] by (auto simp: p'_def)
    note frag = loop_fragment [OF r1(1) [unfolded t_def] r1(2) 1(4)]
    show ?thesis
    proof (cases "n < length d")
      case False
      then have "length d = n" "take n d = d" "more = []" using n by (simp_all add: more_def)
      then show ?thesis using frag(1) r1(3) len True by (simp add: p'_def add.assoc)
    next
      case more: True
      then obtain st' where st': "ReadRecord_loop lib r st = ReadRecord_loop lib r1 st'" "fs_in st'"
          "fs_scratch st' = (if b then [] else fs_scratch st) @ take n d"
        using frag(2) by auto
      have "drop p' data = take (k - (length (pad p) + kHeaderSize + n)) (record_bytes p' (drop n d) False @ tail)"
        using drop_of_take_append [of p data k "pad p @ frame t (take n d)" "more @ tail"] d1 more n
        by (simp add: p'_def more_def add.assoc)
      note IH = 1(1) [OF n_def more [folded n_def] r1(2) [unfolded p'_def] this [unfolded p'_def], of st', folded p'_def]
      have m: "more = record_bytes p' (drop n d) False" using more by (simp add: more_def)
      have "length (record_bytes p d b) \<le> k \<longleftrightarrow> length more \<le> k - (length (pad p) + kHeaderSize + n)"
        "k < length (record_bytes p d b) \<longleftrightarrow> k - (length (pad p) + kHeaderSize + n) < length more"
        "p + length (record_bytes p d b) = p' + length more"
        unfolding len p'_def using True by linarith+
      then show ?thesis using IH st' r1(3) unfolding m by simp
    qed
  qed
qed

lemma ReadRecord_record:
  assumes "crc_lib_ok lib" "lr_at r data p" "drop p data = take k (record_bytes p d True @ tail)"
  shows "length (record_bytes p d True) \<le> k \<Longrightarrow> \<exists>r'. ReadRecord lib r = (True, d, r')
      \<and> lr_at r' data (p + length (record_bytes p d True)) \<and> lr_reports r' = lr_reports r"
    and "k < length (record_bytes p d True) \<Longrightarrow> \<exists>r'. ReadRecord lib r = (False, [], r') \<and> lr_reports r' = lr_reports r"
  using ReadRecord_loop_record [OF assms, of "\<lparr>fs_in = False, fs_scratch = [], fs_offset = 0, fs_fragment = []\<rparr>"] assms(2)
  by (auto simp: ReadRecord_def lr_at_def)

text \<open>The loop every client runs: read records until \<open>ReadRecord\<close> returns false.\<close>

inductive reads_all :: "crc_lib \<Rightarrow> Reader \<Rightarrow> bytes list \<Rightarrow> Reader \<Rightarrow> bool" for lib where
  reads_none: "ReadRecord lib r = (False, d, r') \<Longrightarrow> reads_all lib r [] r'"
| reads_one: "ReadRecord lib r = (True, d, r1) \<Longrightarrow> reads_all lib r1 ds r' \<Longrightarrow> reads_all lib r (d # ds) r'"

lemma reads_all_unique: "reads_all lib r ds r' \<Longrightarrow> reads_all lib r es r'' \<Longrightarrow> ds = es \<and> r' = r''"
proof (induction arbitrary: es r'' rule: reads_all.induct)
  case (reads_none r d r')
  from reads_none.prems show ?case
  proof (cases rule: reads_all.cases)
    case (reads_none d')
    then show ?thesis using \<open>ReadRecord lib r = (False, d, r')\<close> by simp
  next
    case (reads_one d' r1 ds)
    then show ?thesis using \<open>ReadRecord lib r = (False, d, r')\<close> by simp
  qed
next
  case (reads_one r d r1 ds r')
  note hyp = reads_one.hyps(1) and IH = reads_one.IH
  from reads_one.prems show ?case
  proof (cases rule: reads_all.cases)
    case (reads_none d')
    then show ?thesis using hyp by simp
  next
    case (reads_one d' r1' ds')
    then show ?thesis using hyp IH [of ds' r''] by simp
  qed
qed

lemma record_bytes_nonempty: "0 < length (record_bytes p d b)"
  by (subst record_bytes.simps) (simp add: Let_def kHeaderSize_def)

lemma reads_prefix:
  assumes "crc_lib_ok lib" "lr_at r data p" "drop p data = take k (log_bytes p ds)"
  shows "\<exists>m r'. reads_all lib r (take m ds) r' \<and> m \<le> length ds \<and> lr_reports r' = lr_reports r
    \<and> (\<forall>i \<le> length ds. length (log_bytes p (take i ds)) \<le> k \<longleftrightarrow> i \<le> m)"
  using assms(2,3)
proof (induction ds arbitrary: r p k)
  case Nil
  then have "drop p data = take 0 (record_bytes p [] True @ [])" by simp
  from ReadRecord_record(2) [OF assms(1) Nil(1) this record_bytes_nonempty]
  obtain r' where "ReadRecord lib r = (False, [], r')" "lr_reports r' = lr_reports r" by blast
  then show ?case by (intro exI [of _ 0]) (auto intro: reads_none)
next
  case (Cons d ds)
  let ?l = "length (record_bytes p d True)"
  have d: "drop p data = take k (record_bytes p d True @ log_bytes (p + ?l) ds)" using Cons(3) by simp
  show ?case
  proof (cases "?l \<le> k")
    case False
    then obtain r' where "ReadRecord lib r = (False, [], r')" "lr_reports r' = lr_reports r"
      using ReadRecord_record(2) [OF assms(1) Cons(2) d] by force
    then show ?thesis using False
      by (intro exI [of _ 0] exI [of _ r']) (auto intro: reads_none simp: take_Cons' )
  next
    case True
    then obtain r1 where r1: "ReadRecord lib r = (True, d, r1)" "lr_at r1 data (p + ?l)" "lr_reports r1 = lr_reports r"
      using ReadRecord_record(1) [OF assms(1) Cons(2) d] by blast
    from Cons.IH [OF r1(2) drop_of_take_append [OF d]]
    obtain m r' where m: "reads_all lib r1 (take m ds) r'" "m \<le> length ds" "lr_reports r' = lr_reports r1"
        "\<forall>i \<le> length ds. length (log_bytes (p + ?l) (take i ds)) \<le> k - ?l \<longleftrightarrow> i \<le> m" by blast
    have "length (log_bytes p (take i (d # ds))) \<le> k \<longleftrightarrow> i \<le> Suc m" if "i \<le> length (d # ds)" for i
      using that m(4) True by (cases i) auto
    moreover have "reads_all lib r (take (Suc m) (d # ds)) r'" using r1(1) m(1) by (auto intro: reads_one)
    ultimately show ?thesis using m(2,3) r1(3) by (intro exI [of _ "Suc m"] exI [of _ r']) auto
  qed
qed

lemma log_bytes_append:
  "log_bytes p (xs @ ys) = log_bytes p xs @ log_bytes (p + length (log_bytes p xs)) ys"
  by (induction xs arbitrary: p) (simp_all add: add.assoc)

text \<open>Adding records one after the other, each at some address, stopping at an error.\<close>

fun AddRecords :: "crc_lib \<Rightarrow> Writer \<Rightarrow> (u64 \<times> bytes) list \<Rightarrow> Status \<times> Writer" where
  "AddRecords lib w [] = (OK, w)"
| "AddRecords lib w ((addr, d) # rs) =
     (let (s, w) = AddRecord lib addr w d in if s = OK then AddRecords lib w rs else (s, w))"

lemma AddRecords_log_bytes:
  assumes "crc_lib_ok lib" "lw_at lib w p" "AddRecords lib w rs = (s, w')"
  shows "s = OK \<and> wf_contents (lw_dest w') = wf_contents (lw_dest w) @ log_bytes p (map snd rs)"
  using assms(2,3)
proof (induction rs arbitrary: w p)
  case (Cons r rs)
  obtain addr d s1 w1 where r: "r = (addr, d)" and a: "AddRecord lib addr w d = (s1, w1)" by (metis surj_pair)
  from AddRecord_log_bytes [OF assms(1) Cons(2) a] show ?case
    using Cons.IH [of w1 "p + length (record_bytes p d True)"] Cons(3) by (simp add: r a)
qed simp

lemma lw_at_Writer_at:
  "wf_inv f \<Longrightarrow> calm (wf_fd f) \<Longrightarrow> lw_at lib (Writer_at lib addr f n) n"
  by (auto simp: lw_at_def Writer_at_def write_off_def kBlockSize_def)

lemma lr_at_Reader_new:
  "lr_at (Reader_new \<lparr>sq_fd = \<lparr>fd_data = data, fd_events = []\<rparr>, sq_pos = 0\<rparr> reporter checksum base 0) data 0"
  by (simp add: lr_at_def Reader_new_def)

subsection \<open>Properties\<close>

text \<open>
  C1: Crash recovery of a log. Records are added to a log, new or reopened, on a disk
  that may shorten or interrupt writes but does not fail them. Every \<open>AddRecord\<close>
  reports success, and if any number \<open>k\<close> of bytes of the file survive, reading it back
  yields exactly the records that lie in the surviving part completely, in order, and
  reports no corruption.
\<close>

theorem log_crash_recovery:
  assumes "crc_lib_ok lib" "wf_inv f" "calm (wf_fd f)" "wf_contents f = log_bytes 0 old"
    "AddRecords lib (Writer_at lib addr f (length (wf_contents f))) rs = (s, w)"
  shows "s = OK \<and> (\<exists>m r'. reads_all lib
        (Reader_new \<lparr>sq_fd = \<lparr>fd_data = take k (wf_contents (lw_dest w)), fd_events = []\<rparr>, sq_pos = 0\<rparr>
           reporter checksum base 0)
        (take m (old @ map snd rs)) r' \<and> lr_reports r' = []
      \<and> (\<forall>i \<le> length (old @ map snd rs). length (log_bytes 0 (take i (old @ map snd rs))) \<le> k \<longleftrightarrow> i \<le> m))"
proof -
  let ?all = "old @ map snd rs"
  have "s = OK \<and> wf_contents (lw_dest w) = wf_contents f @ log_bytes (length (wf_contents f)) (map snd rs)"
    using AddRecords_log_bytes [OF assms(1) lw_at_Writer_at [OF assms(2,3)] assms(5)] by (simp add: Writer_at_def)
  then have w: "s = OK" "wf_contents (lw_dest w) = log_bytes 0 ?all" by (simp_all add: assms(4) log_bytes_append)
  let ?r = "Reader_new \<lparr>sq_fd = \<lparr>fd_data = take k (log_bytes 0 ?all), fd_events = []\<rparr>, sq_pos = 0\<rparr> reporter checksum base 0"
  have "drop 0 (take k (log_bytes 0 ?all)) = take k (log_bytes 0 ?all)" by simp
  from reads_prefix [OF assms(1) lr_at_Reader_new this, of reporter checksum base]
  have "\<exists>m r'. reads_all lib ?r (take m ?all) r' \<and> lr_reports r' = []
      \<and> (\<forall>i \<le> length ?all. length (log_bytes 0 (take i ?all)) \<le> k \<longleftrightarrow> i \<le> m)"
    by (auto simp: Reader_new_def)
  then show ?thesis using w by simp
qed

lemma record_bytes_short: "length d \<le> 32761 \<Longrightarrow> record_bytes 0 d True = frame kFullType d"
  by (subst record_bytes.simps) (simp add: Let_def avail_block_start kBlockSize_def kHeaderSize_def fragment_type_def)

theorem log_crash_recovery_witness:
  "\<exists>w r'. AddRecords None (Writer_at None 0 \<lparr>wf_fd = \<lparr>fd_data = [], fd_events = [IoIntr]\<rparr>, wf_buf = []\<rparr> 0) [(5, [1, 2])] = (OK, w)
    \<and> reads_all None (Reader_new \<lparr>sq_fd = \<lparr>fd_data = take 9 (wf_contents (lw_dest w)), fd_events = []\<rparr>, sq_pos = 0\<rparr>
         True True 0 0) [[1, 2]] r'"
proof -
  let ?f = "\<lparr>wf_fd = \<lparr>fd_data = [], fd_events = [IoIntr]\<rparr>, wf_buf = []\<rparr>"
  obtain s w where a: "AddRecords None (Writer_at None 0 ?f (length (wf_contents ?f))) [(5, [1, 2])] = (s, w)" by fastforce
  have h: "crc_lib_ok None" "wf_inv ?f" "calm (wf_fd ?f)" "wf_contents ?f = log_bytes 0 []"
    by (simp_all add: crc_lib_ok_def wf_inv_def calm_def wf_contents_def)
  from log_crash_recovery [OF h a, of 9 True True 0]
  obtain m r' where m: "s = OK" "reads_all None (Reader_new \<lparr>sq_fd = \<lparr>fd_data = take 9 (wf_contents (lw_dest w)), fd_events = []\<rparr>, sq_pos = 0\<rparr>
         True True 0 0) (take m [[1, 2]]) r'" "length (log_bytes 0 [[1, 2]]) \<le> 9 \<longleftrightarrow> 1 \<le> m"
    by (auto dest: spec [of _ 1])
  have "1 \<le> m" using m(3) by (simp add: record_bytes_short kHeaderSize_def)
  then have "take m [[1, 2]] = [[1, 2 :: u8]]" by simp
  then show ?thesis using a m(1,2) by (auto simp: wf_contents_def)
qed

text \<open>
  C28: Corruption of one byte. If any single byte of the payload of a physical record is
  changed, the reader with checksums on does not deliver the record: it drops the
  rest of its buffer and reports a checksum mismatch.
\<close>

theorem corrupt_byte_detected:
  assumes "crc_lib_ok lib" "lr_checksum r" "lr_buffer r = frame_head t d @ d[i := b] @ rest"
    "i < length d" "b \<noteq> d ! i" "length d < 65536" "unat t \<in> {1..4}"
  shows "ReadPhysicalRecord lib r res = (kBadRecord, res,
     ReportCorruption (r\<lparr>lr_buffer := []\<rparr>) (of_nat (length (lr_buffer r))) ''checksum mismatch'')"
proof -
  note head = frame_head_nth [of t d "d[i := b] @ rest"] le16_length [OF assms(6)]
  have "crc32c 0 (t # d[i := b]) \<noteq> crc32c 0 (t # d)" using crc32c_update [OF assms(4,5), of 0 "[t]"] by simp
  then have "parse_physical lib r res = (kBadRecord, res,
     ReportCorruption (r\<lparr>lr_buffer := []\<rparr>) (of_nat (length (lr_buffer r))) ''checksum mismatch'')"
    using assms(1,2) unfolding parse_physical_def Let_def assms(3) head
    by (simp add: Value_def Extend_eq frame_split record_type_signed [OF assms(7)])
  then show ?thesis by (subst ReadPhysicalRecord.simps) (simp add: assms(3) frame_split)
qed

theorem corrupt_byte_detected_witness:
  "fst (ReadPhysicalRecord None ((Reader_new \<lparr>sq_fd = \<lparr>fd_data = [], fd_events = []\<rparr>, sq_pos = 0\<rparr> True True 0 0)\<lparr>lr_buffer := frame_head 1 [1, 2, 3] @ [1, 9, 3]\<rparr>) []) = kBadRecord"
  using corrupt_byte_detected [of None "(Reader_new \<lparr>sq_fd = \<lparr>fd_data = [], fd_events = []\<rparr>, sq_pos = 0\<rparr> True True 0 0)\<lparr>lr_buffer := frame_head 1 [1, 2, 3] @ [1, 9, 3]\<rparr>"
      1 "[1, 2, 3]" 1 9 "[]" "[]"]
  by (simp add: crc_lib_ok_def Reader_new_def)

end
