(* ===== verification/LogRandom.thy ===== *)
theory LogRandom
  imports LogRoundtrip
begin

text \<open>
  Random access to a block-framed log (\<open>RandomWriter\<close> and \<open>RandomReader\<close> of
  \<open>leveldb/db/log_writer.cc\<close> and \<open>log_reader.cc\<close>): reading the record that
  starts at a known position, and overwriting the beginning of its payload in place
  without touching the headers, which is how the head updates the transaction ids of
  a series. The reader does not look at how many bytes a read returned, so what it
  sees past the end of the file is what an earlier read left in its buffer; the model
  keeps that buffer. \<open>None\<close> is undefined behaviour or a loop that does not end.
\<close>

subsection \<open>RandomWriter\<close>

text \<open>The position of a write is computed in \<open>int\<close>, whatever the width of the file
  offset: \<open>num_block_\<close> is narrowed from \<open>uint64_t\<close> when it is set, and a product or
  sum outside the range of \<open>int\<close> is undefined. The block offset stays between 0 and
  the block size and is kept as a natural number.\<close>

definition int_fits :: "int \<Rightarrow> bool" where
  "int_fits x \<longleftrightarrow> - (2 ^ 31) \<le> x \<and> x < 2 ^ 31"

lemma sint_of_nat_small: "n < 2 ^ 31 \<Longrightarrow> sint (of_nat n :: u32) = int n"
  by (simp add: sint_uint unsigned_of_nat take_bit_nat_eq_self signed_take_bit_int_eq_self)

record RandomWriter =
  rw_dest :: Fd
  rw_block_offset :: nat
  rw_num_block :: int
  rw_type_crc :: "u32 list"

definition RandomWriter_new :: "crc_lib \<Rightarrow> u64 \<Rightarrow> Fd \<Rightarrow> RandomWriter" where
  "RandomWriter_new lib addr dest =
     \<lparr>rw_dest = dest, rw_block_offset = 0, rw_num_block = 0, rw_type_crc = InitTypeCrc lib addr\<rparr>"

text \<open>\<open>num_block_ * kBlockSize + block_offset_ + k\<close> as the \<open>uint64_t\<close> argument of
  \<open>Write\<close>.\<close>

definition rw_position :: "RandomWriter \<Rightarrow> nat \<Rightarrow> nat option" where
  "rw_position w k =
     (let block = rw_num_block w * int kBlockSize;
          start = block + int (rw_block_offset w)
      in if int_fits block \<and> int_fits start \<and> int_fits (start + int k) then Some (nat ((start + int k) mod 2 ^ 64))
         else None)"

definition random_EmitPhysicalRecord ::
    "crc_lib \<Rightarrow> u64 \<Rightarrow> RandomWriter \<Rightarrow> u8 \<Rightarrow> bytes \<Rightarrow> bool \<Rightarrow> (Status \<times> RandomWriter) option" where
  "random_EmitPhysicalRecord lib addr w t d write_header =
     do { (s, fd) \<leftarrow> (if write_header
             then do { pos \<leftarrow> rw_position w 0; Some (rw_Write (rw_dest w) pos (record_header lib addr (rw_type_crc w) t d)) }
             else Some (OK, rw_dest w));
          (s, fd) \<leftarrow> (if s = OK then do { pos \<leftarrow> rw_position w kHeaderSize; Some (rw_Write fd pos d) }
             else Some (s, fd));
          Some (s, w\<lparr>rw_dest := fd, rw_block_offset := rw_block_offset w + (kHeaderSize + length d)\<rparr>) }"

definition random_switch_block :: "RandomWriter \<Rightarrow> RandomWriter option" where
  "random_switch_block w =
     (if kBlockSize - rw_block_offset w < kHeaderSize
      then if int_fits (rw_num_block w + 1)
           then Some (w\<lparr>rw_block_offset := 0, rw_num_block := rw_num_block w + 1\<rparr>) else None
      else Some w)"

lemma random_EmitPhysicalRecord_offset:
  "random_EmitPhysicalRecord lib addr w t d h = Some (s, w') \<Longrightarrow>
     rw_block_offset w' = rw_block_offset w + kHeaderSize + length d"
  by (auto simp: random_EmitPhysicalRecord_def split: bind_splits prod.splits if_splits)

text \<open>Room for payload behind a header in the block the next fragment goes to.\<close>

definition rw_room :: "RandomWriter \<Rightarrow> nat" where
  "rw_room w = (if kBlockSize - rw_block_offset w < kHeaderSize then kBlockSize - kHeaderSize
     else kBlockSize - rw_block_offset w - kHeaderSize)"

lemma random_switch_block_room:
  "random_switch_block w = Some w' \<Longrightarrow> kBlockSize - rw_block_offset w' - kHeaderSize = rw_room w"
  by (auto simp: random_switch_block_def rw_room_def split: if_splits)

lemma rw_room_full: "kBlockSize - rw_block_offset w < kHeaderSize \<Longrightarrow> rw_room w = 32761"
  by (simp add: rw_room_def kBlockSize_def kHeaderSize_def)

function random_AddRecord_loop ::
    "crc_lib \<Rightarrow> u64 \<Rightarrow> RandomWriter \<Rightarrow> bytes \<Rightarrow> bool \<Rightarrow> bool \<Rightarrow> (Status \<times> RandomWriter) option" where
  "random_AddRecord_loop lib addr w d at_begin write_header =
     (case random_switch_block w of None \<Rightarrow> None
      | Some w1 \<Rightarrow>
          (let avail = kBlockSize - rw_block_offset w1 - kHeaderSize;
               n = (if length d < avail then length d else avail)
           in case random_EmitPhysicalRecord lib addr w1 (fragment_type at_begin (length d = n)) (take n d) write_header of
                None \<Rightarrow> None
              | Some (s, w2) \<Rightarrow>
                  if s = OK \<and> n < length d
                  then random_AddRecord_loop lib (addr + of_nat n) w2 (drop n d) False write_header
                  else Some (s, w2)))"
  by pat_completeness auto
termination
proof (relation "measure (\<lambda>(lib, addr, w, d, b, h). 2 * length d + (if rw_room w = 0 then 1 else 0))")
  fix lib addr w d at_begin write_header w1 avail n s_w s w2
  assume a: "random_switch_block w = Some w1" "avail = kBlockSize - rw_block_offset w1 - kHeaderSize"
    "n = (if length d < avail then length d else avail)"
    "random_EmitPhysicalRecord lib addr w1 (fragment_type at_begin (length d = n)) (take n d) write_header = Some s_w"
    "(s, w2) = s_w" "s = OK \<and> n < length d"
  then have n: "n = avail" "avail = rw_room w" using random_switch_block_room [OF a(1)] by (auto split: if_splits)
  have "rw_block_offset w2 = rw_block_offset w1 + kHeaderSize + n"
    using random_EmitPhysicalRecord_offset a(4) a(6) unfolding a(5) [symmetric] by fastforce
  then have "avail = 0 \<Longrightarrow> rw_room w2 \<noteq> 0"
    using a(2) n(1) rw_room_full [of w2] by (simp add: kBlockSize_def kHeaderSize_def)
  then show "((lib, addr + of_nat n, w2, drop n d, False, write_header), lib, addr, w, d, at_begin, write_header)
      \<in> measure (\<lambda>(lib, addr, w, d, b, h). 2 * length d + (if rw_room w = 0 then 1 else 0))"
    using n a(6) by (cases "avail = 0") auto
qed simp

declare random_AddRecord_loop.simps [simp del]

definition random_AddRecord ::
    "crc_lib \<Rightarrow> u64 \<Rightarrow> RandomWriter \<Rightarrow> nat \<Rightarrow> bytes \<Rightarrow> bool \<Rightarrow> (Status \<times> RandomWriter) option" where
  "random_AddRecord lib addr w pos d write_header =
     random_AddRecord_loop lib addr
       (w\<lparr>rw_block_offset := pos mod kBlockSize, rw_num_block := sint (of_nat (pos div kBlockSize) :: u32)\<rparr>)
       d True write_header"

subsection \<open>RandomReader\<close>

text \<open>\<open>rr_store\<close> is the part of \<open>backing_store_\<close> that has been written.\<close>

record RandomReader =
  rr_file :: Fd
  rr_store :: bytes
  rr_offset :: nat

definition RandomReader_new :: "Fd \<Rightarrow> RandomReader" where
  "RandomReader_new file = \<lparr>rr_file = file, rr_store = [], rr_offset = 0\<rparr>"

text \<open>A read into the backing store; more than a block would overrun it.\<close>

definition store_read :: "RandomReader \<Rightarrow> nat \<Rightarrow> nat \<Rightarrow> (Status \<times> RandomReader) option" where
  "store_read r off n =
     (let (s, d, fd) = rw_Read (rr_file r) off n
      in if length d \<le> kBlockSize
         then Some (s, r\<lparr>rr_file := fd, rr_store := d @ drop (length d) (rr_store r)\<rparr>) else None)"

definition random_ReadPhysicalRecord :: "RandomReader \<Rightarrow> bytes \<Rightarrow> (u32 \<times> bytes \<times> RandomReader) option" where
  "random_ReadPhysicalRecord r result =
     do { (s, r) \<leftarrow> store_read r (rr_offset r) kHeaderSize;
          if s \<noteq> OK then Some (kEof, result, r)
          else if length (rr_store r) < kHeaderSize then None
          else do {
            let header = rr_store r;
            let type = (scast (header ! 6) :: u32);
            let len = unat ((ucast (header ! 4) :: u32) OR push_bit 8 (ucast (header ! 5)));
            if type = ucast kZeroType \<and> len = 0
            then Some (kBadRecord, result, r\<lparr>rr_offset := rr_offset r + (kHeaderSize + len)\<rparr>)
            else do {
              (s, r) \<leftarrow> store_read r (rr_offset r + kHeaderSize) len;
              if s \<noteq> OK then Some (kEof, result, r)
              else if length (rr_store r) < len then None
              else Some (type, take len (rr_store r), r\<lparr>rr_offset := rr_offset r + (kHeaderSize + len)\<rparr>) } } }"

partial_function (option) random_ReadRecord_loop ::
    "RandomReader \<Rightarrow> bool \<Rightarrow> bytes \<Rightarrow> bytes \<Rightarrow> (bool \<times> bytes \<times> RandomReader) option" where
  "random_ReadRecord_loop r in_fragmented scratch fragment =
     do { (t, fragment, r) \<leftarrow> random_ReadPhysicalRecord r fragment;
          if t = ucast kFullType then Some (True, fragment, r)
          else if t = ucast kFirstType then random_ReadRecord_loop r True fragment fragment
          else if t = ucast kMiddleType \<and> in_fragmented then
            random_ReadRecord_loop r True (scratch @ fragment) fragment
          else if t = ucast kLastType \<and> in_fragmented then Some (True, scratch @ fragment, r)
          else Some (False, [], r) }"

definition random_ReadRecord :: "RandomReader \<Rightarrow> nat \<Rightarrow> (bool \<times> bytes \<times> RandomReader) option" where
  "random_ReadRecord r pos =
     random_ReadRecord_loop
       (r\<lparr>rr_offset := (if kBlockSize - pos mod kBlockSize < kHeaderSize
                        then kBlockSize * (pos div kBlockSize + 1) else pos)\<rparr>) False [] []"

subsection \<open>Regions of a file\<close>

definition region :: "nat \<Rightarrow> nat \<Rightarrow> bytes \<Rightarrow> bytes" where
  "region a l f = take l (drop a f)"

lemma length_file_splice [simp]: "off + length d \<le> length f \<Longrightarrow> length (file_splice f off d) = length f"
  by (auto simp: file_splice_def)

lemma take_file_splice: "off + length d \<le> length f \<Longrightarrow> a \<le> off \<Longrightarrow> take a (file_splice f off d) = take a f"
  by (auto simp: file_splice_def min_def)

lemma drop_file_splice:
  "off + length d \<le> length f \<Longrightarrow> off + length d \<le> a \<Longrightarrow> drop a (file_splice f off d) = drop a f"
  by (auto simp: file_splice_def)

lemma region_file_splice: "off + length d \<le> length f \<Longrightarrow> region off (length d) (file_splice f off d) = d"
  by (auto simp: file_splice_def region_def)

lemma region_take: "a + l \<le> b \<Longrightarrow> region a l (take b f) = region a l f"
  by (simp add: region_def take_drop min_def)

subsection \<open>Records in a file\<close>

text \<open>The file has, from position \<open>p\<close> on, the fragments of a record with the right
  types and lengths; the checksums may be anything.\<close>

function carries :: "bytes \<Rightarrow> nat \<Rightarrow> bytes \<Rightarrow> bool \<Rightarrow> bool" where
  "carries f p d at_begin =
     (let q = p + length (pad p); n = min (length d) (avail p)
      in q + kHeaderSize + n \<le> length f
         \<and> region (q + 4) 3 f = [of_nat n, of_nat (n div 256), fragment_type at_begin (length d = n)]
         \<and> region (q + kHeaderSize) n f = take n d
         \<and> (n < length d \<longrightarrow> carries f (q + kHeaderSize + n) (drop n d) False))"
  by pat_completeness auto
termination
proof (relation "measure (\<lambda>(f, p, d, b). 2 * length d + (if avail p = 0 then 1 else 0))")
  fix f p d at_begin q n
  assume n: "q = p + length (pad p)" "n = min (length d) (avail p)" "n < length d"
  then have "n = avail p" by simp
  then show "((f, q + kHeaderSize + n, drop n d, False), (f, p, d, at_begin))
      \<in> measure (\<lambda>(f, p, d, b). 2 * length d + (if avail p = 0 then 1 else 0))"
    using n avail_next [of p] by (cases "avail p = 0") auto
qed simp

declare carries.simps [simp del]

lemma carries_record_bytes: "drop p f = record_bytes p d b @ tail \<Longrightarrow> carries f p d b"
proof (induction p d b arbitrary: tail rule: record_bytes.induct)
  case (1 p d b)
  define n where "n = min (length d) (avail p)"
  let ?q = "p + length (pad p)" and ?t = "fragment_type b (length d = n)"
  let ?more = "if n < length d then record_bytes (?q + kHeaderSize + n) (drop n d) False else []"
  have n: "length (take n d) = n" by (simp add: n_def)
  have f: "drop p f = pad p @ frame ?t (take n d) @ ?more @ tail"
    using 1(2) unfolding n_def by (subst (asm) record_bytes.simps) (simp only: Let_def append_assoc)
  have q: "drop ?q f = frame_head ?t (take n d) @ take n d @ ?more @ tail"
    using arg_cong [OF f, of "drop (length (pad p))"] by (simp add: frame_split add.commute)
  have "length (drop ?q f) = kHeaderSize + n + length (?more @ tail)" unfolding q using n by (simp add: frame_split)
  then have l: "?q + kHeaderSize + n \<le> length f" by (cases "?q \<le> length f") (auto simp: kHeaderSize_def)
  have h: "region (?q + 4) 3 f = [of_nat n, of_nat (n div 256), ?t]"
  proof -
    have "drop (?q + 4) f = drop 4 (drop ?q f)" by (simp add: add.commute)
    then show ?thesis unfolding region_def q using n by (simp add: frame_head_def EncodeFixed32_def)
  qed
  have r: "drop (?q + kHeaderSize) f = take n d @ ?more @ tail"
  proof -
    have "drop (?q + kHeaderSize) f = drop kHeaderSize (drop ?q f)" by (simp add: add.commute)
    then show ?thesis unfolding q by (simp add: frame_split)
  qed
  have "region (?q + kHeaderSize) n f = take n d"
    unfolding region_def r by (rule take_append_exact [OF n])
  moreover have "carries f (?q + kHeaderSize + n) (drop n d) False" if "n < length d"
  proof (rule 1(1) [OF n_def that])
    have "drop (?q + kHeaderSize + n) f = drop n (drop (?q + kHeaderSize) f)" by (simp add: add.commute)
    then show "drop (?q + kHeaderSize + n) f = record_bytes (?q + kHeaderSize + n) (drop n d) False @ tail"
      unfolding r using that n by simp
  qed
  ultimately show ?case
    using l h by (subst carries.simps) (simp add: Let_def flip: n_def)
qed

lemma carries_cong:
  "drop p f = drop p g \<Longrightarrow> length f = length g \<Longrightarrow> carries f p d b \<Longrightarrow> carries g p d b"
proof (induction f p d b rule: carries.induct)
  case (1 f p d b)
  define n where "n = min (length d) (avail p)"
  define q where "q = p + length (pad p)"
  have dg: "drop x g = drop x f" if "p \<le> x" for x
    using arg_cong [OF 1(2), of "drop (x - p)"] that by simp
  note c = 1(4) [unfolded carries.simps [of f p d b] Let_def, folded n_def q_def]
  have "carries g (q + kHeaderSize + n) (drop n d) False" if "n < length d"
    using 1(1) [OF q_def n_def that] c that dg 1(3) by (simp add: q_def)
  then show ?case using c 1(3) dg
    by (subst carries.simps) (simp add: Let_def region_def q_def flip: n_def)
qed

lemma region_nth: "region a l f = xs \<Longrightarrow> length xs = l \<Longrightarrow> i < l \<Longrightarrow> drop a f ! i = xs ! i"
  by (auto simp: region_def)

lemma store_read_quiet:
  assumes "fd_events (rr_file r) = []" "n \<le> kBlockSize"
  shows "store_read r off n = Some (OK, r\<lparr>rr_store := region off n (fd_data (rr_file r))
    @ drop (length (region off n (fd_data (rr_file r)))) (rr_store r)\<rparr>)"
  using assms by (simp add: store_read_def rw_Read_quiet region_def)

lemma random_read_fragment:
  assumes "carries f p d b" "fd_data (rr_file r) = f" "fd_events (rr_file r) = []" "rr_offset r = p + length (pad p)"
  defines "n \<equiv> min (length d) (avail p)"
  shows "\<exists>r'. random_ReadPhysicalRecord r res = Some (ucast (fragment_type b (length d = n)), take n d, r')
    \<and> rr_file r' = rr_file r \<and> rr_offset r' = p + length (pad p) + kHeaderSize + n"
proof -
  define q where "q = p + length (pad p)"
  have c: "q + kHeaderSize + n \<le> length f" "region (q + kHeaderSize) n f = take n d"
      "region (q + 4) 3 f = [of_nat n, of_nat (n div 256), fragment_type b (length d = n)]"
    using assms(1) [unfolded carries.simps [of f p d b] Let_def, folded n_def q_def] by auto
  have n: "n < 65536" "n \<le> kBlockSize"
    using avail_fits [of p] by (auto simp: n_def kBlockSize_def)
  let ?h = "region q kHeaderSize f"
  have lh: "length ?h = kHeaderSize" using c(1) by (auto simp: region_def)
  have h: "?h ! (4 + i) = [of_nat n, of_nat (n div 256), fragment_type b (length d = n)] ! i" if "i < 3" for i
    using region_nth [OF c(3) _ that] that c(1) by (simp add: region_def kHeaderSize_def ac_simps)
  have "(?h @ xs) ! 4 = of_nat n" "(?h @ xs) ! 5 = of_nat (n div 256)"
      "(?h @ xs) ! 6 = fragment_type b (length d = n)" for xs
    using h [of 0] h [of 1] h [of 2] lh by (simp_all add: nth_append kHeaderSize_def)
  note head = this le16_length [OF n(1)] record_type_signed [OF fragment_type_range, of b "length d = n"]
  have d2: "region (q + kHeaderSize) n f = take n d" "length (take n d) = n" using c(2) by (simp_all add: n_def)
  define r1 where "r1 = r\<lparr>rr_store := ?h @ drop kHeaderSize (rr_store r)\<rparr>"
  define r2 where "r2 = r1\<lparr>rr_store := take n d @ drop n (rr_store r1)\<rparr>"
  have s1: "store_read r q kHeaderSize = Some (OK, r1)"
    using store_read_quiet [of r kHeaderSize q] assms(2,3) lh by (simp add: r1_def) (simp add: kBlockSize_def kHeaderSize_def)
  have s2: "store_read r1 (q + kHeaderSize) n = Some (OK, r2)"
    using store_read_quiet [of r1 n "q + kHeaderSize"] assms(2,3) d2 n(2) by (simp add: r1_def r2_def)
  have st: "rr_store r1 = ?h @ drop kHeaderSize (rr_store r)" "rr_offset r1 = q" "kHeaderSize \<le> length (rr_store r1)"
    using lh assms(4) by (simp_all add: r1_def q_def)
  have "random_ReadPhysicalRecord r res = Some (ucast (fragment_type b (length d = n)), take n d, r2\<lparr>rr_offset := q + (kHeaderSize + n)\<rparr>)"
    unfolding random_ReadPhysicalRecord_def assms(4) q_def [symmetric] s1
    using s2 d2(2) st(2,3) by (simp add: Let_def not_less [symmetric] st(1) head r2_def)
  then show ?thesis by (simp add: q_def r1_def r2_def)
qed

lemma random_loop_fragment:
  assumes "random_ReadPhysicalRecord r frag = Some (ucast (fragment_type b e), d, r1)"
  shows "e \<Longrightarrow> random_ReadRecord_loop r (\<not> b) scratch frag = Some (True, (if b then [] else scratch) @ d, r1)"
    and "\<not> e \<Longrightarrow> random_ReadRecord_loop r (\<not> b) scratch frag
      = random_ReadRecord_loop r1 True ((if b then [] else scratch) @ d) d"
  using assms by (subst random_ReadRecord_loop.simps, auto simp: fragment_type_def record_type_words)+

lemma random_ReadRecord_loop_carries:
  assumes "carries f p d b" "fd_data (rr_file r) = f" "fd_events (rr_file r) = []" "rr_offset r = p + length (pad p)"
  shows "\<exists>r'. random_ReadRecord_loop r (\<not> b) scratch frag = Some (True, (if b then [] else scratch) @ d, r')
    \<and> rr_file r' = rr_file r"
  using assms
proof (induction f p d b arbitrary: r scratch frag rule: carries.induct)
  case (1 f p d b)
  define n where "n = min (length d) (avail p)"
  define q where "q = p + length (pad p)"
  obtain r1 where r1: "random_ReadPhysicalRecord r frag = Some (ucast (fragment_type b (length d = n)), take n d, r1)"
      "rr_file r1 = rr_file r" "rr_offset r1 = q + kHeaderSize + n"
    using random_read_fragment [OF 1(2-5), of frag] by (auto simp: n_def q_def)
  note frag = random_loop_fragment [OF r1(1), of scratch]
  show ?case
  proof (cases "length d = n")
    case True
    then show ?thesis using frag(1) r1(2) by simp
  next
    case False
    then have n: "n < length d" "n = avail p" by (simp_all add: n_def)
    have "carries f (q + kHeaderSize + n) (drop n d) False"
      using 1(2) n(1) by (simp add: carries.simps [of f p d b] Let_def flip: n_def q_def)
    moreover have "pad (q + kHeaderSize + n) = []"
      using block_full [of p] avail_block_start n(2) by (simp add: q_def)
    ultimately have "\<exists>r'. random_ReadRecord_loop r1 (\<not> False) ((if b then [] else scratch) @ take n d) (take n d)
        = Some (True, (if False then [] else (if b then [] else scratch) @ take n d) @ drop n d, r') \<and> rr_file r' = rr_file r1"
      using r1(2,3) 1(3,4) by (intro 1(1) [OF q_def n_def n(1)]) simp_all
    then show ?thesis using frag(2) [OF False] r1(2) by simp
  qed
qed

lemma random_start: "(if kBlockSize - p mod kBlockSize < kHeaderSize then kBlockSize * (p div kBlockSize + 1) else p) = p + length (pad p)"
proof -
  have "kBlockSize * (p div kBlockSize + 1) = p + block_left p"
    using mult_div_mod_eq [of kBlockSize p] mod_less_divisor [of kBlockSize p]
    unfolding block_left_def distrib_left kBlockSize_def by linarith
  then show ?thesis by (simp add: pad_def block_left_def)
qed

lemma random_ReadRecord_carries:
  assumes "carries f p d True" "fd_data (rr_file r) = f" "fd_events (rr_file r) = []"
  shows "\<exists>r'. random_ReadRecord r p = Some (True, d, r') \<and> rr_file r' = rr_file r"
  using random_ReadRecord_loop_carries [OF assms(1), of "r\<lparr>rr_offset := p + length (pad p)\<rparr>" "[]" "[]"] assms(2,3)
  unfolding random_ReadRecord_def random_start by simp

subsection \<open>Overwriting the payload in place\<close>

definition rw_at :: "RandomWriter \<Rightarrow> nat \<Rightarrow> bool" where
  "rw_at w p \<longleftrightarrow> fd_events (rw_dest w) = [] \<and> rw_block_offset w \<le> kBlockSize \<and> 0 \<le> rw_num_block w
     \<and> nat (rw_num_block w) * kBlockSize + rw_block_offset w = p"

lemma rw_position_at:
  assumes "rw_at w p" "p + k < 2 ^ 31"
  shows "rw_position w k = Some (p + k)"
proof -
  have "rw_num_block w * int kBlockSize + int (rw_block_offset w) = int p" "0 \<le> rw_num_block w * int kBlockSize"
    using assms(1) by (auto simp: rw_at_def)
  moreover have "int p + int k < 2 ^ 31" using assms(2) by simp
  ultimately show ?thesis unfolding rw_position_def Let_def int_fits_def by (simp add: nat_add_distrib)
qed

lemma random_switch_block_at:
  assumes "rw_at w p" "p + length (pad p) < 2 ^ 31"
  obtains w' where "random_switch_block w = Some w'" "rw_at w' (p + length (pad p))" "rw_dest w' = rw_dest w"
    "kBlockSize - rw_block_offset w' - kHeaderSize = avail p" "rw_block_offset w' + kHeaderSize \<le> kBlockSize"
proof -
  obtain b where b: "rw_num_block w = int b" using assms(1) by (metis rw_at_def zero_le_imp_eq_int)
  have p: "p = kBlockSize * b + rw_block_offset w" "rw_block_offset w \<le> kBlockSize"
    using assms(1) b by (simp_all add: rw_at_def mult.commute)
  then have fits: "int_fits (int b + 1)" using assms(2) by (auto simp: int_fits_def kBlockSize_def)
  have "\<exists>w'. random_switch_block w = Some w' \<and> rw_at w' (p + length (pad p)) \<and> rw_dest w' = rw_dest w
    \<and> rw_block_offset w' = (p + length (pad p)) mod kBlockSize"
  proof (cases "rw_block_offset w = kBlockSize")
    case True
    then have "pad p = []" using avail_block_start [of p] p by simp
    then show ?thesis using assms(1) True p b fits
      by (auto simp: random_switch_block_def rw_at_def kHeaderSize_def nat_add_distrib)
  next
    case False
    then have "p mod kBlockSize = rw_block_offset w" using p by simp
    then have "block_left p = kBlockSize - rw_block_offset w" by (simp add: block_left_def)
    then show ?thesis using assms(1) p b fits False \<open>p mod kBlockSize = rw_block_offset w\<close>
      by (auto simp: random_switch_block_def rw_at_def pad_def nat_add_distrib)
  qed
  then show thesis using that block_left_pad [of p] by (auto simp: avail_def) (simp_all add: block_left_def kHeaderSize_def)
qed

lemma random_patch_fragment:
  assumes "rw_at w q" "q + kHeaderSize + length d \<le> length (fd_data (rw_dest w))" "length (fd_data (rw_dest w)) < 2 ^ 31"
    "rw_block_offset w + kHeaderSize + length d \<le> kBlockSize"
  shows "\<exists>w'. random_EmitPhysicalRecord lib addr w t d False = Some (OK, w') \<and> rw_at w' (q + kHeaderSize + length d)
    \<and> fd_data (rw_dest w') = file_splice (fd_data (rw_dest w)) (q + kHeaderSize) d"
proof -
  have "rw_position w kHeaderSize = Some (q + kHeaderSize)" using assms by (intro rw_position_at) simp_all
  then show ?thesis using assms by (simp add: random_EmitPhysicalRecord_def rw_at_def rw_Write_quiet)
qed

lemma region_splice_prefix:
  "length e \<le> n \<Longrightarrow> off + n \<le> length f \<Longrightarrow> region off n (file_splice f off e) = e @ drop (length e) (region off n f)"
  by (auto simp: region_def file_splice_def drop_take ac_simps)

lemma region_cong: "take b f = take b g \<Longrightarrow> a + l \<le> b \<Longrightarrow> region a l f = region a l g"
  using region_take [of a l b f] region_take [of a l b g] by simp

lemma carries_intro:
  assumes "n = min (length d) (avail p)" "q = p + length (pad p)" "q + kHeaderSize + n \<le> length f"
    "region (q + 4) 3 f = [of_nat n, of_nat (n div 256), fragment_type b (length d = n)]"
    "region (q + kHeaderSize) n f = take n d" "n < length d \<Longrightarrow> carries f (q + kHeaderSize + n) (drop n d) False"
  shows "carries f p d b"
  using assms by (subst carries.simps) (simp add: Let_def)

lemma random_patch_loop:
  assumes "carries (fd_data (rw_dest w)) p d b" "rw_at w p" "length e \<le> length d" "length (fd_data (rw_dest w)) < 2 ^ 31"
  shows "\<exists>w'. random_AddRecord_loop lib addr w e b False = Some (OK, w') \<and> carries (fd_data (rw_dest w')) p (e @ drop (length e) d) b
    \<and> length (fd_data (rw_dest w')) = length (fd_data (rw_dest w)) \<and> take p (fd_data (rw_dest w')) = take p (fd_data (rw_dest w))
    \<and> drop (p + length (record_bytes p d b)) (fd_data (rw_dest w')) = drop (p + length (record_bytes p d b)) (fd_data (rw_dest w))
    \<and> fd_events (rw_dest w') = []"
  using assms
proof (induction p d b arbitrary: e w addr rule: record_bytes.induct)
  case (1 p d b)
  define n where "n = min (length d) (avail p)"
  define q where "q = p + length (pad p)"
  define m where "m = min (length e) (avail p)"
  let ?f = "fd_data (rw_dest w)" and ?d = "e @ drop (length e) d"
  have len: "length ?d = length d" "m \<le> n" "length (take m e) = m" using 1(4) by (simp_all add: n_def m_def)
  have c: "q + kHeaderSize + n \<le> length ?f" "region (q + kHeaderSize) n ?f = take n d"
      "region (q + 4) 3 ?f = [of_nat n, of_nat (n div 256), fragment_type b (length d = n)]"
      "n < length d \<Longrightarrow> carries ?f (q + kHeaderSize + n) (drop n d) False"
    using 1(2) [unfolded carries.simps [of ?f p d b] Let_def, folded n_def q_def] by auto
  have L: "p + length (record_bytes p d b) = q + kHeaderSize + n + (if n < length d
      then length (record_bytes (q + kHeaderSize + n) (drop n d) False) else 0)"
    by (subst record_bytes.simps) (simp add: Let_def q_def flip: n_def, simp add: n_def)
  have "q < 2 ^ 31" using c(1) 1(5) by linarith
  then obtain w1 where sw0: "random_switch_block w = Some w1" and sw: "rw_at w1 q" "rw_dest w1 = rw_dest w"
      "kBlockSize - rw_block_offset w1 - kHeaderSize = avail p" "rw_block_offset w1 + kHeaderSize \<le> kBlockSize"
    using random_switch_block_at [OF 1(3), folded q_def] by metis
  obtain w2 where w2: "random_EmitPhysicalRecord lib addr w1 (fragment_type b (length e = m)) (take m e) False = Some (OK, w2)"
      "rw_at w2 (q + kHeaderSize + m)" "fd_data (rw_dest w2) = file_splice ?f (q + kHeaderSize) (take m e)"
    using random_patch_fragment [OF sw(1), of "take m e"] c(1) 1(5) len sw(2-4) by (fastforce simp: m_def)
  let ?g = "fd_data (rw_dest w2)"
  have g: "length ?g = length ?f" "take (q + kHeaderSize) ?g = take (q + kHeaderSize) ?f"
      "\<And>x. q + kHeaderSize + m \<le> x \<Longrightarrow> drop x ?g = drop x ?f"
    using c(1) len w2(3) by (simp_all add: take_file_splice drop_file_splice)
  have hd: "region (q + 4) 3 ?g = region (q + 4) 3 ?f"
    using g(2) by (rule region_cong) (simp add: kHeaderSize_def)
  have below: "take p ?g = take p ?f"
    using arg_cong [OF g(2), of "take p"] by (simp add: q_def min_def)
  have loop: "random_AddRecord_loop lib addr w e b False =
      (if m < length e then random_AddRecord_loop lib (addr + of_nat m) w2 (drop m e) False False else Some (OK, w2))"
    using sw0 w2(1) sw(3) by (subst random_AddRecord_loop.simps) (simp add: Let_def m_def min_def split: if_splits)
  show ?case
  proof (cases "m < length e")
    case False
    then have m: "take m e = e" "length e = m" by (simp_all add: m_def)
    have "carries ?g p ?d b"
    proof (rule carries_intro [OF _ q_def])
      show "n = min (length ?d) (avail p)" using len by (simp add: n_def)
      show "q + kHeaderSize + n \<le> length ?g" using c(1) g(1) by simp
      show "region (q + 4) 3 ?g = [of_nat n, of_nat (n div 256), fragment_type b (length ?d = n)]" using hd c(3) len by simp
      show "region (q + kHeaderSize) n ?g = take n ?d"
      proof -
        have "length e \<le> n" using m(2) len(2) by simp
        then have "region (q + kHeaderSize) n ?g = e @ drop (length e) (take n d)"
          unfolding w2(3) m(1) c(2) [symmetric] using c(1) by (rule region_splice_prefix)
        also have "\<dots> = take n ?d" unfolding drop_take using \<open>length e \<le> n\<close> by simp
        finally show ?thesis .
      qed
      show "carries ?g (q + kHeaderSize + n) (drop n ?d) False" if "n < length ?d"
      proof -
        have "drop n ?d = drop n d" using m(2) len(2) by simp
        moreover have "drop (q + kHeaderSize + n) ?f = drop (q + kHeaderSize + n) ?g" using g(3) len(2) by simp
        then have "carries ?g (q + kHeaderSize + n) (drop n d) False"
          using g(1) [symmetric] c(4) that len(1) by (metis carries_cong)
        ultimately show ?thesis by simp
      qed
    qed
    moreover have "drop (p + length (record_bytes p d b)) ?g = drop (p + length (record_bytes p d b)) ?f"
      using g(3) L len(2) by simp
    ultimately show ?thesis using loop False g(1) below w2(2) by (simp add: rw_at_def)
  next
    case True
    then have m: "m = n" "n < length d" "m = avail p" using 1(4) unfolding m_def n_def by linarith+
    have "drop (q + kHeaderSize + n) ?f = drop (q + kHeaderSize + n) ?g" using g(3) m(1) by simp
    from carries_cong [OF this g(1) [symmetric] c(4) [OF m(2)]]
    have "carries ?g (q + kHeaderSize + n) (drop n d) False" .
    moreover have "length (drop m e) \<le> length (drop n d)" using 1(4) m(1) by (simp add: diff_le_mono)
    ultimately have "\<exists>w'. random_AddRecord_loop lib (addr + of_nat m) w2 (drop m e) False False = Some (OK, w')
        \<and> carries (fd_data (rw_dest w')) (q + kHeaderSize + n) (drop m e @ drop (length (drop m e)) (drop n d)) False
        \<and> length (fd_data (rw_dest w')) = length ?g \<and> take (q + kHeaderSize + n) (fd_data (rw_dest w')) = take (q + kHeaderSize + n) ?g
        \<and> drop (q + kHeaderSize + n + length (record_bytes (q + kHeaderSize + n) (drop n d) False)) (fd_data (rw_dest w'))
          = drop (q + kHeaderSize + n + length (record_bytes (q + kHeaderSize + n) (drop n d) False)) ?g
        \<and> fd_events (rw_dest w') = []"
      using w2(2) m(1) g(1) 1(5) by (intro 1(1) [OF n_def m(2), folded q_def]) simp_all
    then
    obtain w' where w': "random_AddRecord_loop lib (addr + of_nat m) w2 (drop m e) False False = Some (OK, w')"
        "carries (fd_data (rw_dest w')) (q + kHeaderSize + n) (drop m e @ drop (length (drop m e)) (drop n d)) False"
        "length (fd_data (rw_dest w')) = length ?g" "take (q + kHeaderSize + n) (fd_data (rw_dest w')) = take (q + kHeaderSize + n) ?g"
        "drop (p + length (record_bytes p d b)) (fd_data (rw_dest w')) = drop (p + length (record_bytes p d b)) ?g"
        "fd_events (rw_dest w') = []"
      unfolding L using m(2) by auto
    let ?h = "fd_data (rw_dest w')"
    have "carries ?h p ?d b"
    proof (rule carries_intro [OF _ q_def])
      show "n = min (length ?d) (avail p)" using len by (simp add: n_def)
      show "q + kHeaderSize + n \<le> length ?h" using c(1) g(1) w'(3) by simp
      show "region (q + 4) 3 ?h = [of_nat n, of_nat (n div 256), fragment_type b (length ?d = n)]"
        using hd c(3) len region_cong [OF w'(4), of "q + 4" 3] by (simp add: kHeaderSize_def)
      show "region (q + kHeaderSize) n ?h = take n ?d"
        using region_cong [OF w'(4), of "q + kHeaderSize" n] region_file_splice [of "q + kHeaderSize" "take m e" ?f] w2(3) c(1) len m True
        by simp
      show "carries ?h (q + kHeaderSize + n) (drop n ?d) False" using w'(2) m True 1(4) by simp
    qed
    moreover have "take p ?h = take p ?f" using arg_cong [OF w'(4), of "take p"] below by (simp add: q_def min_def)
    moreover have "drop (p + length (record_bytes p d b)) ?h = drop (p + length (record_bytes p d b)) ?f"
      using w'(5) g(3) L m(1) by simp
    ultimately show ?thesis using loop True w'(1,3,6) g(1) by simp
  qed
qed

lemma carries_take_cong:
  "carries f p d b \<Longrightarrow> take x f = take x g \<Longrightarrow> p + length (record_bytes p d b) \<le> x \<Longrightarrow> length f = length g \<Longrightarrow> carries g p d b"
proof (induction f p d b rule: carries.induct)
  case (1 f p d b)
  define n where "n = min (length d) (avail p)"
  define q where "q = p + length (pad p)"
  have L: "p + length (record_bytes p d b) = q + kHeaderSize + n + (if n < length d
      then length (record_bytes (q + kHeaderSize + n) (drop n d) False) else 0)"
    by (subst record_bytes.simps) (simp add: Let_def q_def flip: n_def, simp add: n_def)
  have c: "q + kHeaderSize + n \<le> length f" "region (q + kHeaderSize) n f = take n d"
      "region (q + 4) 3 f = [of_nat n, of_nat (n div 256), fragment_type b (length d = n)]"
      "n < length d \<Longrightarrow> carries f (q + kHeaderSize + n) (drop n d) False"
    using 1(2) [unfolded carries.simps [of f p d b] Let_def, folded n_def q_def] by auto
  have x: "q + kHeaderSize + n \<le> x" using 1(4) L by simp
  show ?case
  proof (rule carries_intro [OF n_def q_def])
    show "q + kHeaderSize + n \<le> length g" using c(1) 1(5) by simp
    show "region (q + 4) 3 g = [of_nat n, of_nat (n div 256), fragment_type b (length d = n)]"
      using c(3) region_cong [OF 1(3), of "q + 4" 3] x by (simp add: kHeaderSize_def)
    show "region (q + kHeaderSize) n g = take n d" using c(2) region_cong [OF 1(3) x] by simp
    show "carries g (q + kHeaderSize + n) (drop n d) False" if "n < length d"
      using 1(1) [OF q_def n_def that c(4) [OF that] 1(3) _ 1(5)] 1(4) L that by simp
  qed
qed

definition record_pos :: "bytes list \<Rightarrow> nat \<Rightarrow> nat" where
  "record_pos ds i = length (log_bytes 0 (take i ds))"

lemma log_bytes_split:
  assumes "i < length ds"
  shows "log_bytes 0 ds = log_bytes 0 (take i ds) @ record_bytes (record_pos ds i) (ds ! i) True @ log_bytes (record_pos ds (Suc i)) (drop (Suc i) ds)"
    and "record_pos ds (Suc i) = record_pos ds i + length (record_bytes (record_pos ds i) (ds ! i) True)"
proof -
  have s: "record_pos ds (Suc i) = record_pos ds i + length (record_bytes (record_pos ds i) (ds ! i) True)"
    using assms by (simp add: record_pos_def take_Suc_conv_app_nth log_bytes_append)
  then show "record_pos ds (Suc i) = record_pos ds i + length (record_bytes (record_pos ds i) (ds ! i) True)" .
  have "ds = take i ds @ ds ! i # drop (Suc i) ds" using assms by (rule id_take_nth_drop)
  then have "log_bytes 0 ds = log_bytes 0 (take i ds @ ds ! i # drop (Suc i) ds)" by simp
  then show "log_bytes 0 ds = log_bytes 0 (take i ds) @ record_bytes (record_pos ds i) (ds ! i) True @ log_bytes (record_pos ds (Suc i)) (drop (Suc i) ds)"
    unfolding s by (simp only: log_bytes_append log_bytes.simps) (simp add: record_pos_def)
qed

lemma length_record_bytes_one:
  "length d \<le> avail p \<Longrightarrow> length (record_bytes p d b) = length (pad p) + kHeaderSize + length d"
  by (subst record_bytes.simps) (simp add: Let_def min_def)

lemma carries_log_bytes:
  assumes "i < length ds"
  shows "carries (log_bytes 0 ds) (record_pos ds i) (ds ! i) True"
proof (rule carries_record_bytes)
  have "length (log_bytes 0 (take i ds)) = record_pos ds i" by (simp add: record_pos_def)
  then show "drop (record_pos ds i) (log_bytes 0 ds)
      = record_bytes (record_pos ds i) (ds ! i) True @ log_bytes (record_pos ds (Suc i)) (drop (Suc i) ds)"
    unfolding log_bytes_split(1) [OF assms] by (rule drop_append_exact)
qed

lemma record_pos_mono: "i \<le> j \<Longrightarrow> j \<le> length ds \<Longrightarrow> record_pos ds i \<le> record_pos ds j"
proof (induction j)
  case (Suc j)
  then show ?case using log_bytes_split(2) [of j ds] by (cases "i = Suc j") auto
qed simp

lemma AddRecords_at:
  assumes "crc_lib_ok lib" "lw_at lib w p" "AddRecords lib w rs = (s, w')"
  shows "lw_at lib w' (p + length (log_bytes p (map snd rs)))"
  using assms(2,3)
proof (induction rs arbitrary: w p)
  case (Cons r rs)
  obtain addr d s1 w1 where r: "r = (addr, d)" and a: "AddRecord lib addr w d = (s1, w1)" by (metis surj_pair)
  from AddRecord_log_bytes [OF assms(1) Cons(2) a] show ?case
    using Cons.IH [of w1 "p + length (record_bytes p d True)"] Cons(3) by (simp add: r a add.assoc)
qed simp

lemma random_patch_record:
  fixes lib addr addr' ds i e
  defines "w0 \<equiv> RandomWriter_new lib addr' \<lparr>fd_data = log_bytes 0 ds, fd_events = []\<rparr>"
  assumes "i < length ds" "length e \<le> length (ds ! i)" "length (log_bytes 0 ds) < 2 ^ 31"
  obtains w where "random_AddRecord lib addr w0 (record_pos ds i) e False = Some (OK, w)"
    "carries (fd_data (rw_dest w)) (record_pos ds i) (e @ drop (length e) (ds ! i)) True"
    "length (fd_data (rw_dest w)) = length (log_bytes 0 ds)"
    "take (record_pos ds i) (fd_data (rw_dest w)) = take (record_pos ds i) (log_bytes 0 ds)"
    "drop (record_pos ds (Suc i)) (fd_data (rw_dest w)) = drop (record_pos ds (Suc i)) (log_bytes 0 ds)"
    "fd_events (rw_dest w) = []"
proof -
  let ?p = "record_pos ds i"
  let ?w0 = "w0\<lparr>rw_block_offset := ?p mod kBlockSize, rw_num_block := sint (of_nat (?p div kBlockSize) :: u32)\<rparr>"
  have "?p \<le> length (log_bytes 0 ds)" unfolding log_bytes_split(1) [OF assms(2)] by (simp add: record_pos_def)
  then have "?p div kBlockSize < 2 ^ 31" using assms(4) by (simp add: kBlockSize_def)
  then have "sint (of_nat (?p div kBlockSize) :: u32) = int (?p div kBlockSize)" by (rule sint_of_nat_small)
  then have "rw_at ?w0 ?p" by (simp add: rw_at_def w0_def RandomWriter_new_def kBlockSize_def)
  moreover have "carries (fd_data (rw_dest ?w0)) ?p (ds ! i) True"
    using carries_log_bytes [OF assms(2)] by (simp add: w0_def RandomWriter_new_def)
  ultimately show thesis
    using random_patch_loop [of ?w0 ?p "ds ! i" True e lib addr] assms(3,4) log_bytes_split(2) [OF assms(2)] that
    by (auto simp: random_AddRecord_def w0_def RandomWriter_new_def)
qed

subsection \<open>Properties\<close>

text \<open>
  C7: A record is found again at the offset the writer had before adding it
  (\<open>write_off\<close>, which the head stores as the log position of a series), whatever
  was written before and after it and whatever earlier reads left in the reader's
  buffer: \<open>RandomReader::ReadRecord\<close> terminates and returns the record.
\<close>

theorem random_read_at_write_off:
  assumes "crc_lib_ok lib" "wf_inv f" "calm (wf_fd f)" "wf_contents f = []"
    "AddRecords lib (Writer_at lib addr f 0) rs1 = (s1, w1)" "AddRecord lib addr' w1 d = (s2, w2)"
    "AddRecords lib w2 rs2 = (s3, w3)" "fd_data (rr_file r) = wf_contents (lw_dest w3)" "fd_events (rr_file r) = []"
  shows "\<exists>r'. random_ReadRecord r (write_off w1) = Some (True, d, r')"
proof -
  let ?ds = "map snd rs1 @ d # map snd rs2"
  have w0: "lw_at lib (Writer_at lib addr f 0) 0" using assms(2,3) by (rule lw_at_Writer_at)
  have c1: "wf_contents (lw_dest w1) = log_bytes 0 (map snd rs1)"
    using AddRecords_log_bytes [OF assms(1) w0 assms(5)] assms(4) by (simp add: Writer_at_def)
  have w1: "lw_at lib w1 (length (log_bytes 0 (map snd rs1)))" using AddRecords_at [OF assms(1) w0 assms(5)] by simp
  note w2 = AddRecord_log_bytes [OF assms(1) w1 assms(6)]
  have "wf_contents (lw_dest w3) = log_bytes 0 ?ds"
    using AddRecords_log_bytes [OF assms(1) _ assms(7)] w2 c1 by (simp add: log_bytes_append)
  moreover have "write_off w1 = record_pos ?ds (length rs1)" using w1 by (simp add: lw_at_def record_pos_def)
  ultimately show ?thesis
    using random_ReadRecord_carries [OF carries_log_bytes [of "length rs1" ?ds], of r] assms(8,9)
    by (auto simp: nth_append)
qed

theorem random_read_at_write_off_witness:
  "\<exists>w1 w2 w3 r'. AddRecords None (Writer_at None 0 \<lparr>wf_fd = \<lparr>fd_data = [], fd_events = []\<rparr>, wf_buf = []\<rparr> 0) [(0, [7])] = (OK, w1)
    \<and> AddRecord None 0 w1 [8, 9] = (OK, w2) \<and> AddRecords None w2 [(0, [])] = (OK, w3)
    \<and> random_ReadRecord (RandomReader_new \<lparr>fd_data = wf_contents (lw_dest w3), fd_events = []\<rparr>) (write_off w1) = Some (True, [8, 9], r')"
proof -
  let ?f = "\<lparr>wf_fd = \<lparr>fd_data = [], fd_events = []\<rparr>, wf_buf = []\<rparr>"
  have h: "crc_lib_ok None" "wf_inv ?f" "calm (wf_fd ?f)" "wf_contents ?f = []"
    by (simp_all add: crc_lib_ok_def wf_inv_def calm_def wf_contents_def)
  obtain s1 w1 where a1: "AddRecords None (Writer_at None 0 ?f 0) [(0, [7])] = (s1, w1)" by fastforce
  obtain s2 w2 where a2: "AddRecord None 0 w1 [8, 9] = (s2, w2)" by fastforce
  obtain s3 w3 where a3: "AddRecords None w2 [(0, [])] = (s3, w3)" by fastforce
  have w0: "lw_at None (Writer_at None 0 ?f 0) 0" using h(2,3) by (rule lw_at_Writer_at)
  have w1: "lw_at None w1 (0 + length (log_bytes 0 [[7]]))" using AddRecords_at [OF h(1) w0 a1] by simp
  have "s1 = OK" using AddRecords_log_bytes [OF h(1) w0 a1] by simp
  moreover have "s2 = OK" using AddRecord_log_bytes [OF h(1) w1 a2] by blast
  moreover have "s3 = OK" using AddRecords_log_bytes [OF h(1) _ a3] AddRecord_log_bytes [OF h(1) w1 a2] by blast
  ultimately show ?thesis
    using random_read_at_write_off [OF h a1 a2 a3, of "RandomReader_new \<lparr>fd_data = wf_contents (lw_dest w3), fd_events = []\<rparr>"]
      a1 a2 a3 by (auto simp: RandomReader_new_def)
qed

text \<open>
  C6: In a log of less than 2 GiB, overwriting the start of a record without its headers
  succeeds and changes that record to the new bytes followed by the rest of the old
  ones, also when the record is cut into fragments, and leaves every other record of the
  log as it was. Behind 2 GiB the position of the write leaves the range of \<open>int\<close>.
\<close>

theorem patch_record_in_place:
  assumes "i < length ds" "length e \<le> length (ds ! i)" "length (log_bytes 0 ds) < 2 ^ 31"
  shows "\<exists>w. random_AddRecord lib addr (RandomWriter_new lib addr' \<lparr>fd_data = log_bytes 0 ds, fd_events = []\<rparr>)
      (record_pos ds i) e False = Some (OK, w)
    \<and> (\<forall>r j. rr_file r = rw_dest w \<longrightarrow> j < length ds \<longrightarrow> (\<exists>r'. random_ReadRecord r (record_pos ds j)
      = Some (True, if j = i then e @ drop (length e) (ds ! i) else ds ! j, r')))"
proof -
  let ?p = "record_pos ds i"
  from random_patch_record [OF assms, of lib addr addr']
  obtain w where P: "random_AddRecord lib addr (RandomWriter_new lib addr' \<lparr>fd_data = log_bytes 0 ds, fd_events = []\<rparr>) ?p e False = Some (OK, w)"
    "carries (fd_data (rw_dest w)) ?p (e @ drop (length e) (ds ! i)) True" "length (fd_data (rw_dest w)) = length (log_bytes 0 ds)"
    "take ?p (fd_data (rw_dest w)) = take ?p (log_bytes 0 ds)"
    "drop (record_pos ds (Suc i)) (fd_data (rw_dest w)) = drop (record_pos ds (Suc i)) (log_bytes 0 ds)" "fd_events (rw_dest w) = []" .
  have "carries (fd_data (rw_dest w)) (record_pos ds j) (if j = i then e @ drop (length e) (ds ! i) else ds ! j) True"
    if "j < length ds" for j
  proof (cases j i rule: linorder_cases)
    case less
    have "record_pos ds (Suc j) \<le> ?p" using less assms(1) by (intro record_pos_mono) auto
    then show ?thesis using carries_take_cong [OF carries_log_bytes [OF that] P(4) [symmetric]] P(3) less log_bytes_split(2) [OF that]
      by simp
  next
    case greater
    have "record_pos ds (Suc i) \<le> record_pos ds j" using greater that by (intro record_pos_mono) auto
    then have "drop (record_pos ds j) (log_bytes 0 ds) = drop (record_pos ds j) (fd_data (rw_dest w))"
      using arg_cong [OF P(5), of "drop (record_pos ds j - record_pos ds (Suc i))"] by simp
    then show ?thesis using carries_cong [OF _ _ carries_log_bytes [OF that]] P(3) greater by simp
  qed (use P(2) in simp)
  from random_ReadRecord_carries [OF this] show ?thesis using P(1,6) by (metis (no_types, lifting))
qed

theorem patch_record_in_place_witness:
  "\<exists>w r'. random_AddRecord None 0 (RandomWriter_new None 0 \<lparr>fd_data = log_bytes 0 [[1, 2, 3], [4]], fd_events = []\<rparr>)
       (record_pos [[1, 2, 3], [4]] 0) [9] False = Some (OK, w)
    \<and> random_ReadRecord (RandomReader_new (rw_dest w)) (record_pos [[1, 2, 3], [4]] 0) = Some (True, [9, 2, 3], r')"
proof -
  have l: "length (log_bytes 0 [[1, 2, 3], [4]]) < 2 ^ 31"
    by (simp add: length_record_bytes_one avail_def pad_def block_left_def kBlockSize_def kHeaderSize_def)
  from patch_record_in_place [OF _ _ l, of 0 "[9]" None 0 0]
  obtain w where w: "random_AddRecord None 0 (RandomWriter_new None 0 \<lparr>fd_data = log_bytes 0 [[1, 2, 3], [4]], fd_events = []\<rparr>)
      (record_pos [[1, 2, 3], [4]] 0) [9] False = Some (OK, w)"
    "\<And>r. rr_file r = rw_dest w \<Longrightarrow> \<exists>r'. random_ReadRecord r (record_pos [[1, 2, 3], [4]] 0) = Some (True, [9, 2, 3], r')"
    by fastforce
  from w(2) [of "RandomReader_new (rw_dest w)"] w(1) show ?thesis by (auto simp: RandomReader_new_def)
qed

text \<open>
  C40: From 2 GiB on (and below 64 TiB, where the block number itself no longer fits)
  the position of a write does not fit the \<open>int\<close> it is computed in: adding or patching a
  record there has undefined behaviour, although positions are passed in 64 bits.
\<close>

theorem patch_beyond_int_undefined:
  assumes "2 ^ 31 \<le> pos" "pos < 2 ^ 46"
  shows "random_AddRecord lib addr w pos d write_header = None"
proof -
  define b where "b = pos div kBlockSize"
  have b: "b < 2 ^ 31" "2 ^ 16 \<le> b" "pos mod kBlockSize < kBlockSize" using assms by (simp_all add: b_def kBlockSize_def)
  let ?w = "w\<lparr>rw_block_offset := pos mod kBlockSize, rw_num_block := int b\<rparr>"
  have "random_EmitPhysicalRecord lib addr w1 t e write_header = None" if "random_switch_block ?w = Some w1" for w1 t e
  proof -
    have "int (2 ^ 16) \<le> rw_num_block w1"
      using that b(2) by (auto simp: random_switch_block_def split: if_splits)
    then have "rw_position w1 k = None" for k by (simp add: rw_position_def int_fits_def kBlockSize_def)
    then show ?thesis by (simp add: random_EmitPhysicalRecord_def)
  qed
  then have "random_AddRecord_loop lib addr ?w d True write_header = None"
    by (subst random_AddRecord_loop.simps) (simp add: Let_def split: option.splits)
  then show ?thesis using sint_of_nat_small [OF b(1)] by (simp add: random_AddRecord_def b_def)
qed

theorem patch_beyond_int_undefined_witness:
  "random_AddRecord None 0 (RandomWriter_new None 0 \<lparr>fd_data = [], fd_events = []\<rparr>) (2 ^ 31) [9] False = None"
  using patch_beyond_int_undefined [of "2 ^ 31" None 0 "RandomWriter_new None 0 \<lparr>fd_data = [], fd_events = []\<rparr>" "[9]" False] by simp

end
