(* ===== verification/BitStream.thy ===== *)
theory BitStream
  imports BitIO Endian
begin

text \<open>
  The bit stream of the chunks, \<open>src/chunk/BitStream.cpp\<close>: appending bits, bytes
  and fields to a byte vector, reading them back in sequence and reading them at a
  bit position. In pointer mode \<open>stream\<close> holds the \<open>end\<close> bytes at
  \<open>stream_ptr\<close>. The readers look one byte past the end in some cases; \<open>beyond\<close>
  is the memory that follows the bytes, and the lemmas hold for every content of it.
  A reader returns \<open>Throw\<close> for the exception \<open>bitstream EOF\<close>, together with the
  stream as it was changed before the throw.
\<close>

subsection \<open>State and exceptions\<close>

text \<open>Running on after a call that may throw; the state keeps what the call changed.\<close>

fun rs_bind :: "'a result \<times> 's \<Rightarrow> ('a \<Rightarrow> 's \<Rightarrow> 'b result \<times> 's) \<Rightarrow> 'b result \<times> 's" where
  "rs_bind (Ok x, s) f = f x s"
| "rs_bind (Throw, s) f = (Throw, s)"
| "rs_bind (Undef, s) f = (Undef, s)"

lemma rs_bind_cong [fundef_cong]:
  "m = m' \<Longrightarrow> (\<And>x s. m' = (Ok x, s) \<Longrightarrow> f x s = g x s) \<Longrightarrow> rs_bind m f = rs_bind m' g"
  by (cases "(m, f)" rule: rs_bind.cases) auto

record BitStream =
  stream :: bytes
  head_count :: nat
  tail_count :: nat
  vector_mode :: bool
  bs_index :: nat
  bs_end :: nat
  header_size :: nat
  beyond :: "nat \<Rightarrow> u8"

subsection \<open>Constructors\<close>

definition BitStream_vec :: "(nat \<Rightarrow> u8) \<Rightarrow> bytes \<Rightarrow> BitStream" where
  "BitStream_vec mem s =
     \<lparr>stream = s, head_count = (if 1 \<le> length s then 8 else 0), tail_count = 0,
      vector_mode = True, bs_index = 0, bs_end = length s, header_size = 0, beyond = mem\<rparr>"

definition BitStream_ptr :: "(nat \<Rightarrow> u8) \<Rightarrow> bytes \<Rightarrow> BitStream" where
  "BitStream_ptr mem s =
     \<lparr>stream = s, head_count = (if 1 \<le> length s then 8 else 0), tail_count = 0,
      vector_mode = False, bs_index = 0, bs_end = length s, header_size = 0, beyond = mem\<rparr>"

definition BitStream_empty :: "(nat \<Rightarrow> u8) \<Rightarrow> BitStream" where
  "BitStream_empty mem =
     \<lparr>stream = [], head_count = 0, tail_count = 0,
      vector_mode = True, bs_index = 0, bs_end = 0, header_size = 0, beyond = mem\<rparr>"

definition BitStream_sized :: "(nat \<Rightarrow> u8) \<Rightarrow> nat \<Rightarrow> nat \<Rightarrow> BitStream" where
  "BitStream_sized mem sz hs =
     \<lparr>stream = replicate (sz + hs) 0, head_count = 0, tail_count = 0,
      vector_mode = True, bs_index = 0, bs_end = sz + hs, header_size = hs, beyond = mem\<rparr>"

text \<open>
  The copy constructor leaves \<open>header_size\<close> uninitialised; \<open>junk\<close> is what it then
  holds.
\<close>

definition BitStream_copy :: "nat \<Rightarrow> BitStream \<Rightarrow> bool \<Rightarrow> BitStream" where
  "BitStream_copy junk b iterator_mode =
     (if vector_mode b then
        if iterator_mode
        then b\<lparr>head_count := (if 0 < length (stream b) then 8 else 0), tail_count := 0,
               bs_index := 0, header_size := junk\<rparr>
        else b\<lparr>header_size := junk\<rparr>
      else b\<lparr>bs_index := 0, head_count := (if 0 < bs_end b then 8 else 0), tail_count := 0,
             header_size := junk\<rparr>)"

subsection \<open>Access\<close>

definition byte_at :: "BitStream \<Rightarrow> nat \<Rightarrow> u8" where
  "byte_at b i = (if i < length (stream b) then stream b ! i else beyond b (i - length (stream b)))"

definition bytes_ptr :: "BitStream \<Rightarrow> nat \<Rightarrow> u8" where
  "bytes_ptr b i = byte_at b (if vector_mode b then header_size b + i else i)"

definition pop_front :: "BitStream \<Rightarrow> BitStream" where
  "pop_front b = b\<lparr>bs_index := bs_index b + 1\<rparr>"

definition bs_size :: "BitStream \<Rightarrow> nat" where
  "bs_size b = (if vector_mode b then length (stream b) else bs_end b)"

definition write_pos :: "BitStream \<Rightarrow> nat" where
  "write_pos b = (if tail_count b = 0 then bs_size b * 8 else (bs_size b - 1) * 8 + tail_count b)"

subsection \<open>Writing\<close>

definition or_back :: "u8 \<Rightarrow> bytes \<Rightarrow> bytes" where
  "or_back x s = s[length s - 1 := last s OR x]"

definition open_byte :: "BitStream \<Rightarrow> BitStream" where
  "open_byte b =
     (if tail_count b = 0 then b\<lparr>stream := stream b @ [0], bs_end := bs_end b + 1\<rparr> else b)"

definition write_bit :: "bool \<Rightarrow> BitStream \<Rightarrow> BitStream" where
  "write_bit x b0 =
     (let b = open_byte b0;
          tc = tail_count b + 1;
          s = (if x then or_back (push_bit (8 - tc) 1) (stream b) else stream b)
      in b\<lparr>stream := s, tail_count := tc mod 8\<rparr>)"

definition write_byte :: "u8 \<Rightarrow> BitStream \<Rightarrow> BitStream" where
  "write_byte x b0 =
     (let b = open_byte b0;
          tc = tail_count b;
          s = or_back (drop_bit tc x) (stream b)
      in if tc \<noteq> 0
         then b\<lparr>stream := s @ [push_bit (8 - tc) x], bs_end := bs_end b + 1\<rparr>
         else b\<lparr>stream := s\<rparr>)"

primrec write_bytes_be_loop :: "i64 \<Rightarrow> nat \<Rightarrow> BitStream \<Rightarrow> BitStream" where
  "write_bytes_be_loop v 0 b = b"
| "write_bytes_be_loop v (Suc i) b =
     write_bytes_be_loop v i (write_byte (ucast (signed_drop_bit (8 * i) v AND 255)) b)"

definition write_bytes_be :: "i64 \<Rightarrow> nat \<Rightarrow> BitStream \<Rightarrow> BitStream result" where
  "write_bytes_be v num b = (if 8 < num then Undef else Ok (write_bytes_be_loop v num b))"

fun write_bits_loop :: "u64 \<Rightarrow> nat \<Rightarrow> BitStream \<Rightarrow> BitStream" where
  "write_bits_loop bits num b =
     (if 8 \<le> num
      then write_bits_loop (push_bit 8 bits) (num - 8) (write_byte (ucast (255 AND drop_bit 56 bits)) b)
      else if 0 < num
      then write_bits_loop (push_bit 1 bits) (num - 1) (write_bit (drop_bit 63 bits = 1) b)
      else b)"

declare write_bits_loop.simps [simp del]

text \<open>The shift by \<open>64 - num\<close> is undefined unless \<open>0 < num \<le> 64\<close>.\<close>

definition write_bits :: "u64 \<Rightarrow> int \<Rightarrow> BitStream \<Rightarrow> BitStream result" where
  "write_bits bits num b =
     (if num \<le> 0 \<or> 64 < num then Undef
      else Ok (write_bits_loop (push_bit (64 - nat num) bits) (nat num) b))"

primrec write_byte_bits :: "u8 \<Rightarrow> nat \<Rightarrow> BitStream \<Rightarrow> BitStream" where
  "write_byte_bits j 0 b = b"
| "write_byte_bits j (Suc n) b = write_byte_bits (push_bit 1 j) n (write_bit (drop_bit 7 j = 1) b)"

fun write_stream_loop :: "(nat \<Rightarrow> u8) \<Rightarrow> nat \<Rightarrow> nat \<Rightarrow> BitStream \<Rightarrow> BitStream" where
  "write_stream_loop ptr i num b =
     (if 8 \<le> num then write_stream_loop ptr (i + 1) (num - 8) (write_byte (ptr i) b)
      else if 0 < num then write_byte_bits (ptr i) num b
      else b)"

declare write_stream_loop.simps [simp del]

definition write_stream :: "BitStream \<Rightarrow> nat \<Rightarrow> BitStream \<Rightarrow> BitStream" where
  "write_stream s num b = write_stream_loop (bytes_ptr s) 0 num b"

fun write_padding :: "nat \<Rightarrow> BitStream \<Rightarrow> BitStream" where
  "write_padding num b =
     (if 8 \<le> num then write_padding (num - 8) (write_byte 0 b)
      else if 0 < num then write_padding (num - 1) (write_bit False b)
      else b)"

declare write_padding.simps [simp del]

subsection \<open>Reading in sequence\<close>

text \<open>The test for the end that \<open>read_bit\<close> and \<open>read_byte\<close> start with.\<close>

definition ensure_byte :: "BitStream \<Rightarrow> bool \<times> BitStream" where
  "ensure_byte b =
     (if bs_end b \<le> bs_index b then (False, b)
      else if head_count b = 0 then
        let b' = b\<lparr>bs_index := bs_index b + 1\<rparr>
        in if bs_end b' \<le> bs_index b' then (False, b') else (True, b'\<lparr>head_count := 8\<rparr>)
      else (True, b))"

definition read_bit :: "BitStream \<Rightarrow> bool result \<times> BitStream" where
  "read_bit b0 =
     (case ensure_byte b0 of
        (False, b) \<Rightarrow> (Throw, b)
      | (True, b) \<Rightarrow>
          (Ok (push_bit (8 - head_count b) (ucast (byte_at b (bs_index b)) :: u32) AND 0x80 = 0x80),
           b\<lparr>head_count := head_count b - 1\<rparr>))"

definition read_byte :: "BitStream \<Rightarrow> u8 result \<times> BitStream" where
  "read_byte b0 =
     (case ensure_byte b0 of
        (False, b) \<Rightarrow> (Throw, b)
      | (True, b) \<Rightarrow>
          let hc = head_count b;
              temp = push_bit (8 - hc) (byte_at b (bs_index b));
              b' = b\<lparr>bs_index := bs_index b + 1\<rparr>
          in if hc \<noteq> 8 \<and> bs_end b' \<le> bs_index b' then (Throw, b')
             else (Ok (temp OR drop_bit hc (byte_at b' (bs_index b'))), b'))"

fun read_bits_loop :: "nat \<Rightarrow> u64 \<Rightarrow> BitStream \<Rightarrow> (u64 \<times> nat) result \<times> BitStream" where
  "read_bits_loop num acc b =
     (if 8 \<le> num then
        rs_bind (read_byte b) (\<lambda>temp b'.
          read_bits_loop (num - 8) (push_bit 8 acc OR ucast temp) b')
      else (Ok (acc, num), b))"

declare read_bits_loop.simps [simp del]

definition read_bits_end :: "nat \<Rightarrow> u64 \<Rightarrow> BitStream \<Rightarrow> u64 result \<times> BitStream" where
  "read_bits_end num acc b =
     (Ok (push_bit num acc OR
          (drop_bit (head_count b - num) (ucast (byte_at b (bs_index b))) AND (push_bit num 1 - 1))),
      b\<lparr>head_count := head_count b - num\<rparr>)"

definition read_bits_tail :: "nat \<Rightarrow> u64 \<Rightarrow> BitStream \<Rightarrow> u64 result \<times> BitStream" where
  "read_bits_tail num acc b =
     (if head_count b < num then
        let acc' = push_bit (head_count b) acc OR
              (ucast (byte_at b (bs_index b)) AND (push_bit (head_count b) 1 - 1));
            b' = b\<lparr>bs_index := bs_index b + 1\<rparr>
        in if bs_end b' \<le> bs_index b' then (Throw, b')
           else read_bits_end (num - head_count b) acc' (b'\<lparr>head_count := 8\<rparr>)
      else read_bits_end num acc b)"

definition read_bits :: "int \<Rightarrow> BitStream \<Rightarrow> u64 result \<times> BitStream" where
  "read_bits num b =
     (if num < 0 then (Undef, b)
      else rs_bind (read_bits_loop (nat num) 0 b) (\<lambda>(acc, n) b'. read_bits_tail n acc b'))"

function bs_varint_loop :: "u64 \<Rightarrow> nat \<Rightarrow> BitStream \<Rightarrow> u64 result \<times> BitStream" where
  "bs_varint_loop acc shift b =
     rs_bind (read_byte b) (\<lambda>current b'.
       if 64 \<le> shift then (Undef, b')
       else let acc' = acc OR push_bit shift (ucast (current AND 127))
            in if current AND 128 \<noteq> 0 then bs_varint_loop acc' (shift + 7) b' else (Ok acc', b'))"
  by pat_completeness auto
termination
  by (relation "measure (\<lambda>(acc, shift, b). 64 - shift)") auto

declare bs_varint_loop.simps [simp del]

definition read_unsigned_varint :: "BitStream \<Rightarrow> u64 result \<times> BitStream" where
  "read_unsigned_varint b = bs_varint_loop 0 0 b"

definition read_signed_varint :: "BitStream \<Rightarrow> i64 result \<times> BitStream" where
  "read_signed_varint b =
     rs_bind (read_unsigned_varint b) (\<lambda>u b'.
       (Ok (if u AND 1 \<noteq> 0 then NOT (drop_bit 1 u) else drop_bit 1 u), b'))"

subsection \<open>Reading at a position\<close>

definition read_bit_at :: "BitStream \<Rightarrow> nat \<Rightarrow> bool result" where
  "read_bit_at b pos =
     (let i = pos div 8; hc = pos mod 8
      in if bs_end b \<le> i then Throw
         else Ok (push_bit hc (ucast (byte_at b i) :: u32) AND 0x80 = 0x80))"

definition read_byte_at :: "BitStream \<Rightarrow> nat \<Rightarrow> u8 result" where
  "read_byte_at b pos =
     (let i = pos div 8; hc = pos mod 8
      in if bs_end b \<le> i then Throw
         else if hc \<noteq> 0 \<and> bs_end b \<le> i + 1 then Throw
         else Ok (push_bit hc (byte_at b i) OR drop_bit (8 - hc) (byte_at b (i + 1))))"

text \<open>The helpers work on a cursor of their own, the byte index and the bits left in that byte.\<close>

definition read_byte_helper :: "BitStream \<Rightarrow> nat \<times> nat \<Rightarrow> u8 result \<times> (nat \<times> nat)" where
  "read_byte_helper b = (\<lambda>(i0, hc0).
     if bs_end b \<le> i0 then (Throw, (i0, hc0))
     else if hc0 = 0 \<and> bs_end b \<le> i0 + 1 then (Throw, (i0 + 1, hc0))
     else let i = (if hc0 = 0 then i0 + 1 else i0);
              hc = (if hc0 = 0 then 8 else hc0)
          in if hc \<noteq> 8 \<and> bs_end b \<le> i + 1 then (Throw, (i + 1, hc))
             else (Ok (push_bit (8 - hc) (byte_at b i) OR drop_bit hc (byte_at b (i + 1))), (i + 1, hc)))"

primrec read_bytes_be_loop :: "BitStream \<Rightarrow> nat \<Rightarrow> i64 \<Rightarrow> nat \<times> nat \<Rightarrow> i64 result \<times> (nat \<times> nat)" where
  "read_bytes_be_loop b 0 acc c = (Ok acc, c)"
| "read_bytes_be_loop b (Suc i) acc c =
     rs_bind (read_byte_helper b c) (\<lambda>x. read_bytes_be_loop b i (push_bit 8 acc OR ucast x))"

definition bytes64pretable :: "i64 list" where
  "bytes64pretable = [0xffffffffffffff00, 0xffffffffffff0000, 0xffffffffff000000, 0xffffffff00000000,
     0xffffff0000000000, 0xffff000000000000, 0xff00000000000000, 0]"

definition read_bytes_be_at :: "BitStream \<Rightarrow> nat \<Rightarrow> nat \<Rightarrow> i64 result" where
  "read_bytes_be_at b pos num =
     res_bind (fst (read_bytes_be_loop b num 0 (pos div 8, 8 - pos mod 8))) (\<lambda>acc.
       if num = 0 \<or> 8 < num then Undef
       else Ok (if signed_drop_bit (num * 8 - 1) acc = 1 then acc OR bytes64pretable ! (num - 1) else acc))"

fun read_bits_at_loop :: "BitStream \<Rightarrow> nat \<Rightarrow> u64 \<Rightarrow> nat \<times> nat \<Rightarrow> (u64 \<times> nat) result \<times> (nat \<times> nat)" where
  "read_bits_at_loop b num acc c =
     (if 8 \<le> num then
        rs_bind (read_byte_helper b c) (\<lambda>x. read_bits_at_loop b (num - 8) (push_bit 8 acc OR ucast x))
      else (Ok (acc, num), c))"

declare read_bits_at_loop.simps [simp del]

definition read_bits_at_tail :: "BitStream \<Rightarrow> nat \<Rightarrow> u64 \<Rightarrow> nat \<times> nat \<Rightarrow> u64 result" where
  "read_bits_at_tail b num acc = (\<lambda>(i, hc).
     if hc < num then
       if bs_end b \<le> i + 1 then Throw
       else let acc' = push_bit hc acc OR (ucast (byte_at b i) AND (push_bit hc 1 - 1)); n = num - hc
            in Ok (push_bit n acc' OR (drop_bit (8 - n) (ucast (byte_at b (i + 1))) AND (push_bit n 1 - 1)))
     else Ok (push_bit num acc OR (drop_bit (hc - num) (ucast (byte_at b i)) AND (push_bit num 1 - 1))))"

definition read_bits_at :: "BitStream \<Rightarrow> nat \<Rightarrow> nat \<Rightarrow> u64 result" where
  "read_bits_at b pos num =
     (case read_bits_at_loop b num 0 (pos div 8, 8 - pos mod 8) of
        (Ok (acc, n), c) \<Rightarrow> read_bits_at_tail b n acc c
      | (Throw, c) \<Rightarrow> Throw
      | (Undef, c) \<Rightarrow> Undef)"

text \<open>The count of bits read is an 8-bit counter.\<close>

function varint_at_loop :: "BitStream \<Rightarrow> u64 \<Rightarrow> nat \<Rightarrow> u8 \<Rightarrow> nat \<times> nat \<Rightarrow> (u64 \<times> u8) result \<times> (nat \<times> nat)" where
  "varint_at_loop b acc shift c cur =
     rs_bind (read_byte_helper b cur) (\<lambda>current cur'.
       if 64 \<le> shift then (Undef, cur')
       else let acc' = acc OR push_bit shift (ucast (current AND 127))
            in if current AND 128 \<noteq> 0 then varint_at_loop b acc' (shift + 7) (c + 8) cur'
               else (Ok (acc', c + 8), cur'))"
  by pat_completeness auto
termination
  by (relation "measure (\<lambda>(b, acc, shift, c, cur). 64 - shift)") auto

declare varint_at_loop.simps [simp del]

definition read_unsigned_varint_at :: "BitStream \<Rightarrow> nat \<Rightarrow> (u64 \<times> u8) result" where
  "read_unsigned_varint_at b pos = fst (varint_at_loop b 0 0 0 (pos div 8, 8 - pos mod 8))"

definition read_signed_varint_at :: "BitStream \<Rightarrow> nat \<Rightarrow> (i64 \<times> u8) result" where
  "read_signed_varint_at b pos =
     res_bind (read_unsigned_varint_at b pos) (\<lambda>(u, c).
       Ok (if u AND 1 \<noteq> 0 then NOT (drop_bit 1 u) else drop_bit 1 u, c))"

subsection \<open>The bits a stream holds\<close>

definition bs_written :: "BitStream \<Rightarrow> bool list" where
  "bs_written b = take (write_pos b) (bytes_bits (stream b))"

definition writer_ok :: "BitStream \<Rightarrow> bool" where
  "writer_ok b \<longleftrightarrow> vector_mode b \<and> bs_end b = length (stream b) \<and> tail_count b < 8
     \<and> (tail_count b \<noteq> 0 \<longrightarrow> stream b \<noteq> [] \<and> (\<forall>i < 8 - tail_count b. \<not> bit (last (stream b)) i))"

lemma open_byte_view:
  assumes "writer_ok b"
  obtains ss c where "stream (open_byte b) = ss @ [c]" "tail_count (open_byte b) = tail_count b"
    "bs_written b = bytes_bits ss @ take (tail_count b) (byte_bits c)"
    "\<forall>i < 8 - tail_count b. \<not> bit c i" "bs_end (open_byte b) = length ss + 1"
    "vector_mode (open_byte b)" "tail_count b < 8"
proof (cases "tail_count b = 0")
  case True
  then show thesis using assms
    by (intro that [of "stream b" 0])
      (simp_all add: writer_ok_def open_byte_def bs_written_def write_pos_def bs_size_def mult.commute)
next
  case False
  then obtain ss c where "stream b = ss @ [c]"
    using assms by (cases "stream b" rule: rev_cases) (simp_all add: writer_ok_def)
  with False assms show thesis
    by (intro that [of ss c])
      (simp_all add: writer_ok_def open_byte_def bs_written_def write_pos_def bs_size_def mult.commute)
qed

lemma or_back_snoc [simp]: "or_back x (ss @ [c]) = ss @ [c OR x]"
  by (simp add: or_back_def)

lemma writer_ok_snoc:
  assumes "stream b = ss @ [c]" "bs_end b = length ss + 1" "vector_mode b" "tail_count b < 8"
    "tail_count b \<noteq> 0 \<Longrightarrow> \<forall>i < 8 - tail_count b. \<not> bit c i"
  shows "writer_ok b"
    and "bs_written b = bytes_bits ss
      @ (if tail_count b = 0 then byte_bits c else take (tail_count b) (byte_bits c))"
  using assms by (auto simp: writer_ok_def bs_written_def write_pos_def bs_size_def mult.commute)

lemma write_bit_written:
  assumes "writer_ok b"
  shows "writer_ok (write_bit x b)" and "bs_written (write_bit x b) = bs_written b @ [x]"
proof -
  from open_byte_view [OF assms] obtain ss c where v:
    "stream (open_byte b) = ss @ [c]" "tail_count (open_byte b) = tail_count b"
    "bs_written b = bytes_bits ss @ take (tail_count b) (byte_bits c)"
    "\<forall>i < 8 - tail_count b. \<not> bit c i" "bs_end (open_byte b) = length ss + 1"
    "vector_mode (open_byte b)" "tail_count b < 8" .
  let ?c = "if x then c OR push_bit (7 - tail_count b) 1 else c"
  have str: "stream (write_bit x b) = ss @ [?c]"
    and tc: "tail_count (write_bit x b) = (tail_count b + 1) mod 8"
    using v by (simp_all add: write_bit_def Let_def)
  have rest: "bs_end (write_bit x b) = length ss + 1" "vector_mode (write_bit x b)"
    using v by (simp_all add: write_bit_def Let_def)
  have zeros: "\<forall>i < 8 - tail_count (write_bit x b). \<not> bit ?c i" if "tail_count (write_bit x b) \<noteq> 0"
    using v(4,7) that tc by (cases "tail_count b = 7") (auto simp: bit_simps)
  note snoc = writer_ok_snoc [OF str rest _ zeros]
  show "writer_ok (write_bit x b)" using tc by (intro snoc) simp_all
  have tk: "take (Suc (tail_count b)) (byte_bits ?c) = take (tail_count b) (byte_bits c) @ [x]"
    using v(4,7) by (intro take_Suc_byte_bits)
  have "bs_written (write_bit x b) = bytes_bits ss @ take (Suc (tail_count b)) (byte_bits ?c)"
    using snoc(2) tc v(7) by (cases "tail_count b = 7") simp_all
  also have "\<dots> = bs_written b @ [x]" using v(3) by (simp only: tk append_assoc)
  finally show "bs_written (write_bit x b) = bs_written b @ [x]" .
qed

interpretation chunk_sink: bit_sink write_bit bs_written writer_ok
  by unfold_locales (simp_all add: write_bit_written)

lemma byte_bits_split:
  assumes "t < 8" "\<forall>i < 8 - t. \<not> bit c i"
  shows "byte_bits (c OR drop_bit t x) @ take t (byte_bits (push_bit (8 - t) x))
    = take t (byte_bits c) @ byte_bits x"
proof (rule nth_equalityI)
  fix i assume "i < length (byte_bits (c OR drop_bit t x) @ take t (byte_bits (push_bit (8 - t) x)))"
  then show "(byte_bits (c OR drop_bit t x) @ take t (byte_bits (push_bit (8 - t) x))) ! i
      = (take t (byte_bits c) @ byte_bits x) ! i"
    using assms by (auto simp: byte_bits_def nth_append nth_msb_bits bit_simps intro!: arg_cong [of _ _ "bit x"]
      dest: bit_imp_le_length)
qed (use assms in simp)

lemma write_byte_written:
  assumes "writer_ok b"
  shows "writer_ok (write_byte x b)" and "bs_written (write_byte x b) = bs_written b @ byte_bits x"
proof -
  from open_byte_view [OF assms] obtain ss c where v:
    "stream (open_byte b) = ss @ [c]" "tail_count (open_byte b) = tail_count b"
    "bs_written b = bytes_bits ss @ take (tail_count b) (byte_bits c)"
    "\<forall>i < 8 - tail_count b. \<not> bit c i" "bs_end (open_byte b) = length ss + 1"
    "vector_mode (open_byte b)" "tail_count b < 8" .
  note split = byte_bits_split [OF v(7,4), of x]
  have "writer_ok (write_byte x b) \<and> bs_written (write_byte x b) = bs_written b @ byte_bits x"
  proof (cases "tail_count b = 0")
    case True
    then have c: "c = 0" using v(4) by (intro bit_word_eqI) simp
    then show ?thesis using True v writer_ok_snoc [of "write_byte x b" ss x]
      by (simp add: write_byte_def Let_def)
  next
    case False
    let ?d = "push_bit (8 - tail_count b) x"
    have "stream (write_byte x b) = (ss @ [c OR drop_bit (tail_count b) x]) @ [?d]"
      "bs_end (write_byte x b) = length (ss @ [c OR drop_bit (tail_count b) x]) + 1"
      "vector_mode (write_byte x b)" "tail_count (write_byte x b) = tail_count b"
      using False v by (simp_all add: write_byte_def Let_def)
    note snoc = writer_ok_snoc [OF this(1-3)] this(4)
    have "\<forall>i < 8 - tail_count b. \<not> bit ?d i" by (simp add: bit_simps)
    with snoc False v split show ?thesis by simp
  qed
  then show "writer_ok (write_byte x b)" and "bs_written (write_byte x b) = bs_written b @ byte_bits x"
    by simp_all
qed

lemma take_msb_bits_push:
  fixes w :: u64
  shows "k + n \<le> 64 \<Longrightarrow> take n (msb_bits 64 (push_bit k w)) = take n (drop k (msb_bits 64 w))"
  by (rule nth_equalityI) (auto simp: nth_msb_bits bit_simps add.commute)

lemma byte_bits_top: "byte_bits (ucast (255 AND drop_bit 56 w)) = take 8 (msb_bits 64 w)" for w :: u64
proof -
  have "msb_bits 8 (ucast (drop_bit 56 w) :: u8) = msb_bits 8 (drop_bit 56 w)"
    by (rule msb_bits_ucast) simp
  then show ?thesis using msb_bits_add [of 8 56 w]
    by (simp add: byte_bits_def and.commute [of 255] ucast_and_255)
qed

lemma drop_bit_63_eq_1: "(drop_bit 63 w = 1) = bit w 63" for w :: u64
proof -
  have "drop_bit 63 w = of_bool (bit w 63)"
  proof (rule bit_word_eqI)
    fix n
    show "bit (drop_bit 63 w) n = bit (of_bool (bit w 63) :: u64) n"
      using bit_imp_le_length [of w "63 + n"] by (cases n) (auto simp: bit_simps)
  qed
  then show ?thesis by simp
qed

lemma write_bits_loop_written:
  assumes "writer_ok b" "num \<le> 64"
  shows "writer_ok (write_bits_loop w num b)
    \<and> bs_written (write_bits_loop w num b) = bs_written b @ take num (msb_bits 64 w)"
  using assms
proof (induction w num b rule: write_bits_loop.induct)
  case (1 w num b)
  show ?case
  proof (cases "8 \<le> num")
    case True
    let ?b = "write_byte (ucast (255 AND drop_bit 56 w)) b"
    have "take 8 (msb_bits 64 w) @ take (num - 8) (drop 8 (msb_bits 64 w)) = take num (msb_bits 64 w)"
      using True take_add [of 8 "num - 8" "msb_bits 64 w"] by simp
    moreover have "take (num - 8) (msb_bits 64 (push_bit 8 w)) = take (num - 8) (drop 8 (msb_bits 64 w))"
      using "1.prems"(2) True by (intro take_msb_bits_push) simp
    ultimately show ?thesis
      using "1.IH"(1) [OF True] True "1.prems" write_byte_written [OF "1.prems"(1)]
      by (subst (1 2) write_bits_loop.simps) (simp add: byte_bits_top)
  next
    case small: False
    show ?thesis
    proof (cases "0 < num")
      case True
      have "msb_bits 64 w = bit w 63 # drop 1 (msb_bits 64 w)"
        using msb_bits_Suc [of 63 w] by simp
      then have "bit w 63 # take (num - 1) (drop 1 (msb_bits 64 w)) = take num (msb_bits 64 w)"
        using True by (metis Suc_pred' One_nat_def take_Suc_Cons)
      moreover have "take (num - 1) (msb_bits 64 (push_bit 1 w)) = take (num - 1) (drop 1 (msb_bits 64 w))"
        using "1.prems"(2) True by (intro take_msb_bits_push) simp
      ultimately show ?thesis
        using "1.IH"(2) [OF small True] small True "1.prems" write_bit_written [OF "1.prems"(1)]
        by (subst (1 2) write_bits_loop.simps) (simp add: drop_bit_63_eq_1)
    next
      case False
      then show ?thesis using small "1.prems" by (subst (1 2) write_bits_loop.simps) simp
    qed
  qed
qed

lemma write_bits_written:
  assumes "writer_ok b" "0 < num" "num \<le> 64"
  obtains b' where "write_bits w num b = Ok b'" "writer_ok b'"
    "bs_written b' = bs_written b @ msb_bits (nat num) w"
proof -
  have n: "nat num \<le> 64" using assms(3) by simp
  have "take (nat num) (msb_bits 64 (push_bit (64 - nat num) w)) = msb_bits (nat num) w"
    using n by (intro nth_equalityI) (auto simp: nth_msb_bits bit_simps)
  with write_bits_loop_written [OF assms(1) n] assms(2,3) show thesis
    by (intro that [of "write_bits_loop (push_bit (64 - nat num) w) (nat num) b"])
      (simp_all add: write_bits_def)
qed

lemma write_padding_written:
  "writer_ok b \<Longrightarrow> writer_ok (write_padding num b)
     \<and> bs_written (write_padding num b) = bs_written b @ replicate num False"
proof (induction num b rule: write_padding.induct)
  case (1 num b)
  have z: "byte_bits 0 = replicate 8 False" by (simp add: byte_bits_def msb_bits_zero)
  consider "8 \<le> num" | "0 < num" "num < 8" | "num = 0" by linarith
  then show ?case
  proof cases
    case 1
    then have "replicate 8 False @ replicate (num - 8) False = replicate num False"
      using replicate_add [of 8 "num - 8" False] by simp
    with 1 "1.IH"(1) [OF 1] write_byte_written [OF "1.prems"] z show ?thesis
      by (subst (1 2) write_padding.simps) simp
  next
    case 2
    then have "False # replicate (num - 1) False = replicate num False" by (cases num) simp_all
    with 2 "1.IH"(2) write_bit_written [OF "1.prems"] show ?thesis
      by (subst (1 2) write_padding.simps) simp
  next
    case 3
    then show ?thesis using "1.prems" by (subst (1 2) write_padding.simps) simp
  qed
qed

lemma write_bytes_be_written:
  "writer_ok b \<Longrightarrow> num \<le> 8 \<Longrightarrow> writer_ok (write_bytes_be_loop v num b)
     \<and> bs_written (write_bytes_be_loop v num b) = bs_written b @ msb_bits (8 * num) v"
proof (induction num arbitrary: b)
  case (Suc i)
  let ?x = "ucast (signed_drop_bit (8 * i) v AND 255) :: u8"
  have "byte_bits ?x = msb_bits 8 (drop_bit (8 * i) v)"
    using Suc.prems(2) unfolding byte_bits_def ucast_and_255
    by (intro nth_equalityI) (auto simp: nth_msb_bits bit_simps min_def)
  then have "bs_written (write_byte ?x b) @ msb_bits (8 * i) v = bs_written b @ msb_bits (8 * Suc i) v"
    using write_byte_written(2) [OF Suc.prems(1), of ?x] msb_bits_add [of 8 "8 * i" v] by simp
  with Suc.IH [OF write_byte_written(1) [OF Suc.prems(1), of ?x]] Suc.prems(2) show ?case by simp
qed simp

lemma drop_bit_7_eq_1: "(drop_bit 7 j = 1) = bit j 7" for j :: u8
proof -
  have "drop_bit 7 j = of_bool (bit j 7)"
  proof (rule bit_word_eqI)
    fix n
    show "bit (drop_bit 7 j) n = bit (of_bool (bit j 7) :: u8) n"
      using bit_imp_le_length [of j "7 + n"] by (cases n) (auto simp: bit_simps)
  qed
  then show ?thesis by simp
qed

lemma write_byte_bits_written:
  "writer_ok b \<Longrightarrow> n \<le> 8 \<Longrightarrow> writer_ok (write_byte_bits j n b)
     \<and> bs_written (write_byte_bits j n b) = bs_written b @ take n (byte_bits j)"
proof (induction n arbitrary: j b)
  case (Suc n)
  have "byte_bits j = bit j 7 # drop 1 (byte_bits j)"
    using msb_bits_Suc [of 7 j] by (simp add: byte_bits_def)
  then have "take (Suc n) (byte_bits j) = bit j 7 # take n (drop 1 (byte_bits j))"
    by (metis take_Suc_Cons)
  moreover have "take n (byte_bits (push_bit 1 j)) = take n (drop 1 (byte_bits j))"
    using Suc.prems(2) unfolding byte_bits_def
    by (intro nth_equalityI) (auto simp: nth_msb_bits bit_times_2_iff)
  ultimately show ?case
    using Suc.IH [OF write_bit_written(1) [OF Suc.prems(1)], of "push_bit 1 j"] Suc.prems
      write_bit_written(2) [OF Suc.prems(1)]
    by (simp add: drop_bit_7_eq_1)
qed simp

lemma write_stream_loop_written:
  "writer_ok b \<Longrightarrow> writer_ok (write_stream_loop ptr i num b)
     \<and> bs_written (write_stream_loop ptr i num b)
       = bs_written b @ take num (bytes_bits (map ptr [i..<i + (num + 7) div 8]))"
proof (induction ptr i num b rule: write_stream_loop.induct)
  case (1 ptr i num b)
  consider "8 \<le> num" | "0 < num" "num < 8" | "num = 0" by linarith
  then show ?case
  proof cases
    case 1
    then have "(num + 7) div 8 = Suc ((num - 8 + 7) div 8)"
      using le_div_geq [of 8 "num + 7"] by simp
    then have "bytes_bits (map ptr [i..<i + (num + 7) div 8])
        = byte_bits (ptr i) @ bytes_bits (map ptr [i + 1..<i + 1 + (num - 8 + 7) div 8])"
      by (simp add: upt_conv_Cons)
    with 1 "1.IH" [OF 1] write_byte_written [OF "1.prems"] show ?thesis
      by (subst (1 2) write_stream_loop.simps) simp
  next
    case 2
    then have "(num + 7) div 8 = 1" by simp
    with 2 write_byte_bits_written [OF "1.prems", of num] show ?thesis
      by (subst (1 2) write_stream_loop.simps) simp
  next
    case 3
    then show ?thesis using "1.prems" by (subst (1 2) write_stream_loop.simps) simp
  qed
qed

subsection \<open>The bits a reader has left\<close>

definition bs_src :: "BitStream \<Rightarrow> bool list" where
  "bs_src b = bytes_bits (stream b)"

definition bs_pos :: "BitStream \<Rightarrow> nat" where
  "bs_pos b = 8 * bs_index b + (8 - head_count b)"

lemma bs_pos_update [simp]:
  "bs_pos (b\<lparr>bs_index := i\<rparr>) = 8 * i + (8 - head_count b)"
  "bs_pos (b\<lparr>head_count := h\<rparr>) = 8 * bs_index b + (8 - h)"
  by (simp_all add: bs_pos_def)

definition reader_ok :: "BitStream \<Rightarrow> bool" where
  "reader_ok b \<longleftrightarrow> bs_end b = length (stream b) \<and> head_count b \<le> 8"

text \<open>\<open>moved n b b'\<close>: reading moved \<open>b\<close> forward by \<open>n\<close> bits.\<close>

definition moved :: "nat \<Rightarrow> BitStream \<Rightarrow> BitStream \<Rightarrow> bool" where
  "moved n b b' \<longleftrightarrow> reader_ok b' \<and> stream b' = stream b \<and> bs_pos b' = bs_pos b + n"

lemma moved_trans: "moved m b b' \<Longrightarrow> moved n b' b'' \<Longrightarrow> moved (m + n) b b''"
  by (simp add: moved_def)

lemma ensure_byte_True:
  assumes "reader_ok b" "bs_pos b < 8 * length (stream b)"
  obtains b' where "ensure_byte b = (True, b')" "moved 0 b b'" "0 < head_count b'"
    "bs_index b' < length (stream b)" "bs_end b' = bs_end b" "bs_end b = length (stream b)"
proof (cases "head_count b = 0")
  case True
  with assms show thesis
    by (intro that [of "b\<lparr>bs_index := bs_index b + 1, head_count := 8\<rparr>"])
      (simp_all add: ensure_byte_def reader_ok_def bs_pos_def moved_def Let_def)
next
  case False
  from assms have "bs_index b < length (stream b)" by (simp add: bs_pos_def)
  with False assms show thesis
    by (intro that [of b]) (simp_all add: ensure_byte_def reader_ok_def moved_def)
qed

lemma ensure_byte_False:
  assumes "reader_ok b" "8 * length (stream b) \<le> bs_pos b"
  obtains b' where "ensure_byte b = (False, b')"
proof (cases "bs_end b \<le> bs_index b")
  case False
  with assms have "head_count b = 0 \<and> bs_end b \<le> bs_index b + 1"
    by (auto simp: reader_ok_def bs_pos_def)
  with False that show thesis by (simp add: ensure_byte_def Let_def)
qed (use that in \<open>simp add: ensure_byte_def\<close>)

lemma drop_bytes_bits_at:
  assumes "i < length s" "k \<le> 8"
  shows "drop (8 * i + k) (bytes_bits s) = drop k (byte_bits (s ! i)) @ bytes_bits (drop (Suc i) s)"
proof -
  have "drop (8 * i + k) (bytes_bits s) = drop k (bytes_bits (drop i s))"
    using drop_drop [of k "8 * i" "bytes_bits s"] drop_bytes_bits [of i s] by (simp add: add.commute)
  also have "\<dots> = drop k (byte_bits (s ! i)) @ bytes_bits (drop (Suc i) s)"
    using assms(2) by (simp add: Cons_nth_drop_Suc [OF assms(1), symmetric])
  finally show ?thesis .
qed

lemma bit_test_80: "0 < h \<Longrightarrow> h \<le> 8 \<Longrightarrow>
  (push_bit (8 - h) (ucast x :: u32) AND 0x80 = 0x80) = bit x (h - 1)" for x :: u8
proof -
  assume h: "0 < h" "h \<le> 8"
  have b80: "bit (0x80 :: u32) n = bit (push_bit 7 1 :: u32) n" for n
    by (simp add: push_bit_eq_mult)
  have "(w AND 0x80 = 0x80) = bit w 7" for w :: u32
  proof
    assume "w AND 0x80 = 0x80"
    then have "bit (w AND 0x80) 7 = bit (0x80 :: u32) 7" by simp
    then show "bit w 7" by (simp add: bit_and_iff)
  next
    assume "bit w 7"
    then show "w AND 0x80 = 0x80"
      by (intro bit_word_eqI) (simp only: bit_and_iff b80 bit_push_bit_iff bit_1_iff, auto)
  qed
  then show ?thesis using h by (auto simp: bit_simps)
qed

lemma read_bit_in:
  assumes "reader_ok b" "bs_pos b < length (bs_src b)"
  obtains b' where "read_bit b = (Ok (bs_src b ! bs_pos b), b')" "moved 1 b b'"
proof -
  have lt: "bs_pos b < 8 * length (stream b)" using assms(2) by (simp add: bs_src_def)
  from ensure_byte_True [OF assms(1) lt] obtain b' where r:
    "ensure_byte b = (True, b')" "moved 0 b b'" "0 < head_count b'"
    "bs_index b' < length (stream b)" "bs_end b' = bs_end b" "bs_end b = length (stream b)" .
  have hc: "head_count b' \<le> 8" and str: "stream b' = stream b" and eq: "bs_pos b' = bs_pos b"
    and fin: "bs_end b' = length (stream b')"
    using r(2) by (simp_all add: moved_def reader_ok_def)
  have pos: "bs_pos b = 8 * bs_index b' + (8 - head_count b')"
    using eq by (simp only: bs_pos_def [of b'])
  have nth: "bs_src b ! bs_pos b = bit (stream b ! bs_index b') (head_count b' - 1)"
    using nth_bytes_bits [OF r(4), of "8 - head_count b'"] r(3) hc by (simp add: bs_src_def pos)
  have "moved 1 b (b'\<lparr>head_count := head_count b' - 1\<rparr>)"
    using r(3) hc str pos fin
    by (auto simp: moved_def reader_ok_def)
  moreover have "read_bit b = (Ok (bs_src b ! bs_pos b), b'\<lparr>head_count := head_count b' - 1\<rparr>)"
    using r(1,3,4) str hc unfolding nth by (simp add: read_bit_def byte_at_def bit_test_80)
  ultimately show thesis by (intro that)
qed

lemma read_bit_end:
  assumes "reader_ok b" "length (bs_src b) \<le> bs_pos b"
  obtains b' where "read_bit b = (Throw, b')"
proof -
  have "8 * length (stream b) \<le> bs_pos b" using assms(2) by (simp add: bs_src_def)
  from ensure_byte_False [OF assms(1) this] obtain b' where "ensure_byte b = (False, b')" .
  then show thesis by (intro that) (simp add: read_bit_def)
qed

definition try_bit :: "BitStream \<Rightarrow> (bool \<times> BitStream) option" where
  "try_bit b = (case read_bit b of (Ok x, b') \<Rightarrow> Some (x, b') | _ \<Rightarrow> None)"

interpretation chunk_source: bit_source try_bit bs_src bs_pos reader_ok
proof
  fix b assume ok: "reader_ok b"
  show "\<exists>b'. try_bit b = Some (bs_src b ! bs_pos b, b') \<and> reader_ok b' \<and> bs_src b' = bs_src b
      \<and> bs_pos b' = Suc (bs_pos b)" if "bs_pos b < length (bs_src b)"
    using ok that by (rule read_bit_in) (auto simp: try_bit_def moved_def bs_src_def)
  show "try_bit b = None" if "length (bs_src b) \<le> bs_pos b"
    using ok that by (rule read_bit_end) (simp add: try_bit_def)
qed

lemma byte_bits_join:
  assumes "0 < h" "h \<le> 8"
  shows "byte_bits (push_bit (8 - h) x OR drop_bit h y) = drop (8 - h) (byte_bits x) @ take (8 - h) (byte_bits y)"
proof (rule nth_equalityI)
  fix i assume "i < length (byte_bits (push_bit (8 - h) x OR drop_bit h y))"
  then have i: "i < 8" by simp
  show "byte_bits (push_bit (8 - h) x OR drop_bit h y) ! i
      = (drop (8 - h) (byte_bits x) @ take (8 - h) (byte_bits y)) ! i"
  proof (cases "i < h")
    case True
    then have "\<not> bit y (h + (7 - i))" using bit_imp_le_length [of y "h + (7 - i)"] by auto
    with True i assms show ?thesis
      by (auto simp: byte_bits_def nth_append nth_msb_bits bit_simps intro!: arg_cong [of _ _ "bit x"])
  next
    case False
    with i assms show ?thesis
      by (auto simp: byte_bits_def nth_append nth_msb_bits bit_simps add.commute)
  qed
qed (use assms in simp)

lemma read_byte_some:
  assumes "reader_ok b" "bs_pos b + 8 \<le> length (bs_src b)"
  obtains b' x where "read_byte b = (Ok x, b')" "moved 8 b b'"
    "byte_bits x = take 8 (drop (bs_pos b) (bs_src b))"
proof -
  have lt: "bs_pos b < 8 * length (stream b)" using assms(2) by (simp add: bs_src_def)
  from ensure_byte_True [OF assms(1) lt] obtain b' where r:
    "ensure_byte b = (True, b')" "moved 0 b b'" "0 < head_count b'"
    "bs_index b' < length (stream b)" "bs_end b' = bs_end b" "bs_end b = length (stream b)" .
  have hc: "head_count b' \<le> 8" and str: "stream b' = stream b" and eq: "bs_pos b' = bs_pos b"
    and fin: "bs_end b' = length (stream b)"
    using r(2) by (simp_all add: moved_def reader_ok_def)
  have pos: "bs_pos b = 8 * bs_index b' + (8 - head_count b')"
    using eq by (simp only: bs_pos_def [of b'])
  let ?b = "b'\<lparr>bs_index := bs_index b' + 1\<rparr>"
  let ?x = "push_bit (8 - head_count b') (byte_at b' (bs_index b'))
    OR drop_bit (head_count b') (byte_at ?b (bs_index ?b))"
  have "bs_index b' + 1 < length (stream b)" if "head_count b' \<noteq> 8"
    using that hc pos assms(2) by (simp add: bs_src_def)
  then have rd: "read_byte b = (Ok ?x, ?b)"
    using r(1) fin by (auto simp: read_byte_def Let_def)
  have mv: "moved 8 b ?b"
    using pos hc str fin by (simp add: moved_def reader_ok_def add.commute)
  have "byte_bits ?x = drop (8 - head_count b') (byte_bits (byte_at b' (bs_index b')))
      @ take (8 - head_count b') (byte_bits (byte_at ?b (bs_index ?b)))"
    using r(3) hc by (rule byte_bits_join)
  also have "\<dots> = take 8 (drop (bs_pos b) (bs_src b))"
  proof (cases "head_count b' = 8")
    case True
    then show ?thesis using r(4) str drop_bytes_bits_at [OF r(4), of 0]
      by (simp add: bs_src_def pos byte_at_def)
  next
    case False
    then have "bs_index b' + 1 < length (stream b)"
      using hc pos assms(2) by (simp add: bs_src_def)
    then have "bytes_bits (drop (Suc (bs_index b')) (stream b))
        = byte_bits (stream b ! (bs_index b' + 1)) @ bytes_bits (drop (bs_index b' + 2) (stream b))"
      by (simp add: Cons_nth_drop_Suc [symmetric])
    with \<open>bs_index b' + 1 < length (stream b)\<close> show ?thesis
      using drop_bytes_bits_at [OF r(4), of "8 - head_count b'"] str hc r(4)
      by (simp add: bs_src_def pos byte_at_def)
  qed
  finally show thesis using rd mv by (intro that)
qed

lemma read_byte_end:
  assumes "reader_ok b" "length (bs_src b) < bs_pos b + 8"
  obtains b' where "read_byte b = (Throw, b')"
proof (cases "bs_pos b < 8 * length (stream b)")
  case True
  from ensure_byte_True [OF assms(1) True] obtain b' where r:
    "ensure_byte b = (True, b')" "moved 0 b b'" "0 < head_count b'"
    "bs_index b' < length (stream b)" "bs_end b' = bs_end b" "bs_end b = length (stream b)" .
  have "bs_pos b' = bs_pos b" "head_count b' \<le> 8" using r(2) by (simp_all add: moved_def reader_ok_def)
  then have "head_count b' \<noteq> 8 \<and> length (stream b) \<le> bs_index b' + 1"
    using assms(2) r(4) by (auto simp: bs_pos_def [of b'] bs_src_def)
  then show thesis using r(1,5,6) by (intro that) (simp add: read_byte_def Let_def)
next
  case False
  then have "8 * length (stream b) \<le> bs_pos b" by simp
  from ensure_byte_False [OF assms(1) this] obtain b' where "ensure_byte b = (False, b')" .
  then show thesis by (intro that) (simp add: read_byte_def)
qed

lemma bits_window:
  fixes acc :: u64
  assumes "num \<le> h" "h \<le> 8"
  shows "push_bit num acc OR (drop_bit (h - num) (ucast x) AND (push_bit num 1 - 1))
    = bits_acc acc (take num (drop (8 - h) (byte_bits x)))"
proof -
  have "take num (drop (8 - h) (byte_bits x)) = msb_bits num (drop_bit (h - num) (ucast x :: u64))"
    using assms by (intro nth_equalityI)
      (auto simp: byte_bits_def nth_msb_bits bit_simps intro!: arg_cong [of _ _ "bit x"])
  then show ?thesis
    by (simp add: bits_acc_msb_bits take_bit_eq_mask mask_eq_exp_minus_1 push_bit_eq_mult)
qed

lemma read_bits_end_window:
  assumes "reader_ok b" "num \<le> head_count b" "num = 0 \<or> bs_index b < length (stream b)"
  obtains b' where "read_bits_end num acc b = (Ok (bits_acc acc (take num (drop (bs_pos b) (bs_src b)))), b')"
    "moved num b b'"
proof -
  have h: "head_count b \<le> 8" using assms(1) by (simp add: reader_ok_def)
  have "take num (drop (8 - head_count b) (byte_bits (byte_at b (bs_index b))))
      = take num (drop (bs_pos b) (bs_src b))"
  proof (cases "num = 0")
    case False
    with assms(3) have "bs_index b < length (stream b)" by simp
    with drop_bytes_bits_at [OF this, of "8 - head_count b"] assms(2) h show ?thesis
      by (simp add: bs_src_def bs_pos_def byte_at_def)
  qed simp
  then show thesis
    using bits_window [OF assms(2) h, of acc "byte_at b (bs_index b)"] assms(1,2)
    by (intro that [of "b\<lparr>head_count := head_count b - num\<rparr>"])
      (auto simp: read_bits_end_def moved_def reader_ok_def bs_pos_def [of b])
qed

lemma read_bits_tail_some:
  assumes "reader_ok b" "bs_pos b + num \<le> length (bs_src b) \<or> num = 0" "num < 8"
  obtains b' where "read_bits_tail num acc b = (Ok (bits_acc acc (take num (drop (bs_pos b) (bs_src b)))), b')"
    "moved num b b'"
proof (cases "head_count b < num")
  case True
  have h: "head_count b < 8" and fin: "bs_end b = length (stream b)"
    using True assms by (simp_all add: reader_ok_def)
  have idx: "bs_index b + 1 < length (stream b)"
    using True assms(2,3) h by (simp add: bs_src_def bs_pos_def)
  let ?x = "stream b ! bs_index b"
  let ?acc = "bits_acc acc (drop (8 - head_count b) (byte_bits ?x))"
  let ?b = "b\<lparr>bs_index := bs_index b + 1, head_count := 8\<rparr>"
  have acc: "push_bit (head_count b) acc OR (ucast (byte_at b (bs_index b)) AND (push_bit (head_count b) 1 - 1))
      = ?acc"
    using bits_window [of "head_count b" "head_count b" acc ?x] h idx by (simp add: byte_at_def)
  have ok: "reader_ok ?b" and pos: "bs_pos ?b = bs_pos b + head_count b" and src: "bs_src ?b = bs_src b"
    using fin h by (simp_all add: reader_ok_def bs_src_def bs_pos_def)
  have le: "num - head_count b \<le> head_count ?b"
    "num - head_count b = 0 \<or> bs_index ?b < length (stream ?b)"
    using assms(3) idx by simp_all
  from read_bits_end_window [OF ok le, of ?acc] obtain b' where e:
    "read_bits_end (num - head_count b) ?acc ?b
       = (Ok (bits_acc ?acc (take (num - head_count b) (drop (bs_pos ?b) (bs_src ?b)))), b')"
    "moved (num - head_count b) ?b b'" .
  have "drop (8 - head_count b) (byte_bits ?x) = take (head_count b) (drop (bs_pos b) (bs_src b))"
    using drop_bytes_bits_at [of "bs_index b" "stream b" "8 - head_count b"] idx h
    by (simp add: bs_src_def bs_pos_def)
  moreover have "take (head_count b) (drop (bs_pos b) (bs_src b))
      @ take (num - head_count b) (drop (bs_pos ?b) (bs_src ?b)) = take num (drop (bs_pos b) (bs_src b))"
    using True take_add [of "head_count b" "num - head_count b" "drop (bs_pos b) (bs_src b)"]
    by (simp only: pos src drop_drop) (simp add: add.commute)
  ultimately have "bits_acc ?acc (take (num - head_count b) (drop (bs_pos ?b) (bs_src ?b)))
      = bits_acc acc (take num (drop (bs_pos b) (bs_src b)))"
    by (metis bits_acc_append)
  moreover have "moved num b b'" using e(2) True pos by (simp add: moved_def)
  ultimately show thesis
    using True fin idx acc e(1) by (intro that [of b']) (simp_all add: read_bits_tail_def Let_def)
next
  case False
  then have "num = 0 \<or> bs_index b < length (stream b)"
    using assms by (auto simp: bs_src_def bs_pos_def reader_ok_def)
  moreover have "num \<le> head_count b" using False by simp
  ultimately show thesis
    using read_bits_end_window [OF assms(1), of num acc] False that
    by (metis read_bits_tail_def)
qed

lemma read_bits_loop_some:
  assumes "reader_ok b" "bs_pos b + 8 * (num div 8) \<le> length (bs_src b) \<or> num < 8"
  shows "\<exists>b'. read_bits_loop num acc b
      = (Ok (bits_acc acc (take (8 * (num div 8)) (drop (bs_pos b) (bs_src b))), num mod 8), b')
    \<and> moved (8 * (num div 8)) b b'"
  using assms
proof (induction num acc b rule: read_bits_loop.induct)
  case (1 num acc b)
  show ?case
  proof (cases "8 \<le> num")
    case True
    then have n: "num div 8 = Suc ((num - 8) div 8)" "num mod 8 = (num - 8) mod 8"
      by (simp_all add: le_div_geq le_mod_geq)
    with "1.prems" True have "bs_pos b + 8 \<le> length (bs_src b)" by simp
    from read_byte_some [OF "1.prems"(1) this] obtain b1 x where x: "read_byte b = (Ok x, b1)"
      "moved 8 b b1" "byte_bits x = take 8 (drop (bs_pos b) (bs_src b))" .
    let ?k = "8 * ((num - 8) div 8)"
    have b1: "reader_ok b1" "bs_src b1 = bs_src b" "bs_pos b1 = bs_pos b + 8"
      using x(2) by (simp_all add: moved_def bs_src_def)
    then obtain b' where ih: "read_bits_loop (num - 8) (push_bit 8 acc OR ucast x) b1
        = (Ok (bits_acc (bits_acc acc (byte_bits x)) (take ?k (drop (bs_pos b1) (bs_src b1))), (num - 8) mod 8), b')"
        "moved ?k b1 b'"
      using "1.IH" [OF True x(1)] "1.prems"(2) n True by (auto simp: bits_acc_byte)
    have "take (8 + ?k) (drop (bs_pos b) (bs_src b)) = byte_bits x @ take ?k (drop (bs_pos b1) (bs_src b1))"
      unfolding x(3) b1(2,3) by (simp only: take_add drop_drop add.commute)
    with ih moved_trans [OF x(2) ih(2)] x(1) True n show ?thesis
      by (subst read_bits_loop.simps) simp
  next
    case False
    then show ?thesis using "1.prems"(1) by (subst read_bits_loop.simps) (simp add: moved_def)
  qed
qed

lemma read_bits_some:
  assumes "reader_ok b" "bs_pos b + n \<le> length (bs_src b)"
  obtains b' where "read_bits (int n) b = (Ok (bits_acc 0 (take n (drop (bs_pos b) (bs_src b)))), b')"
    "moved n b b'"
proof -
  let ?k = "8 * (n div 8)"
  have k: "?k + n mod 8 = n" by simp
  have "bs_pos b + ?k \<le> length (bs_src b) \<or> n < 8" using assms(2) k by linarith
  from read_bits_loop_some [OF assms(1) this, of 0] obtain b1 where l:
    "read_bits_loop n 0 b = (Ok (bits_acc 0 (take ?k (drop (bs_pos b) (bs_src b))), n mod 8), b1)"
    "moved ?k b b1"
    by blast
  have b1: "reader_ok b1" "bs_src b1 = bs_src b" "bs_pos b1 = bs_pos b + ?k"
    using l(2) by (simp_all add: moved_def bs_src_def)
  have "bs_pos b1 + n mod 8 \<le> length (bs_src b1) \<or> n mod 8 = 0" "n mod 8 < 8"
    using assms(2) b1(2,3) k by simp_all
  from read_bits_tail_some [OF b1(1) this, of "bits_acc 0 (take ?k (drop (bs_pos b) (bs_src b)))"]
  obtain b' where t: "read_bits_tail (n mod 8) (bits_acc 0 (take ?k (drop (bs_pos b) (bs_src b)))) b1
      = (Ok (bits_acc (bits_acc 0 (take ?k (drop (bs_pos b) (bs_src b))))
          (take (n mod 8) (drop (bs_pos b1) (bs_src b1)))), b')"
    "moved (n mod 8) b1 b'" .
  have "take n (drop (bs_pos b) (bs_src b))
      = take ?k (drop (bs_pos b) (bs_src b)) @ take (n mod 8) (drop (bs_pos b1) (bs_src b1))"
    unfolding b1(2,3) using take_add [of ?k "n mod 8" "drop (bs_pos b) (bs_src b)"]
    by (simp add: add.commute)
  with t(1) l(1) have "read_bits (int n) b = (Ok (bits_acc 0 (take n (drop (bs_pos b) (bs_src b)))), b')"
    by (simp add: read_bits_def)
  moreover have "moved n b b'" using moved_trans [OF l(2) t(2)] k by simp
  ultimately show thesis by (intro that)
qed

subsection \<open>Reading what comes next\<close>

definition next_bits :: "BitStream \<Rightarrow> bool list \<Rightarrow> bool" where
  "next_bits b xs \<longleftrightarrow> reader_ok b \<and> prefix xs (drop (bs_pos b) (bs_src b))"

lemma next_bits_moved:
  assumes "next_bits b (xs @ ys)" "moved (length xs) b b'"
  shows "next_bits b' ys"
proof -
  from assms obtain zs where "drop (bs_pos b) (bs_src b) = xs @ ys @ zs"
    by (auto simp: next_bits_def prefix_def)
  then have "drop (length xs) (drop (bs_pos b) (bs_src b)) = ys @ zs" by simp
  with assms(2) show ?thesis
    by (simp add: next_bits_def moved_def bs_src_def add.commute)
qed

lemma next_bits_length:
  "next_bits b xs \<Longrightarrow> xs \<noteq> [] \<Longrightarrow> bs_pos b + length xs \<le> length (bs_src b)"
  using prefix_length_le [of xs "drop (bs_pos b) (bs_src b)"]
  by (cases xs) (auto simp: next_bits_def)

lemma next_bits_take:
  "next_bits b (xs @ ys) \<Longrightarrow> take (length xs) (drop (bs_pos b) (bs_src b)) = xs"
  by (auto simp: next_bits_def prefix_def)

lemma next_bit:
  assumes "next_bits b (x # ys)"
  obtains b' where "read_bit b = (Ok x, b')" "next_bits b' ys" "moved 1 b b'"
proof -
  have ok: "reader_ok b" and lt: "bs_pos b < length (bs_src b)"
    using assms next_bits_length [OF assms] by (auto simp: next_bits_def)
  from read_bit_in [OF this] obtain b' where b':
    "read_bit b = (Ok (bs_src b ! bs_pos b), b')" "moved 1 b b'" .
  have "bs_src b ! bs_pos b = x"
    using assms Cons_nth_drop_Suc [OF lt] by (auto simp: next_bits_def prefix_def)
  with b' next_bits_moved [of b "[x]" ys b'] assms show thesis by (intro that) simp_all
qed

lemma next_byte:
  assumes "next_bits b (byte_bits x @ ys)"
  obtains b' where "read_byte b = (Ok x, b')" "next_bits b' ys" "moved 8 b b'"
proof -
  have "byte_bits x \<noteq> []" by (simp add: byte_bits_def msb_bits_def)
  then have "bs_pos b + 8 \<le> length (bs_src b)"
    using next_bits_length [OF assms] by simp
  then obtain b' y where b': "read_byte b = (Ok y, b')" "moved 8 b b'"
      "byte_bits y = take 8 (drop (bs_pos b) (bs_src b))"
    using read_byte_some assms by (metis next_bits_def)
  have "y = x" using b'(3) next_bits_take [OF assms] by (intro byte_bits_inj) simp
  moreover have "next_bits b' ys" using next_bits_moved [OF assms, of b'] b'(2) by simp
  ultimately show thesis using b'(1,2) by (intro that) simp_all
qed

lemma next_field:
  assumes "next_bits b (msb_bits n v @ ys)" "0 < n"
  obtains b' where "read_bits (int n) b = (Ok (take_bit n v), b')" "next_bits b' ys" "moved n b b'"
proof -
  have "msb_bits n v \<noteq> []" using assms(2) length_msb_bits [of n v] by force
  then have "bs_pos b + n \<le> length (bs_src b)"
    using next_bits_length [OF assms(1)] by simp
  then obtain b' where b': "moved n b b'"
      "read_bits (int n) b = (Ok (bits_acc 0 (take n (drop (bs_pos b) (bs_src b)))), b')"
    using read_bits_some assms(1) by (metis next_bits_def)
  moreover have "take n (drop (bs_pos b) (bs_src b)) = msb_bits n v"
    using next_bits_take [OF assms(1)] by simp
  moreover have "next_bits b' ys" using next_bits_moved [OF assms(1), of b'] b'(1) by simp
  ultimately show thesis by (intro that) (simp_all add: bits_acc_0_msb_bits)
qed

lemma next_varint_loop:
  "next_bits b (bytes_bits (encode_unsigned_varint v) @ ys) \<Longrightarrow> shift < 64 \<Longrightarrow>
   drop_bit (64 - shift) v = 0 \<Longrightarrow>
   \<exists>b'. bs_varint_loop acc shift b = (Ok (acc OR push_bit shift v), b') \<and> next_bits b' ys
     \<and> moved (8 * length (encode_unsigned_varint v)) b b'"
proof (induction v arbitrary: b acc shift rule: encode_unsigned_varint.induct)
  case (1 v)
  have split: "push_bit shift v = push_bit shift (take_bit 7 v) OR push_bit (shift + 7) (drop_bit 7 v)"
    by (subst take_or_push_drop [of 7 v, symmetric]) (simp add: push_bit_or)
  show ?case
  proof (cases "drop_bit 7 v = 0")
    case True
    then have enc: "encode_unsigned_varint v = [ucast (v AND 127)]"
      by (simp add: encode_unsigned_varint.simps [of v])
    with "1.prems"(1) obtain b' where "read_byte b = (Ok (ucast (v AND 127)), b')" "next_bits b' ys" "moved 8 b b'"
      using next_byte by (metis append.right_neutral bytes_bits_Cons bytes_bits_Nil)
    with True enc split "1.prems"(2) show ?thesis
      by (subst bs_varint_loop.simps) (simp add: byte_simps [unfolded not_not] Let_def)
  next
    case False
    then have enc: "encode_unsigned_varint v
        = (ucast (v AND 127) OR 128) # encode_unsigned_varint (drop_bit 7 v)"
      by (simp add: encode_unsigned_varint.simps [of v])
    with "1.prems"(1) obtain b1 where b1: "read_byte b = (Ok (ucast (v AND 127) OR 128), b1)"
        "next_bits b1 (bytes_bits (encode_unsigned_varint (drop_bit 7 v)) @ ys)" "moved 8 b b1"
      using next_byte by (metis append.assoc bytes_bits_Cons)
    note fits = varint_step_fits [OF "1.prems"(2,3) False]
    from "1.IH" [OF refl refl False b1(2) fits] obtain b' where
      "bs_varint_loop (acc OR push_bit shift (take_bit 7 v)) (shift + 7) b1
         = (Ok ((acc OR push_bit shift (take_bit 7 v)) OR push_bit (shift + 7) (drop_bit 7 v)), b')"
      "next_bits b' ys" "moved (8 * length (encode_unsigned_varint (drop_bit 7 v))) b1 b'"
      by blast
    with b1 moved_trans [OF b1(3) this(3)] "1.prems"(2) enc split show ?thesis
      by (subst bs_varint_loop.simps) (simp add: byte_simps [unfolded not_not] Let_def or.assoc)
  qed
qed

lemma next_varint:
  assumes "next_bits b (bytes_bits (encode_signed_varint v) @ ys)"
  obtains b' where "read_signed_varint b = (Ok v, b')" "next_bits b' ys"
    "moved (8 * length (encode_signed_varint v)) b b'"
proof -
  from next_varint_loop [of b "zigzag_encode v" ys 0 0] assms obtain b' where b':
    "bs_varint_loop 0 0 b = (Ok (zigzag_encode v), b')" "next_bits b' ys"
    "moved (8 * length (encode_signed_varint v)) b b'"
    by (auto simp: encode_signed_varint_def)
  then have "read_signed_varint b = (Ok (zigzag_decode (zigzag_encode v)), b')"
    by (simp add: read_signed_varint_def read_unsigned_varint_def zigzag_decode_def)
  with b' show thesis by (intro that) (simp_all add: codec_simps)
qed

subsection \<open>Reading at a position is reading in sequence from there\<close>

definition at_cursor :: "BitStream \<Rightarrow> nat \<times> nat \<Rightarrow> BitStream" where
  "at_cursor b c = b\<lparr>bs_index := fst c, head_count := snd c\<rparr>"

definition seek :: "nat \<Rightarrow> BitStream \<Rightarrow> BitStream" where
  "seek pos b = b\<lparr>bs_index := pos div 8, head_count := 8 - pos mod 8\<rparr>"

lemma seek_at_cursor: "seek pos b = at_cursor b (pos div 8, 8 - pos mod 8)"
  by (simp add: seek_def at_cursor_def)

lemma byte_at_at_cursor [simp]: "byte_at (at_cursor b c) i = byte_at b i"
  by (simp add: byte_at_def at_cursor_def)

lemma at_cursor_simps [simp]:
  "bs_index (at_cursor b c) = fst c" "head_count (at_cursor b c) = snd c"
  "bs_end (at_cursor b c) = bs_end b"
  "(at_cursor b c)\<lparr>bs_index := i\<rparr> = at_cursor b (i, snd c)"
  "(at_cursor b c)\<lparr>head_count := h\<rparr> = at_cursor b (fst c, h)"
  by (simp_all add: at_cursor_def)

lemma read_byte_at_cursor:
  "read_byte (at_cursor b c) = apsnd (at_cursor b) (read_byte_helper b c)"
  by (cases c) (auto simp: read_byte_def ensure_byte_def read_byte_helper_def Let_def)

lemma rs_bind_apsnd:
  "(\<And>x s. g x (h s) = apsnd h (f x s)) \<Longrightarrow> rs_bind (apsnd h m) g = apsnd h (rs_bind m f)"
  by (cases "(m, f)" rule: rs_bind.cases) simp_all

lemma read_bits_loop_at_cursor:
  "read_bits_loop n acc (at_cursor b c) = apsnd (at_cursor b) (read_bits_at_loop b n acc c)"
proof (induction n arbitrary: acc c rule: less_induct)
  case (less n)
  then show ?case
    by (subst read_bits_loop.simps, subst read_bits_at_loop.simps)
      (simp add: read_byte_at_cursor rs_bind_apsnd)
qed

lemma read_bits_tail_at_cursor:
  "fst (read_bits_tail n acc (at_cursor b c)) = read_bits_at_tail b n acc c"
  by (cases c) (simp add: read_bits_tail_def read_bits_at_tail_def read_bits_end_def Let_def)

lemma read_bits_at_eq: "read_bits_at b pos n = fst (read_bits (int n) (seek pos b))"
  by (auto simp: read_bits_at_def read_bits_def seek_at_cursor read_bits_loop_at_cursor
      read_bits_tail_at_cursor split: prod.splits result.splits)

lemma read_bit_at_eq: "read_bit_at b pos = fst (read_bit (seek pos b))"
proof -
  have "(8 \<le> pos mod 8) = False" by (simp add: not_le)
  then show ?thesis
    by (simp add: read_bit_at_def read_bit_def ensure_byte_def seek_at_cursor Let_def)
qed

lemma read_byte_at_eq: "read_byte_at b pos = fst (read_byte (seek pos b))"
proof -
  have "(8 \<le> pos mod 8) = False" "(8 - pos mod 8 = 8) = (pos mod 8 = 0)" by auto
  then show ?thesis
    by (simp add: read_byte_at_def read_byte_def ensure_byte_def seek_at_cursor Let_def)
qed

lemma varint_loop_at_cursor:
  "bs_varint_loop acc shift (at_cursor b c)
     = map_prod (map_result fst) (at_cursor b) (varint_at_loop b acc shift k c)"
proof (induction b acc shift k c rule: varint_at_loop.induct)
  case (1 b acc shift k c)
  obtain r c' where h: "read_byte_helper b c = (r, c')" by (metis surj_pair)
  show ?case
  proof (cases r)
    case (Ok x)
    with h 1 [of x c'] show ?thesis
      by (subst bs_varint_loop.simps, subst varint_at_loop.simps)
        (simp add: read_byte_at_cursor Let_def)
  qed (subst bs_varint_loop.simps, subst varint_at_loop.simps, simp add: read_byte_at_cursor h)+
qed

definition cursor_pos :: "nat \<times> nat \<Rightarrow> nat" where
  "cursor_pos c = 8 * fst c + (8 - snd c)"

lemma read_byte_helper_pos:
  "read_byte_helper b c = (Ok x, c') \<Longrightarrow> snd c \<le> 8 \<Longrightarrow> snd c' \<le> 8 \<and> cursor_pos c' = cursor_pos c + 8"
  by (cases c) (auto simp: read_byte_helper_def cursor_pos_def Let_def split: if_splits)

lemma varint_at_loop_count:
  "varint_at_loop b acc shift k c = (Ok (u, n), c') \<Longrightarrow> snd c \<le> 8 \<Longrightarrow>
   cursor_pos c \<le> cursor_pos c' \<and> n = k + of_nat (cursor_pos c' - cursor_pos c)"
proof (induction b acc shift k c rule: varint_at_loop.induct)
  case (1 b acc shift k c)
  from "1.prems"(1) obtain x c1 where x: "read_byte_helper b c = (Ok x, c1)"
    by (subst (asm) varint_at_loop.simps)
      (cases "read_byte_helper b c", cases "fst (read_byte_helper b c)", auto)
  note pos = read_byte_helper_pos [OF x "1.prems"(2)]
  show ?case
  proof (cases "64 \<le> shift \<or> x AND 128 = 0")
    case True
    with "1.prems"(1) x pos show ?thesis
      by (subst (asm) varint_at_loop.simps) (auto simp: Let_def split: if_splits)
  next
    case False
    then have "varint_at_loop b (acc OR push_bit shift (ucast (x AND 127))) (shift + 7) (k + 8) c1
        = (Ok (u, n), c')"
      using "1.prems"(1) x by (subst (asm) varint_at_loop.simps) (simp add: Let_def)
    with "1.IH" [OF x _ refl] False pos have
      "cursor_pos c1 \<le> cursor_pos c'" "n = k + 8 + of_nat (cursor_pos c' - cursor_pos c1)"
      by simp_all
    moreover from this(1) pos have "cursor_pos c' - cursor_pos c = 8 + (cursor_pos c' - cursor_pos c1)"
      by linarith
    ultimately show ?thesis using pos by simp
  qed
qed

text \<open>What a positional varint reader returns, from the sequential one.\<close>

definition varint_from :: "nat \<Rightarrow> 'a result \<times> BitStream \<Rightarrow> ('a \<times> u8) result" where
  "varint_from pos = (\<lambda>(r, b). res_bind r (\<lambda>u. Ok (u, of_nat (bs_pos b - pos))))"

lemma read_unsigned_varint_at_eq:
  "read_unsigned_varint_at b pos = varint_from pos (read_unsigned_varint (seek pos b))"
proof -
  let ?c = "(pos div 8, 8 - pos mod 8)"
  obtain r c' where l: "varint_at_loop b 0 0 0 ?c = (r, c')" by (metis surj_pair)
  have start: "cursor_pos ?c = pos" by (simp add: cursor_pos_def)
  have "n = of_nat (cursor_pos c' - pos)" if "r = Ok (u, n)" for u n
    using varint_at_loop_count [of b 0 0 0 ?c u n c'] l that start by simp
  moreover have "bs_pos (at_cursor b c') = cursor_pos c'"
    by (simp add: bs_pos_def cursor_pos_def)
  ultimately show ?thesis
    by (cases r) (auto simp: read_unsigned_varint_at_def read_unsigned_varint_def seek_at_cursor
        varint_loop_at_cursor [of _ _ b ?c 0] l varint_from_def)
qed

lemma read_signed_varint_at_eq:
  "read_signed_varint_at b pos = varint_from pos (read_signed_varint (seek pos b))"
  by (cases "read_unsigned_varint (seek pos b)", cases "fst (read_unsigned_varint (seek pos b))")
    (auto simp: read_signed_varint_at_def read_signed_varint_def read_unsigned_varint_at_eq varint_from_def)

text \<open>
  C32. The readers that take a bit position return what the sequential readers
  return from that position, exceptions included; the varint readers also return how
  many bits they consumed, modulo 256.
\<close>

theorem positional_reads_agree:
  "read_bit_at b pos = fst (read_bit (seek pos b))
   \<and> read_byte_at b pos = fst (read_byte (seek pos b))
   \<and> read_bits_at b pos n = fst (read_bits (int n) (seek pos b))
   \<and> read_unsigned_varint_at b pos = varint_from pos (read_unsigned_varint (seek pos b))
   \<and> read_signed_varint_at b pos = varint_from pos (read_signed_varint (seek pos b))"
  by (simp add: read_bit_at_eq read_byte_at_eq read_bits_at_eq read_unsigned_varint_at_eq
      read_signed_varint_at_eq)

subsection \<open>Round trips\<close>

datatype field = BitField bool | ByteField u8 | BitsField u64 nat | VarintField i64

fun put_field :: "field \<Rightarrow> BitStream \<Rightarrow> BitStream result" where
  "put_field (BitField x) b = Ok (write_bit x b)"
| "put_field (ByteField x) b = Ok (write_byte x b)"
| "put_field (BitsField v n) b = write_bits v (int n) b"
| "put_field (VarintField v) b = Ok (fold write_byte (encode_signed_varint v) b)"

fun get_field :: "field \<Rightarrow> BitStream \<Rightarrow> field result \<times> BitStream" where
  "get_field (BitField _) b = rs_bind (read_bit b) (\<lambda>x b'. (Ok (BitField x), b'))"
| "get_field (ByteField _) b = rs_bind (read_byte b) (\<lambda>x b'. (Ok (ByteField x), b'))"
| "get_field (BitsField _ n) b = rs_bind (read_bits (int n) b) (\<lambda>v b'. (Ok (BitsField v n), b'))"
| "get_field (VarintField _) b = rs_bind (read_signed_varint b) (\<lambda>v b'. (Ok (VarintField v), b'))"

primrec put_fields :: "field list \<Rightarrow> BitStream \<Rightarrow> BitStream result" where
  "put_fields [] b = Ok b"
| "put_fields (f # fs) b = res_bind (put_field f b) (put_fields fs)"

primrec get_fields :: "field list \<Rightarrow> BitStream \<Rightarrow> field list result \<times> BitStream" where
  "get_fields [] b = (Ok [], b)"
| "get_fields (f # fs) b =
     rs_bind (get_field f b) (\<lambda>x b1. rs_bind (get_fields fs b1) (\<lambda>xs b2. (Ok (x # xs), b2)))"

fun field_ok :: "field \<Rightarrow> bool" where
  "field_ok (BitsField v n) \<longleftrightarrow> 0 < n \<and> n \<le> 64 \<and> take_bit n v = v"
| "field_ok _ \<longleftrightarrow> True"

fun field_bits :: "field \<Rightarrow> bool list" where
  "field_bits (BitField x) = [x]"
| "field_bits (ByteField x) = byte_bits x"
| "field_bits (BitsField v n) = msb_bits n v"
| "field_bits (VarintField v) = bytes_bits (encode_signed_varint v)"

lemma write_bytes_written:
  "writer_ok b \<Longrightarrow> writer_ok (fold write_byte xs b)
     \<and> bs_written (fold write_byte xs b) = bs_written b @ bytes_bits xs"
  by (induction xs arbitrary: b) (simp_all add: write_byte_written)

lemma put_field_written:
  assumes "writer_ok b" "field_ok f"
  shows "\<exists>b'. put_field f b = Ok b' \<and> writer_ok b' \<and> bs_written b' = bs_written b @ field_bits f"
proof (cases f)
  case (BitsField v n)
  with assms(2) have n: "0 < int n" "int n \<le> 64" by simp_all
  from write_bits_written [OF assms(1) n, of v] BitsField show ?thesis by (metis field_bits.simps(3) nat_int put_field.simps(3))
qed (use assms in \<open>simp_all add: write_bit_written write_byte_written write_bytes_written\<close>)

lemma put_fields_written:
  "writer_ok b \<Longrightarrow> list_all field_ok fs \<Longrightarrow>
   \<exists>b'. put_fields fs b = Ok b' \<and> writer_ok b' \<and> bs_written b' = bs_written b @ concat (map field_bits fs)"
proof (induction fs arbitrary: b)
  case (Cons f fs)
  then obtain b1 where "put_field f b = Ok b1" "writer_ok b1" "bs_written b1 = bs_written b @ field_bits f"
    using put_field_written [of b f] by auto
  with Cons.IH [of b1] Cons.prems(2) show ?case by auto
qed simp

lemma get_field_next:
  assumes "next_bits b (field_bits f @ ys)" "field_ok f"
  shows "\<exists>b'. get_field f b = (Ok f, b') \<and> next_bits b' ys"
proof (cases f)
  case (BitField x)
  with assms(1) obtain b' where "read_bit b = (Ok x, b')" "next_bits b' ys"
    using next_bit by (metis append_Cons append_Nil field_bits.simps(1))
  with BitField show ?thesis by simp
next
  case (ByteField x)
  with assms(1) obtain b' where "read_byte b = (Ok x, b')" "next_bits b' ys"
    using next_byte by (metis field_bits.simps(2))
  with ByteField show ?thesis by simp
next
  case (BitsField v n)
  with assms obtain b' where "read_bits (int n) b = (Ok (take_bit n v), b')" "next_bits b' ys"
    using next_field by (metis field_bits.simps(3) field_ok.simps(1))
  with BitsField assms(2) show ?thesis by simp
next
  case (VarintField v)
  with assms(1) obtain b' where "read_signed_varint b = (Ok v, b')" "next_bits b' ys"
    using next_varint by (metis field_bits.simps(4))
  with VarintField show ?thesis by simp
qed

lemma get_fields_next:
  "next_bits b (concat (map field_bits fs)) \<Longrightarrow> list_all field_ok fs \<Longrightarrow> fst (get_fields fs b) = Ok fs"
proof (induction fs arbitrary: b)
  case (Cons f fs)
  then obtain b1 where b1: "get_field f b = (Ok f, b1)" "next_bits b1 (concat (map field_bits fs))"
    using get_field_next [of b f] by auto
  then have "fst (get_fields fs b1) = Ok fs" using Cons by simp
  with b1 show ?case by (cases "get_fields fs b1") simp
qed simp

lemma length_bs_written: "writer_ok b \<Longrightarrow> length (bs_written b) = write_pos b"
  by (cases "stream b" rule: rev_cases)
    (auto simp: bs_written_def write_pos_def bs_size_def writer_ok_def)

text \<open>A reader on the bytes of a writer, placed where the writer once stood.\<close>

lemma next_bits_seek:
  assumes "writer_ok b'" "bs_written b' = bs_written b @ xs" "writer_ok b"
    "stream r = stream b'" "bs_end r = length (stream b')"
  shows "next_bits (seek (write_pos b) r) xs"
proof -
  have "prefix (bs_written b @ xs) (bytes_bits (stream b'))"
    unfolding assms(2) [symmetric] by (simp add: bs_written_def take_is_prefix)
  moreover have "bs_pos (seek (write_pos b) r) = length (bs_written b)"
    using length_bs_written [OF assms(3)] by (simp add: seek_def)
  ultimately show ?thesis
    using assms(4,5) by (auto simp: next_bits_def reader_ok_def seek_def bs_src_def prefix_def)
qed

text \<open>
  C31. Fields of any kind and width written to a stream in any state are read back
  in order from the position where the first was written, in vector mode and in
  pointer mode and whatever bytes follow the stream in memory.
\<close>

theorem bit_stream_roundtrip:
  assumes "writer_ok b" "list_all field_ok fs"
  shows "\<exists>b'. put_fields fs b = Ok b' \<and> writer_ok b'
    \<and> (\<forall>mem. fst (get_fields fs (seek (write_pos b) (BitStream_vec mem (stream b')))) = Ok fs
           \<and> fst (get_fields fs (seek (write_pos b) (BitStream_ptr mem (stream b')))) = Ok fs)"
proof -
  from put_fields_written [OF assms] obtain b' where b': "put_fields fs b = Ok b'" "writer_ok b'"
    "bs_written b' = bs_written b @ concat (map field_bits fs)" by blast
  note nx = next_bits_seek [OF b'(2,3) assms(1)]
  show ?thesis
    using b'(1,2) assms(2)
    by (auto intro!: get_fields_next nx simp: BitStream_vec_def BitStream_ptr_def)
qed

theorem bit_stream_roundtrip_witness:
  "\<exists>b'. put_fields [BitField True, BitsField 5 3, ByteField 200, VarintField (- 70), BitsField (- 1) 64]
        (write_bit True (BitStream_sized (\<lambda>_. 255) 2 4)) = Ok b' \<and> writer_ok b'"
proof -
  let ?b = "write_bit True (BitStream_sized (\<lambda>_. 255) 2 4)"
  let ?fs = "[BitField True, BitsField 5 3, ByteField 200, VarintField (- 70), BitsField (- 1) 64]"
  have "writer_ok ?b"
    by (rule write_bit_written) (simp add: writer_ok_def BitStream_sized_def)
  moreover have "list_all field_ok ?fs"
    by (simp add: take_bit_length_eq take_bit_eq_mod)
  ultimately show ?thesis using bit_stream_roundtrip [of ?b ?fs] by blast
qed

text \<open>Signed numbers of one to eight bytes.\<close>

lemma bit_sign_extended:
  fixes v :: i64
  assumes "m < 64" "- (2 ^ m) \<le> sint v" "sint v < 2 ^ m" "i < 64"
  shows "bit v i = bit v (min i m)"
proof -
  have "signed_take_bit m (sint v) = sint v"
    using assms(2,3) by (simp add: signed_take_bit_int_eq_self_iff)
  then have "bit (sint v) i = bit (sint v) (min i m)"
    using bit_signed_take_bit_iff [of m "sint v" i] by (simp add: min.commute)
  then show ?thesis using assms(1,4) by (simp add: bit_sint_iff)
qed

lemma read_bytes_be_loop_next:
  "next_bits (at_cursor b c) (msb_bits (8 * num) v @ ys) \<Longrightarrow> num \<le> 8 \<Longrightarrow>
   fst (read_bytes_be_loop b num acc c) = Ok (push_bit (8 * num) acc OR take_bit (8 * num) v)"
proof (induction num arbitrary: acc c)
  case (Suc i)
  let ?x = "ucast (drop_bit (8 * i) v) :: u8"
  have "msb_bits (8 * Suc i) v = byte_bits ?x @ msb_bits (8 * i) v"
    using msb_bits_add [of 8 "8 * i" v] msb_bits_ucast [of 8 "drop_bit (8 * i) v", where 'b=8]
    by (simp add: byte_bits_def)
  with Suc.prems(1) have "next_bits (at_cursor b c) (byte_bits ?x @ msb_bits (8 * i) v @ ys)" by simp
  from next_byte [OF this] obtain b1 where b1: "read_byte (at_cursor b c) = (Ok ?x, b1)"
    "next_bits b1 (msb_bits (8 * i) v @ ys)" "moved 8 (at_cursor b c) b1" .
  then obtain c1 where c1: "read_byte_helper b c = (Ok ?x, c1)" "b1 = at_cursor b c1"
    by (cases "read_byte_helper b c") (auto simp: read_byte_at_cursor)
  have "push_bit (8 * i) (push_bit 8 acc OR ucast ?x) OR take_bit (8 * i) v
      = push_bit (8 * Suc i) acc OR take_bit (8 * Suc i) v"
    by (rule bit_word_eqI)
      (auto simp: bit_or_iff bit_push_bit_iff bit_take_bit_iff bit_ucast_iff bit_drop_bit_eq
        algebra_simps not_less)
  with Suc.IH [of c1 "push_bit 8 acc OR ucast ?x"] Suc.prems(2) b1(2) c1 show ?case by simp
qed simp

lemma bytes64pretable_eq:
  assumes "0 < num" "num \<le> 8"
  shows "bytes64pretable ! (num - 1) = push_bit (8 * num) (- 1)"
proof -
  have "num \<in> {1, 2, 3, 4, 5, 6, 7, 8}" using assms by auto
  then show ?thesis by (auto simp: bytes64pretable_def push_bit_eq_mult)
qed

lemma sign_fill:
  fixes v :: i64
  assumes "0 < num" "num \<le> 8" "- (2 ^ (8 * num - 1)) \<le> sint v" "sint v < 2 ^ (8 * num - 1)"
    and acc: "acc = take_bit (8 * num) v"
  shows "(if signed_drop_bit (num * 8 - 1) acc = 1 then acc OR bytes64pretable ! (num - 1) else acc) = v"
proof (cases "num = 8")
  case True
  then show ?thesis by (simp add: acc bytes64pretable_def take_bit_length_eq)
next
  case False
  with assms(2) have n: "8 * num < 64" by simp
  let ?m = "8 * num - 1"
  have sd: "signed_drop_bit ?m acc = of_bool (bit v ?m)"
  proof (rule bit_word_eqI)
    fix j
    show "bit (signed_drop_bit ?m acc) j = bit (of_bool (bit v ?m) :: i64) j"
      using n assms(1) by (cases j) (auto simp: acc bit_simps min_def)
  qed
  have ext: "bit v i = bit v (min i ?m)" if "i < 64" for i
    using assms(3,4) n that by (intro bit_sign_extended) simp_all
  show ?thesis
  proof (cases "bit v ?m")
    case True
    have "acc OR push_bit (8 * num) (- 1) = v"
    proof (rule bit_word_eqI)
      fix i assume "i < LENGTH(64)"
      then show "bit (acc OR push_bit (8 * num) (- 1)) i = bit v i"
        using ext [of i] True by (cases "i < 8 * num") (simp_all add: acc bit_simps)
    qed
    then show ?thesis
      using sd True bytes64pretable_eq [OF assms(1,2)] by (simp add: mult.commute)
  next
    case False
    have "acc = v"
    proof (rule bit_word_eqI)
      fix i assume "i < LENGTH(64)"
      then show "bit acc i = bit v i"
        using ext [of i] False by (cases "i < 8 * num") (simp_all add: acc bit_simps)
    qed
    with sd False show ?thesis by (simp add: mult.commute)
  qed
qed

text \<open>
  C33. A signed number written in the fewest bytes that hold it, one to eight, is
  read back with its sign from the position where it was written.
\<close>

theorem bytes_be_roundtrip:
  assumes "writer_ok b" "0 < num" "num \<le> 8"
    "- (2 ^ (8 * num - 1)) \<le> sint v" "sint v < 2 ^ (8 * num - 1)"
  shows "\<exists>b'. write_bytes_be v num b = Ok b' \<and> writer_ok b'
    \<and> (\<forall>mem. read_bytes_be_at (BitStream_ptr mem (stream b')) (write_pos b) num = Ok v)"
proof -
  let ?b = "write_bytes_be_loop v num b"
  note w = write_bytes_be_written [OF assms(1,3), of v]
  have "read_bytes_be_at (BitStream_ptr mem (stream ?b)) (write_pos b) num = Ok v" for mem
  proof -
    let ?r = "BitStream_ptr mem (stream ?b)" and ?c = "(write_pos b div 8, 8 - write_pos b mod 8)"
    have "next_bits (seek (write_pos b) ?r) (msb_bits (8 * num) v)"
      using w assms(1) by (intro next_bits_seek [of ?b]) (simp_all add: BitStream_ptr_def)
    then have "next_bits (at_cursor ?r ?c) (msb_bits (8 * num) v @ [])"
      by (simp add: seek_at_cursor)
    from read_bytes_be_loop_next [OF this assms(3), of 0]
    have "fst (read_bytes_be_loop ?r num 0 ?c) = Ok (take_bit (8 * num) v)" by simp
    with sign_fill [OF assms(2-5) refl] assms(2,3) show ?thesis
      by (simp add: read_bytes_be_at_def)
  qed
  with w assms(3) show ?thesis by (simp add: write_bytes_be_def)
qed

theorem bytes_be_roundtrip_witness:
  "\<exists>b'. write_bytes_be (- 300) 2 (BitStream_sized (\<lambda>_. 0) 2 0) = Ok b'
     \<and> read_bytes_be_at (BitStream_ptr (\<lambda>_. 0) (stream b')) 16 2 = Ok (- 300)"
proof -
  have "writer_ok (BitStream_sized (\<lambda>_. 0) 2 0)" by (simp add: writer_ok_def BitStream_sized_def)
  moreover have "sint (- 300 :: i64) = - 300" by simp
  moreover have "write_pos (BitStream_sized (\<lambda>_. 0) 2 0) = 16"
    by (simp add: write_pos_def bs_size_def BitStream_sized_def)
  ultimately show ?thesis
    using bytes_be_roundtrip [of "BitStream_sized (\<lambda>_. 0) 2 0" 2 "- 300"] by auto
qed

text \<open>
  C34. The end of a stream is reached in two states: behind the last byte with eight bits
  announced as left, after whole bytes were read at a byte boundary, or in the last byte with
  no bits left. In both \<open>read_bit\<close> throws. \<open>read_bits\<close> of one to seven bits throws
  in the second state only; in the first it returns the top bits of the byte that follows
  the stream in memory.
\<close>

theorem read_bits_past_end:
  assumes "head_count b = 8 \<and> bs_index b = length (stream b) \<or> head_count b = 0 \<and> Suc (bs_index b) = length (stream b)"
    "bs_end b = length (stream b)" "0 < n" "n < 8"
  shows "fst (read_bit b) = Throw
    \<and> fst (read_bits (int n) b)
        = (if head_count b = 8 then Ok (ucast (drop_bit (8 - n) (beyond b 0))) else Throw)"
proof -
  have "drop_bit (8 - n) (ucast (beyond b 0)) AND (push_bit n 1 - 1) = (ucast (drop_bit (8 - n) (beyond b 0)) :: u64)"
  proof (rule bit_word_eqI)
    fix i
    have "\<not> bit (beyond b 0) (8 - n + i)" if "n \<le> i"
      using that assms(4) bit_imp_le_length [of "beyond b 0" "8 - n + i"] by auto
    moreover have m: "push_bit n 1 - 1 = (mask n :: u64)" by (simp add: mask_eq_exp_minus_1 push_bit_eq_mult)
    ultimately show "bit (drop_bit (8 - n) (ucast (beyond b 0) :: u64) AND (push_bit n 1 - 1)) i
        = bit (ucast (drop_bit (8 - n) (beyond b 0)) :: u64) i"
      using assms(3,4) unfolding m by (auto simp: bit_simps dest: bit_imp_le_length)
  qed
  with assms show ?thesis
    by (auto simp: read_bits_def read_bits_loop.simps [of n] read_bits_tail_def read_bits_end_def
        byte_at_def read_bit_def ensure_byte_def)
qed

theorem read_bits_past_end_witness:
  "fst (read_bits 3 (pop_front (BitStream_ptr (\<lambda>_. 255) [7]))) = Ok 7
   \<and> fst (read_bits 3 ((BitStream_ptr (\<lambda>_. 255) [7])\<lparr>head_count := 0\<rparr>)) = Throw"
  using read_bits_past_end [of "pop_front (BitStream_ptr (\<lambda>_. 255) [7])" 3]
    read_bits_past_end [of "(BitStream_ptr (\<lambda>_. 255) [7])\<lparr>head_count := 0\<rparr>" 3]
  by (simp add: pop_front_def BitStream_ptr_def drop_bit_eq_div)

end
