(* ===== verification/XORChunk.thy ===== *)
theory XORChunk
  imports BitStream
begin

text \<open>
  The compressed chunks of samples: \<open>src/chunk/XORAppender.cpp\<close>, \<open>XORIterator.cpp\<close>
  and \<open>XORChunk.cpp\<close>. An appender works on the bit stream of its chunk, which is
  passed along; an iterator has a stream of its own on the same bytes.
\<close>

subsection \<open>The appender\<close>

record XORAppender =
  xa_timestamp :: i64
  xa_value :: double
  xa_delta_timestamp :: u64
  xa_leading_zero :: u8
  xa_trailing_zero :: u8

definition set_leading_zero :: "u8 \<Rightarrow> XORAppender \<Rightarrow> XORAppender" where
  "set_leading_zero lz a = a\<lparr>xa_leading_zero := lz\<rparr>"

definition set_trailing_zero :: "u8 \<Rightarrow> XORAppender \<Rightarrow> XORAppender" where
  "set_trailing_zero tz a = a\<lparr>xa_trailing_zero := tz\<rparr>"

definition write_delta_value ::
  "double \<Rightarrow> XORAppender \<times> BitStream \<Rightarrow> (XORAppender \<times> BitStream) result" where
  "write_delta_value v = (\<lambda>(a, b).
     let delta = encode_double v XOR encode_double (xa_value a)
     in if delta = 0 then Ok (a, write_bit False b)
        else
          let b = write_bit True b;
              lz = (of_nat (clzll delta) :: u8);
              tz = (of_nat (ctzll delta) :: u8);
              lz = (if 32 \<le> lz then 31 else lz)
          in if xa_leading_zero a \<noteq> 0xff \<and> xa_leading_zero a \<le> lz \<and> xa_trailing_zero a \<le> tz
             then res_bind (write_bits (drop_bit (unat (xa_trailing_zero a)) delta)
                    (64 - uint (xa_leading_zero a) - uint (xa_trailing_zero a)) (write_bit False b))
                  (\<lambda>b. Ok (a, b))
             else
               let a = set_trailing_zero tz (set_leading_zero lz a);
                   sigbits = 64 - uint (xa_leading_zero a) - uint (xa_trailing_zero a)
               in res_bind (write_bits (ucast lz) 5 (write_bit True b)) (\<lambda>b.
                  res_bind (write_bits (word_of_int sigbits) 6 b) (\<lambda>b.
                  res_bind (write_bits (drop_bit (unat (xa_trailing_zero a)) delta) sigbits b) (\<lambda>b.
                  Ok (a, b)))))"

definition bit_range :: "i64 \<Rightarrow> nat \<Rightarrow> bool" where
  "bit_range dod num \<longleftrightarrow> - (2 ^ (num - 1) - 1) \<le> sint dod \<and> sint dod \<le> 2 ^ (num - 1)"

definition write_delta_delta :: "i64 \<Rightarrow> BitStream \<Rightarrow> BitStream result" where
  "write_delta_delta dod b =
     (if dod = 0 then Ok (write_bit False b)
      else if bit_range dod 14 then res_bind (write_bits 0x02 2 b) (write_bits dod 14)
      else if bit_range dod 17 then res_bind (write_bits 0x06 3 b) (write_bits dod 17)
      else if bit_range dod 20 then res_bind (write_bits 0x0e 4 b) (write_bits dod 20)
      else res_bind (write_bits 0x0f 4 b) (write_bits dod 64))"

text \<open>\<open>bytes()\<close> of the stream, where the sample count is kept.\<close>

definition get_count :: "BitStream \<Rightarrow> u32 result" where
  "get_count b = get_uint16_big_endian (drop (header_size b) (stream b))"

definition put_count :: "u32 \<Rightarrow> BitStream \<Rightarrow> BitStream result" where
  "put_count n b =
     res_bind (put_uint16_big_endian (drop (header_size b) (stream b)) n)
       (\<lambda>bs. Ok (b\<lparr>stream := take (header_size b) (stream b) @ bs\<rparr>))"

definition write_sample ::
  "u32 \<Rightarrow> i64 \<Rightarrow> double \<Rightarrow> XORAppender \<times> BitStream \<Rightarrow> (u64 \<times> XORAppender \<times> BitStream) result" where
  "write_sample num_samples t v = (\<lambda>(a, b).
     if num_samples = 0 then
       res_bind (write_bits (encode_double v) 64 (fold write_byte (encode_signed_varint t) b))
         (\<lambda>b. Ok (0, a, b))
     else if num_samples = 1 then
       let delta = t - xa_timestamp a
       in res_bind (write_delta_value v (a, fold write_byte (encode_signed_varint delta) b))
            (\<lambda>(a, b). Ok (delta, a, b))
     else
       let delta = t - xa_timestamp a
       in res_bind (write_delta_delta (delta - xa_delta_timestamp a) b) (\<lambda>b.
          res_bind (write_delta_value v (a, b)) (\<lambda>(a, b). Ok (delta, a, b))))"

definition xa_append ::
  "i64 \<Rightarrow> double \<Rightarrow> XORAppender \<times> BitStream \<Rightarrow> (XORAppender \<times> BitStream) result" where
  "xa_append t v = (\<lambda>(a, b).
     res_bind (get_count b) (\<lambda>num_samples.
     res_bind (write_sample num_samples t v (a, b)) (\<lambda>(delta, a, b).
     res_bind (put_count (num_samples + 1) b) (\<lambda>b.
     Ok (a\<lparr>xa_timestamp := t, xa_value := v, xa_delta_timestamp := delta\<rparr>, b)))))"

subsection \<open>The iterator\<close>

record XORIterator =
  xi_bstream :: BitStream
  xi_timestamp :: i64
  xi_value :: double
  xi_delta_timestamp :: u64
  xi_leading_zero :: u8
  xi_trailing_zero :: u8
  xi_num_total :: u16
  xi_num_read :: u16
  xi_err :: bool

text \<open>
  In safe mode the bytes are copied into a vector, otherwise the stream is read in
  place. The copy has as many bytes as the whole stream, but starts behind the header, so
  with a header it includes bytes that follow the stream.
\<close>

definition XORIterator_new :: "(nat \<Rightarrow> u8) \<Rightarrow> BitStream \<Rightarrow> bool \<Rightarrow> XORIterator result" where
  "XORIterator_new mem b safe_mode =
     (let data = map (bytes_ptr b) [0..<bs_size b];
          own = (if safe_mode then BitStream_vec mem data
                 else BitStream_ptr (\<lambda>i. bytes_ptr b (bs_size b + i)) data)
      in res_bind (get_uint16_big_endian (if vector_mode b then drop (header_size b) (stream b) else stream b))
         (\<lambda>n. Ok \<lparr>xi_bstream = pop_front (pop_front own), xi_timestamp = 0, xi_value = 0,
           xi_delta_timestamp = 0, xi_leading_zero = 0, xi_trailing_zero = 0,
           xi_num_total = ucast n, xi_num_read = 0, xi_err = False\<rparr>))"

definition xi_at :: "XORIterator \<Rightarrow> i64 \<times> double" where
  "xi_at it = (xi_timestamp it, xi_value it)"

text \<open>A read of the stream in a \<open>try\<close> block: \<open>h\<close> is the handler, \<open>k\<close> the code behind.\<close>

definition try_read ::
  "(BitStream \<Rightarrow> 'a result \<times> BitStream) \<Rightarrow> XORIterator \<Rightarrow> (XORIterator \<Rightarrow> 'b result \<times> XORIterator) \<Rightarrow>
   ('a \<Rightarrow> XORIterator \<Rightarrow> 'b result \<times> XORIterator) \<Rightarrow> 'b result \<times> XORIterator" where
  "try_read rd it h k =
     (case rd (xi_bstream it) of
        (Ok x, b) \<Rightarrow> k x (it\<lparr>xi_bstream := b\<rparr>)
      | (Throw, b) \<Rightarrow> h (it\<lparr>xi_bstream := b\<rparr>)
      | (Undef, b) \<Rightarrow> (Undef, it\<lparr>xi_bstream := b\<rparr>))"

definition fail_err :: "XORIterator \<Rightarrow> bool result \<times> XORIterator" where
  "fail_err it = (Ok False, it\<lparr>xi_err := True\<rparr>)"

definition fail_value :: "XORIterator \<Rightarrow> bool result \<times> XORIterator" where
  "fail_value it = (Ok False, it)"

definition read_significant :: "XORIterator \<Rightarrow> bool result \<times> XORIterator" where
  "read_significant it =
     try_read (read_bits (64 - uint (xi_leading_zero it) - uint (xi_trailing_zero it))) it fail_value (\<lambda>bits it.
       if 64 \<le> unat (xi_trailing_zero it) then (Undef, it)
       else let vbits = encode_double (xi_value it) XOR push_bit (unat (xi_trailing_zero it)) bits
            in (Ok True, it\<lparr>xi_value := decode_double vbits, xi_num_read := xi_num_read it + 1\<rparr>))"

definition read_value :: "XORIterator \<Rightarrow> bool result \<times> XORIterator" where
  "read_value it =
     try_read read_bit it fail_value (\<lambda>control it.
       if \<not> control then (Ok True, it\<lparr>xi_num_read := xi_num_read it + 1\<rparr>)
       else try_read read_bit it fail_value (\<lambda>control it.
         if control then
           try_read (read_bits 5) it fail_value (\<lambda>bits it.
             let it = it\<lparr>xi_leading_zero := ucast bits\<rparr>
             in try_read (read_bits 6) it fail_value (\<lambda>bits it.
               let sig = (ucast bits :: u8);
                   sig = (if sig = 0 then 64 else sig)
               in read_significant (it\<lparr>xi_trailing_zero := 64 - xi_leading_zero it - sig\<rparr>)))
         else read_significant it))"

text \<open>The prefix of a delta of deltas: ones up to the first zero, at most four.\<close>

primrec read_type :: "nat \<Rightarrow> u8 \<Rightarrow> BitStream \<Rightarrow> u8 result \<times> BitStream" where
  "read_type 0 ty b = (Ok ty, b)"
| "read_type (Suc n) ty b =
     rs_bind (read_bit b) (\<lambda>x b.
       if \<not> x then (Ok (push_bit 1 ty), b) else read_type n (push_bit 1 ty OR 1) b)"

definition dod_size :: "u8 \<Rightarrow> nat" where
  "dod_size ty = (if ty = 0x02 then 14 else if ty = 0x06 then 17 else if ty = 0x0e then 20 else 0)"

definition read_delta_delta :: "u8 \<Rightarrow> BitStream \<Rightarrow> i64 result \<times> BitStream" where
  "read_delta_delta ty b =
     (if dod_size ty \<noteq> 0 then
        rs_bind (read_bits (int (dod_size ty)) b) (\<lambda>dod b.
          (Ok (if 2 ^ (dod_size ty - 1) < sint dod then dod - 2 ^ dod_size ty else dod), b))
      else if ty = 0x0f then read_bits 64 b
      else (Ok 0, b))"

definition xi_next :: "XORIterator \<Rightarrow> bool result \<times> XORIterator" where
  "xi_next it =
     (if xi_err it \<or> xi_num_read it = xi_num_total it then (Ok False, it)
      else if xi_num_read it = 0 then
        try_read read_signed_varint it fail_err (\<lambda>current_t it.
          try_read (read_bits 64) it fail_err (\<lambda>current_v it.
            (Ok True, it\<lparr>xi_timestamp := current_t, xi_value := decode_double current_v,
                         xi_num_read := xi_num_read it + 1\<rparr>)))
      else if xi_num_read it = 1 then
        try_read read_signed_varint it fail_err (\<lambda>delta_t it.
          read_value (it\<lparr>xi_delta_timestamp := delta_t, xi_timestamp := xi_timestamp it + delta_t\<rparr>))
      else
        try_read (read_type 4 0) it fail_err (\<lambda>ty it.
          try_read (read_delta_delta ty) it fail_err (\<lambda>delta_delta it.
            let delta = delta_delta + xi_delta_timestamp it
            in read_value (it\<lparr>xi_delta_timestamp := delta, xi_timestamp := xi_timestamp it + delta\<rparr>))))"

lemma try_read_True:
  assumes "try_read rd it h k = (Ok True, it')" "h = fail_err \<or> h = fail_value"
  obtains x b where "rd (xi_bstream it) = (Ok x, b)" "k x (it\<lparr>xi_bstream := b\<rparr>) = (Ok True, it')"
  using assms by (cases "rd (xi_bstream it)", cases "fst (rd (xi_bstream it))")
    (auto simp: try_read_def fail_err_def fail_value_def)

lemma read_significant_True:
  "read_significant it = (Ok True, it') \<Longrightarrow>
   xi_num_total it' = xi_num_total it \<and> xi_num_read it' = xi_num_read it + 1"
  unfolding read_significant_def
  by (erule try_read_True) (auto simp: Let_def split: if_splits)

lemma read_value_True:
  "read_value it = (Ok True, it') \<Longrightarrow>
   xi_num_total it' = xi_num_total it \<and> xi_num_read it' = xi_num_read it + 1"
  unfolding read_value_def Let_def
  by (erule try_read_True; simp split: if_splits)
    (auto dest!: read_significant_True elim!: try_read_True split: if_splits)

lemma xi_next_True:
  "xi_next it = (Ok True, it') \<Longrightarrow> xi_num_read it \<noteq> xi_num_total it
     \<and> xi_num_total it' = xi_num_total it \<and> xi_num_read it' = xi_num_read it + 1"
  unfolding xi_next_def Let_def
  by (auto dest!: read_value_True elim!: try_read_True split: if_splits)

lemma xi_next_measure:
  assumes "(Ok True, it') = xi_next it"
  shows "unat (xi_num_total it' - xi_num_read it') < unat (xi_num_total it - xi_num_read it)"
proof -
  from xi_next_True [OF assms [symmetric]] have "xi_num_total it - xi_num_read it \<noteq> 0"
    "xi_num_total it' - xi_num_read it' = xi_num_total it - xi_num_read it - 1"
    by (auto simp: algebra_simps)
  then show ?thesis by (simp add: measure_unat)
qed

text \<open>
  The loop \<open>while (it->next())\<close> over an iterator: the samples it stops at, and the
  iterator at the end. It ends because every \<open>true\<close> moves \<open>num_read\<close> towards
  \<open>num_total\<close>.
\<close>

function xi_run :: "XORIterator \<Rightarrow> ((i64 \<times> double) list \<times> XORIterator) result" where
  "xi_run it =
     (case xi_next it of
        (Ok True, it') \<Rightarrow> res_bind (xi_run it') (\<lambda>(xs, it''). Ok (xi_at it' # xs, it''))
      | (Ok False, it') \<Rightarrow> Ok ([], it')
      | (Throw, it') \<Rightarrow> Throw
      | (Undef, it') \<Rightarrow> Undef)"
  by pat_completeness auto
termination
  by (relation "measure (\<lambda>it. unat (xi_num_total it - xi_num_read it))")
    (simp_all add: xi_next_measure)

declare xi_run.simps [simp del]

subsection \<open>The chunk\<close>

record XORChunk =
  xc_bstream :: BitStream
  xc_read_mode :: bool
  xc_rsize :: nat

datatype Appender = EmptyAppender | XORAppending XORAppender

definition XORChunk_new :: "(nat \<Rightarrow> u8) \<Rightarrow> XORChunk" where
  "XORChunk_new mem = \<lparr>xc_bstream = BitStream_sized mem 2 0, xc_read_mode = False, xc_rsize = 0\<rparr>"

definition XORChunk_header :: "(nat \<Rightarrow> u8) \<Rightarrow> nat \<Rightarrow> XORChunk" where
  "XORChunk_header mem hs = \<lparr>xc_bstream = BitStream_sized mem 2 hs, xc_read_mode = False, xc_rsize = 0\<rparr>"

text \<open>With \<open>copy\<close> the bytes are first copied; \<open>mem'\<close> is the memory behind the copy.\<close>

definition XORChunk_read :: "(nat \<Rightarrow> u8) \<Rightarrow> (nat \<Rightarrow> u8) \<Rightarrow> bytes \<Rightarrow> bool \<Rightarrow> XORChunk" where
  "XORChunk_read mem mem' data copy =
     \<lparr>xc_bstream = BitStream_ptr (if copy then mem' else mem) data, xc_read_mode = True,
      xc_rsize = length data\<rparr>"

definition xc_size :: "XORChunk \<Rightarrow> nat" where
  "xc_size c = (if xc_read_mode c then xc_rsize c else bs_size (xc_bstream c) - header_size (xc_bstream c))"

definition xc_all_size :: "XORChunk \<Rightarrow> nat" where
  "xc_all_size c = bs_size (xc_bstream c)"

text \<open>The \<open>size()\<close> bytes at \<open>bytes()\<close>.\<close>

definition xc_bytes :: "XORChunk \<Rightarrow> bytes" where
  "xc_bytes c = map (bytes_ptr (xc_bstream c)) [0..<xc_size c]"

definition xc_num_samples :: "XORChunk \<Rightarrow> u32 result" where
  "xc_num_samples c = get_uint16_big_endian (xc_bytes c)"

definition xor_iterator :: "XORChunk \<Rightarrow> XORIterator result" where
  "xor_iterator c = XORIterator_new (\<lambda>_. 0) (xc_bstream c) False"

definition xc_iterator :: "(nat \<Rightarrow> u8) \<Rightarrow> XORChunk \<Rightarrow> XORIterator result" where
  "xc_iterator mem c = XORIterator_new mem (xc_bstream c) (\<not> xc_read_mode c)"

definition xc_appender :: "XORChunk \<Rightarrow> Appender result" where
  "xc_appender c =
     (if xc_read_mode c then Ok EmptyAppender
      else res_bind (xor_iterator c) (\<lambda>it.
           res_bind (xi_run it) (\<lambda>(_, it).
             if xi_err it then Throw
             else res_bind (get_count (xc_bstream c)) (\<lambda>n.
               Ok (XORAppending
                 \<lparr>xa_timestamp = xi_timestamp it, xa_value = xi_value it,
                  xa_delta_timestamp = xi_delta_timestamp it,
                  xa_leading_zero = (if n = 0 then 0xff else xi_leading_zero it),
                  xa_trailing_zero = xi_trailing_zero it\<rparr>)))))"

text \<open>\<open>append\<close> of the appender an interface pointer refers to.\<close>

fun appender_append :: "i64 \<times> double \<Rightarrow> Appender \<times> XORChunk \<Rightarrow> (Appender \<times> XORChunk) result" where
  "appender_append (t, v) (EmptyAppender, c) = Ok (EmptyAppender, c)"
| "appender_append (t, v) (XORAppending a, c) =
     res_bind (xa_append t v (a, xc_bstream c)) (\<lambda>(a, b). Ok (XORAppending a, c\<lparr>xc_bstream := b\<rparr>))"

subsection \<open>Values\<close>

text \<open>
  The window of significant bits an iterator remembers, and when an appender and an
  iterator agree on it: the appender's \<open>0xff\<close> stands for no window yet.
\<close>

definition window :: "u8 \<Rightarrow> u8 \<Rightarrow> bool" where
  "window lz tz \<longleftrightarrow> unat lz + unat tz < 64"

definition same_window :: "XORAppender \<Rightarrow> XORIterator \<Rightarrow> bool" where
  "same_window a it \<longleftrightarrow> window (xi_leading_zero it) (xi_trailing_zero it)
     \<and> (xa_leading_zero a = 255 \<and> xi_leading_zero it = 0 \<and> xi_trailing_zero it = 0
        \<or> xa_leading_zero a = xi_leading_zero it \<and> xa_trailing_zero a = xi_trailing_zero it)"

definition appender_window :: "XORAppender \<Rightarrow> bool" where
  "appender_window a \<longleftrightarrow> xa_leading_zero a = 255 \<or> window (xa_leading_zero a) (xa_trailing_zero a)"

lemma window_width:
  assumes "window lz tz"
  shows "64 - uint lz - uint tz = int (64 - unat lz - unat tz)" "0 < 64 - unat lz - unat tz"
  using assms by (simp_all add: window_def of_nat_diff)

lemma read_significant_next:
  assumes "window (xi_leading_zero it) (xi_trailing_zero it)"
    and "unat (xi_leading_zero it) \<le> clzll delta" "unat (xi_trailing_zero it) \<le> ctzll delta"
    and "next_bits (xi_bstream it)
      (msb_bits (64 - unat (xi_leading_zero it) - unat (xi_trailing_zero it))
        (drop_bit (unat (xi_trailing_zero it)) delta) @ ys)"
  obtains b where "read_significant it =
      (Ok True, it\<lparr>xi_bstream := b, xi_value := xi_value it XOR delta, xi_num_read := xi_num_read it + 1\<rparr>)"
    "next_bits b ys"
proof -
  let ?tz = "unat (xi_trailing_zero it)"
  let ?n = "64 - unat (xi_leading_zero it) - ?tz"
  note w = window_width [OF assms(1)]
  from next_field [OF assms(4) w(2)] obtain b where b:
    "read_bits (int ?n) (xi_bstream it) = (Ok (take_bit ?n (drop_bit ?tz delta)), b)" "next_bits b ys" .
  have "?tz < 64" using assms(1) by (simp add: window_def)
  moreover have "read_bits (64 - uint (xi_leading_zero it) - uint (xi_trailing_zero it)) (xi_bstream it)
      = (Ok (take_bit ?n (drop_bit ?tz delta)), b)"
    using b(1) by (simp only: w(1))
  ultimately show thesis
    using b(2) window_exact [OF assms(2,3)]
    by (intro that [of b]) (simp_all add: read_significant_def try_read_def encode_double_def decode_double_def)
qed

text \<open>\<open>value_decodes bits a v a'\<close>: reading \<open>bits\<close> next to appender \<open>a\<close> yields \<open>v\<close>.\<close>

definition value_read :: "XORIterator \<Rightarrow> double \<Rightarrow> XORIterator \<Rightarrow> bool" where
  "value_read it v it' \<longleftrightarrow> read_value it = (Ok True, it') \<and> xi_value it' = v
     \<and> xi_timestamp it' = xi_timestamp it \<and> xi_delta_timestamp it' = xi_delta_timestamp it
     \<and> xi_num_total it' = xi_num_total it \<and> xi_num_read it' = xi_num_read it + 1
     \<and> xi_err it' = xi_err it"

definition value_decodes :: "bool list \<Rightarrow> XORAppender \<Rightarrow> double \<Rightarrow> XORAppender \<Rightarrow> bool" where
  "value_decodes bits a v a' \<longleftrightarrow>
     (\<forall>it ys. same_window a it \<longrightarrow> xi_value it = xa_value a \<longrightarrow> next_bits (xi_bstream it) (bits @ ys) \<longrightarrow>
        (\<exists>it'. value_read it v it' \<and> same_window a' it' \<and> next_bits (xi_bstream it') ys))"

lemma value_decodes_same: "value_decodes [False] a (xa_value a) a"
  unfolding value_decodes_def
proof (intro allI impI)
  fix it ys
  assume w: "same_window a it" and v: "xi_value it = xa_value a" and "next_bits (xi_bstream it) ([False] @ ys)"
  then have "next_bits (xi_bstream it) (False # ys)" by simp
  from next_bit [OF this] obtain b where "read_bit (xi_bstream it) = (Ok False, b)" "next_bits b ys" .
  with w v show "\<exists>it'. value_read it (xa_value a) it' \<and> same_window a it' \<and> next_bits (xi_bstream it') ys"
    by (intro exI [of _ "it\<lparr>xi_bstream := b, xi_num_read := xi_num_read it + 1\<rparr>"])
      (simp add: value_read_def read_value_def try_read_def same_window_def)
qed

lemma value_decodes_reuse:
  assumes "xa_leading_zero a \<noteq> 255" "appender_window a"
    "unat (xa_leading_zero a) \<le> clzll (v XOR xa_value a)" "unat (xa_trailing_zero a) \<le> ctzll (v XOR xa_value a)"
  shows "value_decodes ([True, False] @ msb_bits (64 - unat (xa_leading_zero a) - unat (xa_trailing_zero a))
    (drop_bit (unat (xa_trailing_zero a)) (v XOR xa_value a))) a v a"
  unfolding value_decodes_def
proof (intro allI impI)
  fix it ys
  let ?delta = "v XOR xa_value a"
  let ?bits = "msb_bits (64 - unat (xa_leading_zero a) - unat (xa_trailing_zero a)) (drop_bit (unat (xa_trailing_zero a)) ?delta)"
  assume w: "same_window a it" and v: "xi_value it = xa_value a"
    and "next_bits (xi_bstream it) (([True, False] @ ?bits) @ ys)"
  then have "next_bits (xi_bstream it) (True # False # ?bits @ ys)" by simp
  from next_bit [OF this] obtain b1 where b1: "read_bit (xi_bstream it) = (Ok True, b1)"
    "next_bits b1 (False # ?bits @ ys)" .
  from next_bit [OF b1(2)] obtain b2 where b2: "read_bit b1 = (Ok False, b2)" "next_bits b2 (?bits @ ys)" .
  have lt: "xi_leading_zero it = xa_leading_zero a" "xi_trailing_zero it = xa_trailing_zero a"
    "window (xi_leading_zero it) (xi_trailing_zero it)"
    using w assms(1) by (auto simp: same_window_def)
  have eq: "xi_value it XOR ?delta = v" by (simp add: v xor.left_commute)
  let ?it = "it\<lparr>xi_bstream := b2\<rparr>"
  have prem: "window (xi_leading_zero ?it) (xi_trailing_zero ?it)" "unat (xi_leading_zero ?it) \<le> clzll ?delta"
    "unat (xi_trailing_zero ?it) \<le> ctzll ?delta"
    "next_bits (xi_bstream ?it) (msb_bits (64 - unat (xi_leading_zero ?it) - unat (xi_trailing_zero ?it))
       (drop_bit (unat (xi_trailing_zero ?it)) ?delta) @ ys)"
    using lt assms(3,4) b2(2) by simp_all
  from read_significant_next [OF prem] obtain b where
    "read_significant ?it = (Ok True, ?it\<lparr>xi_bstream := b, xi_value := xi_value ?it XOR ?delta,
       xi_num_read := xi_num_read ?it + 1\<rparr>)" "next_bits b ys" .
  with b1(1) b2(1) lt eq show "\<exists>it'. value_read it v it' \<and> same_window a it' \<and> next_bits (xi_bstream it') ys"
    by (intro exI [of _ "it\<lparr>xi_bstream := b, xi_value := v, xi_num_read := xi_num_read it + 1\<rparr>"])
      (simp add: value_read_def read_value_def try_read_def same_window_def)
qed

lemma five_bits: "l < 32 \<Longrightarrow> ucast (take_bit 5 (ucast (of_nat l :: u8) :: u64)) = (of_nat l :: u8)"
proof -
  assume "l < 32"
  then have l: "take_bit 5 l = l" by (simp add: take_bit_eq_mod)
  have "ucast (take_bit 5 (ucast w :: u64)) = take_bit 5 w" for w :: u8
    by (rule bit_word_eqI) (auto simp: bit_simps)
  then show ?thesis by (simp add: l flip: of_nat_take_bit)
qed

lemma six_bits:
  assumes "0 < n" "n \<le> 64"
  shows "(let x = (ucast (take_bit 6 (of_nat n :: u64)) :: u8) in if x = 0 then 64 else x) = of_nat n"
proof -
  have eq: "ucast (take_bit 6 (of_nat n :: u64)) = (of_nat (n mod 64) :: u8)"
  proof -
    have "take_bit 6 (of_nat n :: u64) = of_nat (n mod 64)"
      using of_nat_take_bit [of 6 n, where 'a=u64] by (simp add: take_bit_eq_mod)
    then show ?thesis by (simp add: unsigned_of_nat take_bit_eq_mod)
  qed
  show ?thesis
  proof (cases "n = 64")
    case False
    then have "n mod 64 = n" "n < 256" "(of_nat n :: u8) \<noteq> 0"
      using assms word_of_nat_eq_0_iff [of n, where 'a=8] by (auto simp: nat_dvd_not_less)
    then show ?thesis unfolding eq by simp
  qed (simp add: eq)
qed

lemma unat_of_nat_u8: "n < 256 \<Longrightarrow> unat (of_nat n :: u8) = n"
  by (simp add: unat_of_nat)

lemma value_decodes_new:
  assumes "l < 32" "l \<le> clzll delta" "t \<le> ctzll delta" "l + t < 64" "delta = v XOR xa_value a"
  shows "value_decodes ([True, True] @ msb_bits 5 (ucast (of_nat l :: u8) :: u64)
      @ msb_bits 6 (of_nat (64 - l - t) :: u64) @ msb_bits (64 - l - t) (drop_bit t delta)) a v
    (a\<lparr>xa_leading_zero := of_nat l, xa_trailing_zero := of_nat t\<rparr>)"
  unfolding value_decodes_def
proof (intro allI impI)
  fix it :: XORIterator and ys
  let ?b5 = "msb_bits 5 (ucast (of_nat l :: u8) :: u64)" and ?b6 = "msb_bits 6 (of_nat (64 - l - t) :: u64)"
  let ?bs = "msb_bits (64 - l - t) (drop_bit t delta)"
  assume v: "xi_value it = xa_value a"
    and "next_bits (xi_bstream it) (([True, True] @ ?b5 @ ?b6 @ ?bs) @ ys)"
  then have "next_bits (xi_bstream it) (True # True # ?b5 @ ?b6 @ ?bs @ ys)" by simp
  from next_bit [OF this] obtain b1 where b1: "read_bit (xi_bstream it) = (Ok True, b1)"
    "next_bits b1 (True # ?b5 @ ?b6 @ ?bs @ ys)" .
  from next_bit [OF b1(2)] obtain b2 where b2: "read_bit b1 = (Ok True, b2)"
    "next_bits b2 (?b5 @ ?b6 @ ?bs @ ys)" .
  from next_field [OF b2(2)] obtain b3 where b3:
    "read_bits 5 b2 = (Ok (take_bit 5 (ucast (of_nat l :: u8))), b3)" "next_bits b3 (?b6 @ ?bs @ ys)" by auto
  from next_field [OF b3(2)] obtain b4 where b4:
    "read_bits 6 b3 = (Ok (take_bit 6 (of_nat (64 - l - t))), b4)" "next_bits b4 (?bs @ ys)" by auto
  let ?it = "it\<lparr>xi_leading_zero := of_nat l, xi_bstream := b4, xi_trailing_zero := of_nat t\<rparr>"
  have un: "unat (of_nat l :: u8) = l" "unat (of_nat t :: u8) = t"
    using assms(1,4) by (simp_all add: unat_of_nat_u8)
  have w: "window (of_nat l) (of_nat t)" using un assms(4) by (simp add: window_def)
  have prem: "window (xi_leading_zero ?it) (xi_trailing_zero ?it)" "unat (xi_leading_zero ?it) \<le> clzll delta"
    "unat (xi_trailing_zero ?it) \<le> ctzll delta"
    "next_bits (xi_bstream ?it) (msb_bits (64 - unat (xi_leading_zero ?it) - unat (xi_trailing_zero ?it))
       (drop_bit (unat (xi_trailing_zero ?it)) delta) @ ys)"
    using w un assms(2,3) b4(2) by simp_all
  from read_significant_next [OF prem] obtain b where sig:
    "read_significant ?it = (Ok True, ?it\<lparr>xi_bstream := b, xi_value := xi_value ?it XOR delta,
       xi_num_read := xi_num_read ?it + 1\<rparr>)" "next_bits b ys" .
  have "64 - of_nat l - of_nat (64 - l - t) = (of_nat t :: u8)"
    using assms(4) by (simp add: of_nat_diff)
  then have "read_value it = read_significant ?it"
    using b1(1) b2(1) b3(1) b4(1) five_bits [OF assms(1)] six_bits [of "64 - l - t"] assms(4)
    by (simp add: read_value_def try_read_def Let_def)
  moreover have "xi_value it XOR delta = v" by (simp add: assms(5) v xor.left_commute)
  ultimately show "\<exists>it'. value_read it v it' \<and> same_window (a\<lparr>xa_leading_zero := of_nat l,
      xa_trailing_zero := of_nat t\<rparr>) it' \<and> next_bits (xi_bstream it') ys"
    using sig w
    by (intro exI [of _ "?it\<lparr>xi_bstream := b, xi_value := v, xi_num_read := xi_num_read it + 1\<rparr>"])
      (simp add: value_read_def same_window_def)
qed

subsection \<open>What the appender writes\<close>

definition emits :: "BitStream \<Rightarrow> bool list \<Rightarrow> BitStream \<Rightarrow> bool" where
  "emits b bits b' \<longleftrightarrow> writer_ok b' \<and> bs_written b' = bs_written b @ bits \<and> header_size b' = header_size b"

lemma header_size_write_bit [simp]: "header_size (write_bit x b) = header_size b"
  by (simp add: write_bit_def open_byte_def Let_def)

lemma header_size_write_byte [simp]: "header_size (write_byte x b) = header_size b"
  by (simp add: write_byte_def open_byte_def Let_def)

lemma header_size_write_bytes [simp]: "header_size (fold write_byte xs b) = header_size b"
  by (induction xs arbitrary: b) simp_all

lemma header_size_write_bits_loop [simp]: "header_size (write_bits_loop v n b) = header_size b"
  by (induction v n b rule: write_bits_loop.induct) (subst write_bits_loop.simps, simp)

lemma emits_trans: "emits b xs b' \<Longrightarrow> emits b' ys b'' \<Longrightarrow> emits b (xs @ ys) b''"
  by (simp add: emits_def)

lemma emits_bit: "writer_ok b \<Longrightarrow> emits b [x] (write_bit x b)"
  by (simp add: emits_def write_bit_written)

lemma emits_bytes: "writer_ok b \<Longrightarrow> emits b (bytes_bits xs) (fold write_byte xs b)"
  by (simp add: emits_def write_bytes_written)

lemma emits_bits:
  assumes "writer_ok b" "num = int n" "0 < n" "n \<le> 64"
  obtains b' where "write_bits v num b = Ok b'" "emits b (msb_bits n v) b'"
proof -
  from write_bits_written [OF assms(1), of num v] assms(2-4) obtain b' where
    "write_bits v num b = Ok b'" "writer_ok b'" "bs_written b' = bs_written b @ msb_bits n v"
    by auto
  with assms(2-4) show thesis by (intro that) (auto simp: emits_def write_bits_def split: if_splits)
qed

lemma clamp_lz:
  "c < 64 \<Longrightarrow> (if 32 \<le> (of_nat c :: u8) then 31 else of_nat c) = (of_nat (if 32 \<le> c then 31 else c) :: u8)"
  by (simp add: word_le_nat_alt unat_of_nat_u8)

lemma write_delta_value_eq:
  assumes "delta = v XOR xa_value a" "delta \<noteq> 0" "l = (if 32 \<le> clzll delta then 31 else clzll delta)"
    "a' = a\<lparr>xa_leading_zero := of_nat l, xa_trailing_zero := of_nat (ctzll delta)\<rparr>"
  shows "write_delta_value v (a, b) =
    (if xa_leading_zero a \<noteq> 255 \<and> xa_leading_zero a \<le> of_nat l \<and> xa_trailing_zero a \<le> of_nat (ctzll delta)
     then res_bind (write_bits (drop_bit (unat (xa_trailing_zero a)) delta)
            (64 - uint (xa_leading_zero a) - uint (xa_trailing_zero a)) (write_bit False (write_bit True b)))
          (\<lambda>b. Ok (a, b))
     else res_bind (write_bits (ucast (of_nat l :: u8)) 5 (write_bit True (write_bit True b))) (\<lambda>b.
          res_bind (write_bits (of_nat (64 - l - ctzll delta)) 6 b) (\<lambda>b.
          res_bind (write_bits (drop_bit (ctzll delta) delta) (int (64 - l - ctzll delta)) b) (\<lambda>b.
          Ok (a', b)))))"
proof -
  note ct = clzll_ctzll_less [OF assms(2)]
  have c: "(if 32 \<le> (of_nat (clzll delta) :: u8) then 31 else of_nat (clzll delta)) = (of_nat l :: u8)"
    unfolding assms(3) using ct by (intro clamp_lz) simp
  have l: "l < 32" "l + ctzll delta < 64" using assms(3) ct by auto
  have un: "unat (of_nat l :: u8) = l" "unat (of_nat (ctzll delta) :: u8) = ctzll delta"
    using l by (simp_all add: unat_of_nat_u8)
  then have "window (of_nat l) (of_nat (ctzll delta))" using l(2) by (simp add: window_def)
  from window_width(1) [OF this] un
  have w: "64 - uint (of_nat l :: u8) - uint (of_nat (ctzll delta) :: u8) = int (64 - l - ctzll delta)" by simp
  have z: "(delta = 0) = False" using assms(2) by simp
  have a': "set_trailing_zero (of_nat (ctzll delta)) (set_leading_zero (of_nat l) a) = a'"
    "xa_leading_zero a' = of_nat l" "xa_trailing_zero a' = of_nat (ctzll delta)"
    by (simp_all add: assms(4) set_leading_zero_def set_trailing_zero_def)
  show ?thesis
    by (simp only: write_delta_value_def prod.case encode_double_def assms(1) [symmetric] Let_def c z a' w un
        if_False of_int_of_nat_eq)
qed

lemma write_delta_reuse:
  assumes "writer_ok b" "appender_window a" "delta = v XOR xa_value a" "delta \<noteq> 0"
    "xa_leading_zero a \<noteq> 255" "l = (if 32 \<le> clzll delta then 31 else clzll delta)"
    "xa_leading_zero a \<le> of_nat l" "xa_trailing_zero a \<le> of_nat (ctzll delta)"
  obtains b' bits where "write_delta_value v (a, b) = Ok (a, b')" "emits b bits b'" "value_decodes bits a v a"
proof -
  note ct = clzll_ctzll_less [OF assms(4)]
  let ?tz = "unat (xa_trailing_zero a)"
  let ?n = "64 - unat (xa_leading_zero a) - ?tz"
  have le: "unat (xa_leading_zero a) \<le> clzll delta" "?tz \<le> ctzll delta"
    using assms(6-8) ct by (auto simp: word_le_nat_alt unat_of_nat_u8 split: if_splits)
  have w: "window (xa_leading_zero a) (xa_trailing_zero a)" using assms(2,5) by (simp add: appender_window_def)
  let ?b = "write_bit False (write_bit True b)"
  have e1: "emits b [True, False] ?b"
    using emits_trans [OF emits_bit [OF assms(1), of True] emits_bit] assms(1) by (simp add: write_bit_written)
  then have "writer_ok ?b" by (simp add: emits_def)
  from emits_bits [OF this window_width(1) [OF w] window_width(2) [OF w], of "drop_bit ?tz delta"]
  obtain b' where b': "write_bits (drop_bit ?tz delta) (64 - uint (xa_leading_zero a) - uint (xa_trailing_zero a)) ?b = Ok b'"
    "emits ?b (msb_bits ?n (drop_bit ?tz delta)) b'" by auto
  have "write_delta_value v (a, b) = Ok (a, b')"
    using assms(5,7,8) b'(1) by (simp add: write_delta_value_eq [OF assms(3,4,6) refl])
  moreover have "value_decodes ([True, False] @ msb_bits ?n (drop_bit ?tz delta)) a v a"
    using value_decodes_reuse [OF assms(5,2), of v] le by (simp only: assms(3))
  ultimately show thesis using emits_trans [OF e1 b'(2)] by (intro that)
qed

lemma write_delta_new:
  assumes "writer_ok b" "delta = v XOR xa_value a" "delta \<noteq> 0"
    "l = (if 32 \<le> clzll delta then 31 else clzll delta)"
    "\<not> (xa_leading_zero a \<noteq> 255 \<and> xa_leading_zero a \<le> of_nat l \<and> xa_trailing_zero a \<le> of_nat (ctzll delta))"
    "a' = a\<lparr>xa_leading_zero := of_nat l, xa_trailing_zero := of_nat (ctzll delta)\<rparr>"
  obtains b' bits where "write_delta_value v (a, b) = Ok (a', b')" "emits b bits b'"
    "value_decodes bits a v a'" "appender_window a'"
proof -
  note ct = clzll_ctzll_less [OF assms(3)]
  let ?t = "ctzll delta"
  let ?n = "64 - l - ?t"
  have l: "l < 32" "l \<le> clzll delta" "l + ?t < 64" using assms(4) ct by auto
  then have w: "window (of_nat l) (of_nat ?t)" by (simp add: window_def unat_of_nat_u8)
  let ?b = "write_bit True (write_bit True b)"
  have e1: "emits b [True, True] ?b"
    using emits_trans [OF emits_bit [OF assms(1), of True] emits_bit] assms(1) by (simp add: write_bit_written)
  then have ok1: "writer_ok ?b" by (simp add: emits_def)
  from emits_bits [OF ok1, of 5 5 "ucast (of_nat l :: u8)"] obtain b2 where b2:
    "write_bits (ucast (of_nat l :: u8)) 5 ?b = Ok b2" "emits ?b (msb_bits 5 (ucast (of_nat l :: u8) :: u64)) b2" by auto
  have ok2: "writer_ok b2" using b2(2) by (simp add: emits_def)
  from emits_bits [OF ok2, of 6 6 "of_nat ?n"] obtain b3 where b3:
    "write_bits (of_nat ?n) 6 b2 = Ok b3" "emits b2 (msb_bits 6 (of_nat ?n :: u64)) b3" by auto
  have ok3: "writer_ok b3" using b3(2) by (simp add: emits_def)
  have n: "0 < ?n" "?n \<le> 64" using l(3) by simp_all
  from emits_bits [OF ok3 refl n, of "drop_bit ?t delta"] obtain b' where b':
    "write_bits (drop_bit ?t delta) (int ?n) b3 = Ok b'" "emits b3 (msb_bits ?n (drop_bit ?t delta)) b'" .
  have "write_delta_value v (a, b) = Ok (a', b')"
    by (simp only: write_delta_value_eq [OF assms(2-4,6)] assms(5) if_False b2(1) b3(1) b'(1) res_bind.simps)
  moreover have "emits b ([True, True] @ msb_bits 5 (ucast (of_nat l :: u8) :: u64)
      @ msb_bits 6 (of_nat ?n :: u64) @ msb_bits ?n (drop_bit ?t delta)) b'"
    using emits_trans [OF e1 emits_trans [OF b2(2) emits_trans [OF b3(2) b'(2)]]] .
  moreover have "appender_window a'" using w assms(6) by (simp add: appender_window_def)
  moreover note value_decodes_new [OF l(1,2) order_refl l(3) assms(2), folded assms(6)]
  ultimately show thesis by (intro that)
qed

lemma write_delta_value_sim:
  assumes "writer_ok b" "appender_window a"
  obtains a' b' bits where "write_delta_value v (a, b) = Ok (a', b')" "emits b bits b'"
    "appender_window a'" "value_decodes bits a v a'"
    "xa_timestamp a' = xa_timestamp a" "xa_delta_timestamp a' = xa_delta_timestamp a"
proof -
  define delta where d: "delta = v XOR xa_value a"
  define l where l: "l = (if 32 \<le> clzll delta then 31 else clzll delta)"
  show thesis
  proof (cases "delta = 0")
    case True
    then have "v = xa_value a" using d by (metis xor.assoc xor.right_neutral xor_self_eq xor.commute)
    with True show thesis
      using emits_bit [OF assms(1), of False] assms(2) value_decodes_same [of a]
      by (intro that [of a "write_bit False b" "[False]"])
        (simp_all add: write_delta_value_def encode_double_def d)
  next
    case ne: False
    let ?keep = "xa_leading_zero a \<noteq> 255 \<and> xa_leading_zero a \<le> of_nat l \<and> xa_trailing_zero a \<le> of_nat (ctzll delta)"
    show thesis
    proof (cases ?keep)
      case True
      then have k: "xa_leading_zero a \<noteq> 255" "xa_leading_zero a \<le> of_nat l" "xa_trailing_zero a \<le> of_nat (ctzll delta)"
        by simp_all
      from write_delta_reuse [OF assms d ne k(1) l k(2,3)] obtain b' bits where
        "write_delta_value v (a, b) = Ok (a, b')" "emits b bits b'" "value_decodes bits a v a" .
      then show thesis using assms(2) by (intro that) simp_all
    next
      case False
      define a' where a': "a' = a\<lparr>xa_leading_zero := of_nat l, xa_trailing_zero := of_nat (ctzll delta)\<rparr>"
      from write_delta_new [OF assms(1) d ne l False a'] obtain b' bits where w:
        "write_delta_value v (a, b) = Ok (a', b')" "emits b bits b'" "value_decodes bits a v a'"
        "appender_window a'" .
      show thesis by (rule that [OF w(1,2,4,3)]) (simp_all add: a')
    qed
  qed
qed

subsection \<open>Deltas of deltas\<close>

lemma dod_back:
  fixes dod :: i64
  assumes "0 < n" "n < 63" "bit_range dod n"
  shows "(if 2 ^ (n - 1) < sint (take_bit n dod) then take_bit n dod - 2 ^ n else take_bit n dod) = dod"
proof -
  define x where x: "x = sint dod"
  have p: "(2 :: int) ^ n = 2 * 2 ^ (n - 1)" using assms(1) by (simp flip: power_Suc)
  have big: "(2 :: int) ^ n < 2 ^ 63" using assms(2) by (intro power_strict_increasing) simp_all
  have r: "- (2 ^ (n - 1) - 1) \<le> x" "x \<le> 2 ^ (n - 1)" using assms(3) by (simp_all add: bit_range_def x)
  have d: "dod = word_of_int x" by (simp add: x)
  have t: "take_bit n dod = word_of_int (x mod 2 ^ n)"
    unfolding d by (simp only: take_bit_of_int take_bit_eq_mod [of n x])
  have s: "sint (word_of_int (x mod 2 ^ n) :: i64) = x mod 2 ^ n"
  proof -
    have "x mod 2 ^ n < 2 ^ n" by simp
    from this big have "x mod 2 ^ n < 2 ^ 63" by (rule order.strict_trans)
    moreover have "- (2 ^ 63) \<le> x mod 2 ^ n" by (rule order.trans [of _ 0]) simp_all
    ultimately show ?thesis by (simp add: signed_of_int signed_take_bit_int_eq_self_iff)
  qed
  show ?thesis
  proof (cases "0 \<le> x")
    case True
    have "(0 :: int) < 2 ^ (n - 1)" by simp
    with r(2) p have "x < 2 ^ n" by linarith
    with True have "x mod 2 ^ n = x" by (intro mod_pos_pos_trivial)
    then show ?thesis unfolding t s using r(2) by (simp add: d)
  next
    case False
    have "(0 :: int) < 2 ^ (n - 1)" by simp
    with False r(1) p have "0 \<le> x + 2 ^ n" "x + 2 ^ n < 2 ^ n" by linarith+
    then have "(x + 2 ^ n) mod 2 ^ n = x + 2 ^ n" by (intro mod_pos_pos_trivial)
    then have m: "x mod 2 ^ n = x + 2 ^ n" by simp
    have "(2 :: int) ^ (n - 1) < x + 2 ^ n" using r(1) p by linarith
    then show ?thesis unfolding t s by (simp add: m d)
  qed
qed

lemma prefix_bits:
  "msb_bits 2 (0x02 :: u64) = [True, False]" "msb_bits 3 (0x06 :: u64) = [True, True, False]"
  "msb_bits 4 (0x0e :: u64) = [True, True, True, False]" "msb_bits 4 (0x0f :: u64) = [True, True, True, True]"
  by (simp_all add: numeral_eq_Suc msb_bits_Suc)

definition dod_decodes :: "bool list \<Rightarrow> i64 \<Rightarrow> bool" where
  "dod_decodes bits dod \<longleftrightarrow> (\<forall>r ys. next_bits r (bits @ ys) \<longrightarrow>
     (\<exists>ty r1 r2. read_type 4 0 r = (Ok ty, r1) \<and> read_delta_delta ty r1 = (Ok dod, r2) \<and> next_bits r2 ys))"

lemma read_type_one:
  assumes "next_bits r (True # ys)"
  obtains r' where "read_type (Suc n) ty r = read_type n (push_bit 1 ty OR 1) r'" "next_bits r' ys"
proof -
  from next_bit [OF assms] obtain r' where "read_bit r = (Ok True, r')" "next_bits r' ys" .
  then show thesis by (intro that) simp_all
qed

lemma read_type_zero:
  assumes "next_bits r (False # ys)"
  obtains r' where "read_type (Suc n) ty r = (Ok (push_bit 1 ty), r')" "next_bits r' ys"
proof -
  from next_bit [OF assms] obtain r' where "read_bit r = (Ok False, r')" "next_bits r' ys" .
  then show thesis by (intro that) simp_all
qed

text \<open>The four prefixes of a non-zero delta of deltas and the type each is read as.\<close>

lemma read_type_10:
  assumes "next_bits r ([True, False] @ ys)"
  shows "\<exists>r'. read_type 4 0 r = (Ok 2, r') \<and> next_bits r' ys"
proof -
  from assms have "next_bits r (True # False # ys)" by simp
  from read_type_one [OF this, of 3 0] obtain r1 where 1: "read_type 4 0 r = read_type 3 1 r1" "next_bits r1 (False # ys)"
    by (auto simp: numeral_eq_Suc)
  from read_type_zero [OF 1(2), of 2 1] obtain r2 where "read_type 3 1 r1 = (Ok 2, r2)" "next_bits r2 ys"
    by (auto simp: numeral_eq_Suc)
  with 1 show ?thesis by simp
qed

lemma read_type_110:
  assumes "next_bits r ([True, True, False] @ ys)"
  shows "\<exists>r'. read_type 4 0 r = (Ok 6, r') \<and> next_bits r' ys"
proof -
  from assms have "next_bits r (True # True # False # ys)" by simp
  from read_type_one [OF this, of 3 0] obtain r1 where 1: "read_type 4 0 r = read_type 3 1 r1"
    "next_bits r1 (True # False # ys)" by (auto simp: numeral_eq_Suc)
  from read_type_one [OF 1(2), of 2 1] obtain r2 where 2: "read_type 3 1 r1 = read_type 2 3 r2"
    "next_bits r2 (False # ys)" by (auto simp: numeral_eq_Suc)
  from read_type_zero [OF 2(2), of 1 3] obtain r3 where "read_type 2 3 r2 = (Ok 6, r3)" "next_bits r3 ys"
    by (auto simp: numeral_eq_Suc)
  with 1 2 show ?thesis by simp
qed

lemma read_type_111:
  assumes "next_bits r ([True, True, True] @ x # ys)"
  shows "\<exists>r'. read_type 4 0 r = (Ok (if x then 15 else 14), r') \<and> next_bits r' ys"
proof -
  from assms have "next_bits r (True # True # True # x # ys)" by simp
  from read_type_one [OF this, of 3 0] obtain r1 where 1: "read_type 4 0 r = read_type 3 1 r1"
    "next_bits r1 (True # True # x # ys)" by (auto simp: numeral_eq_Suc)
  from read_type_one [OF 1(2), of 2 1] obtain r2 where 2: "read_type 3 1 r1 = read_type 2 3 r2"
    "next_bits r2 (True # x # ys)" by (auto simp: numeral_eq_Suc)
  from read_type_one [OF 2(2), of 1 3] obtain r3 where 3: "read_type 2 3 r2 = read_type 1 7 r3"
    "next_bits r3 (x # ys)" by (auto simp: numeral_eq_Suc)
  from next_bit [OF 3(2)] obtain r4 where "read_bit r3 = (Ok x, r4)" "next_bits r4 ys" .
  with 1 2 3 show ?thesis by simp
qed

lemma dod_field_decodes:
  assumes "dod_size ty = n" "0 < n" "n < 63" "bit_range dod n"
    and ty: "\<And>r ys. next_bits r (pre @ ys) \<Longrightarrow> \<exists>r'. read_type 4 0 r = (Ok ty, r') \<and> next_bits r' ys"
  shows "dod_decodes (pre @ msb_bits n dod) dod"
  unfolding dod_decodes_def
proof (intro allI impI)
  fix r ys assume "next_bits r ((pre @ msb_bits n dod) @ ys)"
  then obtain r1 where r1: "read_type 4 0 r = (Ok ty, r1)" "next_bits r1 (msb_bits n dod @ ys)"
    using ty [of r "msb_bits n dod @ ys"] by auto
  from next_field [OF r1(2) assms(2)] obtain r2 where
    r2: "read_bits (int n) r1 = (Ok (take_bit n dod), r2)" "next_bits r2 ys" .
  then have "read_delta_delta ty r1 = (Ok dod, r2)"
    using dod_back [OF assms(2-4)] assms(1,2) by (auto simp: read_delta_delta_def split: if_splits)
  with r1 r2
  show "\<exists>ty r1 r2. read_type 4 0 r = (Ok ty, r1) \<and> read_delta_delta ty r1 = (Ok dod, r2) \<and> next_bits r2 ys"
    by blast
qed

lemma dod_zero_decodes: "dod_decodes [False] 0"
  unfolding dod_decodes_def
proof (intro allI impI)
  fix r ys assume "next_bits r ([False] @ ys)"
  then have "next_bits r (False # ys)" by simp
  from read_type_zero [OF this, of 3 0] obtain r' where "read_type 4 0 r = (Ok 0, r')" "next_bits r' ys"
    by (auto simp: numeral_eq_Suc)
  then show "\<exists>ty r1 r2. read_type 4 0 r = (Ok ty, r1) \<and> read_delta_delta ty r1 = (Ok 0, r2) \<and> next_bits r2 ys"
    by (intro exI [of _ 0] exI [of _ r']) (simp add: read_delta_delta_def dod_size_def)
qed

lemma dod_wide_decodes: "dod_decodes ([True, True, True, True] @ msb_bits 64 dod) dod"
  unfolding dod_decodes_def
proof (intro allI impI)
  fix r ys assume "next_bits r (([True, True, True, True] @ msb_bits 64 dod) @ ys)"
  then have "next_bits r ([True, True, True] @ True # msb_bits 64 dod @ ys)" by simp
  from read_type_111 [OF this] obtain r1 where r1: "read_type 4 0 r = (Ok 15, r1)"
    "next_bits r1 (msb_bits 64 dod @ ys)" by auto
  from next_field [OF r1(2)] obtain r2 where r2: "read_bits 64 r1 = (Ok dod, r2)" "next_bits r2 ys"
    by (auto simp: take_bit_length_eq)
  then have "read_delta_delta 15 r1 = (Ok dod, r2)" by (simp add: read_delta_delta_def dod_size_def)
  with r1 r2 show "\<exists>ty r1 r2. read_type 4 0 r = (Ok ty, r1) \<and> read_delta_delta ty r1 = (Ok dod, r2) \<and> next_bits r2 ys"
    by blast
qed

lemma emits_prefixed:
  assumes "writer_ok b" "pnum = int m" "0 < m" "m \<le> 64" "num = int n" "0 < n" "n \<le> 64"
  obtains b' where "res_bind (write_bits p pnum b) (write_bits v num) = Ok b'"
    "emits b (msb_bits m p @ msb_bits n v) b'"
proof -
  from emits_bits [OF assms(1-4), of p] obtain b1 where b1: "write_bits p pnum b = Ok b1" "emits b (msb_bits m p) b1" .
  then have "writer_ok b1" by (simp add: emits_def)
  from emits_bits [OF this assms(5-7), of v] obtain b2 where "write_bits v num b1 = Ok b2" "emits b1 (msb_bits n v) b2" .
  with b1 emits_trans [OF b1(2)] show thesis by (intro that) simp_all
qed

lemma write_delta_delta_sim:
  assumes "writer_ok b"
  obtains b' bits where "write_delta_delta dod b = Ok b'" "emits b bits b'" "dod_decodes bits dod"
proof -
  consider "dod = 0" | "dod \<noteq> 0" "bit_range dod 14" | "dod \<noteq> 0" "\<not> bit_range dod 14" "bit_range dod 17"
    | "dod \<noteq> 0" "\<not> bit_range dod 14" "\<not> bit_range dod 17" "bit_range dod 20"
    | "dod \<noteq> 0" "\<not> bit_range dod 14" "\<not> bit_range dod 17" "\<not> bit_range dod 20" by blast
  then show thesis
  proof cases
    case 1
    then show thesis using emits_bit [OF assms, of False] dod_zero_decodes
      by (intro that) (simp_all add: write_delta_delta_def)
  next
    case 2
    from emits_prefixed [OF assms, of 2 2 14 14 2 dod] obtain b' where
      "res_bind (write_bits 2 2 b) (write_bits dod 14) = Ok b'" "emits b ([True, False] @ msb_bits 14 dod) b'"
      by (auto simp: prefix_bits)
    moreover have "dod_decodes ([True, False] @ msb_bits 14 dod) dod"
      by (rule dod_field_decodes [of 2]) (use 2 in \<open>simp_all add: dod_size_def read_type_10\<close>)
    ultimately show thesis using 2 by (intro that) (simp_all add: write_delta_delta_def)
  next
    case 3
    from emits_prefixed [OF assms, of 3 3 17 17 6 dod] obtain b' where
      "res_bind (write_bits 6 3 b) (write_bits dod 17) = Ok b'" "emits b ([True, True, False] @ msb_bits 17 dod) b'"
      by (auto simp: prefix_bits)
    moreover have "dod_decodes ([True, True, False] @ msb_bits 17 dod) dod"
      by (rule dod_field_decodes [of 6]) (use 3 in \<open>simp_all add: dod_size_def read_type_110\<close>)
    ultimately show thesis using 3 by (intro that) (simp_all add: write_delta_delta_def)
  next
    case 4
    from emits_prefixed [OF assms, of 4 4 20 20 14 dod] obtain b' where
      "res_bind (write_bits 14 4 b) (write_bits dod 20) = Ok b'" "emits b ([True, True, True, False] @ msb_bits 20 dod) b'"
      by (auto simp: prefix_bits)
    moreover have "dod_decodes ([True, True, True, False] @ msb_bits 20 dod) dod"
      by (rule dod_field_decodes [of 14]) (use 4 read_type_111 [where x = False] in \<open>simp_all add: dod_size_def\<close>)
    ultimately show thesis using 4 by (intro that) (simp_all add: write_delta_delta_def)
  next
    case 5
    from emits_prefixed [OF assms, of 4 4 64 64 15 dod] obtain b' where
      "res_bind (write_bits 15 4 b) (write_bits dod 64) = Ok b'" "emits b ([True, True, True, True] @ msb_bits 64 dod) b'"
      by (auto simp: prefix_bits)
    then show thesis using 5 dod_wide_decodes [of dod] by (intro that) (simp_all add: write_delta_delta_def)
  qed
qed

end
