(* ===== verification/XORRoundtrip.thy ===== *)
theory XORRoundtrip
  imports XORChunk
begin

text \<open>
  Chunks from end to end: an invariant that ties the bytes of a chunk, its appender and
  what any iterator reads from them, its preservation by \<open>append\<close> and by taking a
  new appender, and the round trip of samples appended in any number of batches.
\<close>

subsection \<open>One sample\<close>

text \<open>An iterator that has read what the appender wrote last.\<close>

definition in_step :: "XORAppender \<Rightarrow> nat \<Rightarrow> XORIterator \<Rightarrow> bool" where
  "in_step a n it \<longleftrightarrow> xi_timestamp it = xa_timestamp a \<and> xi_value it = xa_value a
     \<and> xi_delta_timestamp it = xa_delta_timestamp a \<and> same_window a it
     \<and> unat (xi_num_read it) = n \<and> \<not> xi_err it"

text \<open>\<open>sample_decodes\<close>: reading \<open>bits\<close> as sample number \<open>n\<close> yields the sample.\<close>

definition sample_decodes :: "bool list \<Rightarrow> XORAppender \<Rightarrow> nat \<Rightarrow> i64 \<times> double \<Rightarrow> XORAppender \<Rightarrow> bool" where
  "sample_decodes bits a n s a' \<longleftrightarrow>
     (\<forall>it ys. in_step a n it \<longrightarrow> n < unat (xi_num_total it) \<longrightarrow> next_bits (xi_bstream it) (bits @ ys) \<longrightarrow>
        (\<exists>it'. xi_next it = (Ok True, it') \<and> xi_at it' = s \<and> in_step a' (Suc n) it'
           \<and> xi_num_total it' = xi_num_total it \<and> next_bits (xi_bstream it') ys))"

lemma unat_Suc_u16: "n < unat (m :: u16) \<Longrightarrow> unat (k :: u16) = n \<Longrightarrow> unat (k + 1) = Suc n"
  using unsigned_less [of m, where 'a=nat] by (simp add: unat_plus_if')

lemma in_step_num:
  assumes "in_step a n it" "n < unat (xi_num_total it)"
  shows "\<not> xi_err it" "xi_num_read it \<noteq> xi_num_total it" "unat (xi_num_read it + 1) = Suc n"
    "(xi_num_read it = 0) = (n = 0)" "(xi_num_read it = 1) = (n = 1)"
  using assms unat_Suc_u16 [OF assms(2), of "xi_num_read it"]
  by (auto simp: in_step_def word_unat_eq_iff [of "xi_num_read it"])

lemma write_first_sim:
  assumes "writer_ok b" "appender_window a" "xa_delta_timestamp a = 0"
  obtains b' bits where "write_sample 0 t v (a, b) = Ok (0, a, b')" "emits b bits b'"
    "sample_decodes bits a 0 (t, v) (a\<lparr>xa_timestamp := t, xa_value := v, xa_delta_timestamp := 0\<rparr>)"
proof -
  let ?bits = "bytes_bits (encode_signed_varint t) @ msb_bits 64 v"
  let ?b = "fold write_byte (encode_signed_varint t) b"
  have e1: "emits b (bytes_bits (encode_signed_varint t)) ?b" by (rule emits_bytes [OF assms(1)])
  then have "writer_ok ?b" by (simp add: emits_def)
  from emits_bits [OF this, of 64 64 v] obtain b' where b': "write_bits v 64 ?b = Ok b'" "emits ?b (msb_bits 64 v) b'"
    by auto
  have "sample_decodes ?bits a 0 (t, v) (a\<lparr>xa_timestamp := t, xa_value := v, xa_delta_timestamp := 0\<rparr>)"
    unfolding sample_decodes_def
  proof (intro allI impI)
    fix it ys
    assume st: "in_step a 0 it" and n: "0 < unat (xi_num_total it)" and "next_bits (xi_bstream it) (?bits @ ys)"
    then have "next_bits (xi_bstream it) (bytes_bits (encode_signed_varint t) @ msb_bits 64 v @ ys)" by simp
    from next_varint [OF this] obtain r1 where r1: "read_signed_varint (xi_bstream it) = (Ok t, r1)"
      "next_bits r1 (msb_bits 64 v @ ys)" .
    from next_field [OF r1(2)] obtain r2 where r2: "read_bits 64 r1 = (Ok v, r2)" "next_bits r2 ys"
      by (auto simp: take_bit_length_eq)
    note num = in_step_num [OF st n]
    show "\<exists>it'. xi_next it = (Ok True, it') \<and> xi_at it' = (t, v)
        \<and> in_step (a\<lparr>xa_timestamp := t, xa_value := v, xa_delta_timestamp := 0\<rparr>) (Suc 0) it'
        \<and> xi_num_total it' = xi_num_total it \<and> next_bits (xi_bstream it') ys"
      using r1(1) r2 st num assms(3)
      by (intro exI [of _ "it\<lparr>xi_bstream := r2, xi_timestamp := t, xi_value := v, xi_num_read := xi_num_read it + 1\<rparr>"])
        (auto simp: xi_next_def try_read_def xi_at_def in_step_def same_window_def decode_double_def)
  qed
  moreover have "emits b ?bits b'" by (rule emits_trans [OF e1 b'(2)])
  ultimately show thesis
    using b'(1) by (intro that) (simp_all add: write_sample_def encode_double_def)
qed

lemma value_step:
  assumes "value_decodes bits a v a1" "in_step a n it" "n < unat (xi_num_total it)"
    "next_bits r (bits @ ys)"
  shows "\<exists>it'. read_value (it\<lparr>xi_bstream := r, xi_delta_timestamp := d, xi_timestamp := t\<rparr>) = (Ok True, it')
    \<and> xi_at it' = (t, v) \<and> in_step (a1\<lparr>xa_timestamp := t, xa_value := v, xa_delta_timestamp := d\<rparr>) (Suc n) it'
    \<and> xi_num_total it' = xi_num_total it \<and> next_bits (xi_bstream it') ys"
proof -
  let ?it = "it\<lparr>xi_bstream := r, xi_delta_timestamp := d, xi_timestamp := t\<rparr>"
  have "same_window a ?it" "xi_value ?it = xa_value a" "next_bits (xi_bstream ?it) (bits @ ys)"
    using assms(2,4) by (simp_all add: in_step_def same_window_def)
  with assms(1) obtain it' where "value_read ?it v it'" "same_window a1 it'" "next_bits (xi_bstream it') ys"
    unfolding value_decodes_def by blast
  with in_step_num [OF assms(2,3)] assms(2) show ?thesis
    by (intro exI [of _ it']) (auto simp: value_read_def xi_at_def in_step_def same_window_def)
qed

lemma write_second_sim:
  assumes "writer_ok b" "appender_window a"
  obtains a1 b' bits where "write_sample 1 t v (a, b) = Ok (t - xa_timestamp a, a1, b')" "emits b bits b'"
    "appender_window a1"
    "sample_decodes bits a 1 (t, v) (a1\<lparr>xa_timestamp := t, xa_value := v, xa_delta_timestamp := t - xa_timestamp a\<rparr>)"
proof -
  let ?d = "t - xa_timestamp a"
  let ?b = "fold write_byte (encode_signed_varint ?d) b"
  have e1: "emits b (bytes_bits (encode_signed_varint ?d)) ?b" by (rule emits_bytes [OF assms(1)])
  then have "writer_ok ?b" by (simp add: emits_def)
  from write_delta_value_sim [OF this assms(2)] obtain a1 b' bits where w:
    "write_delta_value v (a, ?b) = Ok (a1, b')" "emits ?b bits b'" "appender_window a1" "value_decodes bits a v a1"
    "xa_timestamp a1 = xa_timestamp a" "xa_delta_timestamp a1 = xa_delta_timestamp a" .
  have "sample_decodes (bytes_bits (encode_signed_varint ?d) @ bits) a 1 (t, v)
      (a1\<lparr>xa_timestamp := t, xa_value := v, xa_delta_timestamp := ?d\<rparr>)"
    unfolding sample_decodes_def
  proof (intro allI impI)
    fix it ys
    assume st: "in_step a 1 it" and n: "1 < unat (xi_num_total it)"
      and "next_bits (xi_bstream it) ((bytes_bits (encode_signed_varint ?d) @ bits) @ ys)"
    then have "next_bits (xi_bstream it) (bytes_bits (encode_signed_varint ?d) @ bits @ ys)" by simp
    from next_varint [OF this] obtain r where r: "read_signed_varint (xi_bstream it) = (Ok ?d, r)"
      "next_bits r (bits @ ys)" .
    have "xi_timestamp it + ?d = t" using st by (simp add: in_step_def)
    then have "xi_next it = read_value (it\<lparr>xi_bstream := r, xi_delta_timestamp := ?d, xi_timestamp := t\<rparr>)"
      using r(1) in_step_num [OF st n] by (simp add: xi_next_def try_read_def)
    with value_step [OF w(4) st n r(2), where d = ?d and t = t]
    show "\<exists>it'. xi_next it = (Ok True, it') \<and> xi_at it' = (t, v)
        \<and> in_step (a1\<lparr>xa_timestamp := t, xa_value := v, xa_delta_timestamp := ?d\<rparr>) (Suc 1) it'
        \<and> xi_num_total it' = xi_num_total it \<and> next_bits (xi_bstream it') ys" by simp
  qed
  with w(1,3) emits_trans [OF e1 w(2)] show thesis
    by (intro that) (simp_all add: write_sample_def)
qed

lemma write_later_sim:
  assumes "writer_ok b" "appender_window a" "2 \<le> n" "num \<noteq> 0" "num \<noteq> 1"
  obtains a1 b' bits where "write_sample num t v (a, b) = Ok (t - xa_timestamp a, a1, b')" "emits b bits b'"
    "appender_window a1"
    "sample_decodes bits a n (t, v) (a1\<lparr>xa_timestamp := t, xa_value := v, xa_delta_timestamp := t - xa_timestamp a\<rparr>)"
proof -
  let ?d = "t - xa_timestamp a"
  from write_delta_delta_sim [OF assms(1), of "?d - xa_delta_timestamp a"] obtain b1 bits1 where d:
    "write_delta_delta (?d - xa_delta_timestamp a) b = Ok b1" "emits b bits1 b1"
    "dod_decodes bits1 (?d - xa_delta_timestamp a)" .
  then have "writer_ok b1" by (simp add: emits_def)
  from write_delta_value_sim [OF this assms(2)] obtain a1 b' bits where w:
    "write_delta_value v (a, b1) = Ok (a1, b')" "emits b1 bits b'" "appender_window a1" "value_decodes bits a v a1"
    "xa_timestamp a1 = xa_timestamp a" "xa_delta_timestamp a1 = xa_delta_timestamp a" .
  have "sample_decodes (bits1 @ bits) a n (t, v) (a1\<lparr>xa_timestamp := t, xa_value := v, xa_delta_timestamp := ?d\<rparr>)"
    unfolding sample_decodes_def
  proof (intro allI impI)
    fix it ys
    assume st: "in_step a n it" and n: "n < unat (xi_num_total it)"
      and "next_bits (xi_bstream it) ((bits1 @ bits) @ ys)"
    then have "next_bits (xi_bstream it) (bits1 @ bits @ ys)" by simp
    with d(3) obtain ty r1 r where r: "read_type 4 0 (xi_bstream it) = (Ok ty, r1)"
      "read_delta_delta ty r1 = (Ok (?d - xa_delta_timestamp a), r)" "next_bits r (bits @ ys)"
      unfolding dod_decodes_def by blast
    have "?d - xa_delta_timestamp a + xi_delta_timestamp it = ?d" "xi_timestamp it + ?d = t"
      using st by (simp_all add: in_step_def)
    then have "xi_next it = read_value (it\<lparr>xi_bstream := r, xi_delta_timestamp := ?d, xi_timestamp := t\<rparr>)"
      using r(1,2) in_step_num [OF st n] assms(3) by (simp add: xi_next_def try_read_def Let_def)
    with value_step [OF w(4) st n r(3), where d = ?d and t = t]
    show "\<exists>it'. xi_next it = (Ok True, it') \<and> xi_at it' = (t, v)
        \<and> in_step (a1\<lparr>xa_timestamp := t, xa_value := v, xa_delta_timestamp := ?d\<rparr>) (Suc n) it'
        \<and> xi_num_total it' = xi_num_total it \<and> next_bits (xi_bstream it') ys" by simp
  qed
  with d(1) w(1,3) emits_trans [OF d(2) w(2)] assms(4,5) show thesis
    by (intro that) (simp_all add: write_sample_def Let_def)
qed

lemma write_sample_sim:
  assumes "writer_ok b" "appender_window a" "num = of_nat n" "n < 65536" "n = 0 \<longrightarrow> xa_delta_timestamp a = 0"
  obtains delta a1 b' bits where "write_sample num t v (a, b) = Ok (delta, a1, b')" "emits b bits b'"
    "appender_window a1"
    "sample_decodes bits a n (t, v) (a1\<lparr>xa_timestamp := t, xa_value := v, xa_delta_timestamp := delta\<rparr>)"
proof -
  have num: "unat num = n" using assms(3,4) by (simp add: unat_of_nat)
  consider "n = 0" | "n = 1" | "2 \<le> n" by linarith
  then show thesis
  proof cases
    case 1
    from 1 assms(3,5) have z: "num = 0" "xa_delta_timestamp a = 0" by simp_all
    from write_first_sim [OF assms(1,2) z(2), of t v] obtain b' bits where
      "write_sample 0 t v (a, b) = Ok (0, a, b')" "emits b bits b'"
      "sample_decodes bits a 0 (t, v) (a\<lparr>xa_timestamp := t, xa_value := v, xa_delta_timestamp := 0\<rparr>)" .
    with z(1) 1 assms(2) that [of 0 a b' bits] show thesis by simp
  next
    case 2
    then have "num = 1" using assms(3) by simp
    from write_second_sim [OF assms(1,2), of t v] 2 this show thesis using that by metis
  next
    case 3
    then have "num \<noteq> 0" "num \<noteq> 1" using num by auto
    from write_later_sim [OF assms(1,2) 3 this, of t v] show thesis using that by metis
  qed
qed

subsection \<open>The count in the first two bytes\<close>

lemma ucast_be_bytes_2: "push_bit 8 (ucast (ucast (drop_bit 8 w) :: u8)) + ucast (ucast w :: u8) = (ucast w :: u32)"
  for w :: u16
  unfolding push_bit_8_plus_byte
  by (rule bit_word_eqI) (auto simp: bit_simps dest: bit_imp_le_length)

lemma get_count_bytes: "get_uint16_big_endian (be_bytes 2 (w :: u16) @ rest) = Ok (ucast w)"
  by (simp add: be_bytes_2 ucast_be_bytes_2)

lemma put_count_bytes:
  assumes "length xs = 2"
  shows "put_uint16_big_endian (xs @ rest) num = Ok (be_bytes 2 (ucast num :: u16) @ rest)"
proof -
  obtain x y where "xs = [x, y]" using assms by (auto simp: length_Suc_conv numeral_2_eq_2)
  moreover have "ucast (drop_bit 8 num AND 255) = (ucast (drop_bit 8 (ucast num :: u16)) :: u8)"
    "ucast (num AND 255) = (ucast (ucast num :: u16) :: u8)"
    by (rule bit_word_eqI; auto simp: ucast_and_255 bit_simps)+
  ultimately show ?thesis by (simp add: put_uint16_big_endian_def be_bytes_2)
qed

text \<open>The stream of a chunk: header, count and compressed samples.\<close>

definition layout :: "BitStream \<Rightarrow> nat \<Rightarrow> bool list \<Rightarrow> bool" where
  "layout b n payload \<longleftrightarrow> writer_ok b \<and> (\<exists>hdr. length hdr = header_size b
     \<and> bs_written b = bytes_bits hdr @ msb_bits 16 (of_nat n :: u16) @ payload)"

lemma layout_bytes:
  assumes "layout b n payload"
  obtains hdr rest where "length hdr = header_size b" "stream b = hdr @ be_bytes 2 (of_nat n :: u16) @ rest"
    "bs_written b = bytes_bits hdr @ msb_bits 16 (of_nat n :: u16) @ payload"
proof -
  from assms obtain hdr where h: "length hdr = header_size b"
    "bs_written b = bytes_bits hdr @ msb_bits 16 (of_nat n :: u16) @ payload" by (auto simp: layout_def)
  have "prefix (bytes_bits (hdr @ be_bytes 2 (of_nat n :: u16))) (bytes_bits (stream b))"
    using h(2) take_is_prefix [of "write_pos b" "bytes_bits (stream b)"]
    by (auto simp: bs_written_def bytes_bits_be_bytes prefix_def)
  then have "prefix (hdr @ be_bytes 2 (of_nat n :: u16)) (stream b)" by (rule bytes_bits_prefix)
  with h that show thesis by (auto simp: prefix_def)
qed

lemma layout_get_count:
  assumes "layout b n payload" "n < 65536"
  shows "get_count b = Ok (of_nat n)"
proof -
  from layout_bytes [OF assms(1)] obtain hdr rest where "length hdr = header_size b"
    "stream b = hdr @ be_bytes 2 (of_nat n :: u16) @ rest" .
  moreover have "ucast (of_nat n :: u16) = (of_nat n :: u32)" using assms(2)
    by (simp add: unsigned_of_nat take_bit_eq_mod)
  ultimately show ?thesis by (simp add: get_count_def get_count_bytes)
qed

lemma layout_put_count:
  assumes "layout b n payload" "m < 65536"
  obtains b' where "put_count (of_nat m) b = Ok b'" "layout b' m payload" "header_size b' = header_size b"
proof -
  from layout_bytes [OF assms(1)] obtain hdr rest where s: "length hdr = header_size b"
    "stream b = hdr @ be_bytes 2 (of_nat n :: u16) @ rest"
    "bs_written b = bytes_bits hdr @ msb_bits 16 (of_nat n :: u16) @ payload" .
  let ?b = "b\<lparr>stream := hdr @ be_bytes 2 (of_nat m :: u16) @ rest\<rparr>"
  have ok: "writer_ok b" using assms(1) by (simp add: layout_def)
  have "ucast (of_nat m :: u32) = (of_nat m :: u16)"
    using assms(2) by (simp add: unsigned_of_nat take_bit_eq_mod)
  then have put: "put_count (of_nat m) b = Ok ?b"
    using s(1,2) by (simp add: put_count_def put_count_bytes)
  have pos: "write_pos ?b = write_pos b" using ok s(2) by (simp add: write_pos_def bs_size_def writer_ok_def)
  have len: "write_pos b = 8 * length hdr + 16 + length payload"
    using length_bs_written [OF ok] s(3) by simp
  have pay: "take (length payload) (bytes_bits rest) = payload"
    using s(3) len by (simp add: bs_written_def s(2) bytes_bits_be_bytes)
  have wr: "bs_written ?b = bytes_bits hdr @ msb_bits 16 (of_nat m :: u16) @ payload"
    using len pay by (simp add: bs_written_def pos bytes_bits_be_bytes)
  have "rest \<noteq> []" if "tail_count b \<noteq> 0"
  proof
    assume "rest = []"
    then have "write_pos b \<le> 8 * (length hdr + 1) + tail_count b" "tail_count b < 8"
      using that ok s(2) by (simp_all add: write_pos_def bs_size_def writer_ok_def)
    with len show False by simp
  qed
  then have "writer_ok ?b" using ok s(2) by (auto simp: writer_ok_def)
  with put wr s(1) that show thesis by (auto simp: layout_def)
qed

subsection \<open>The invariant of a chunk\<close>

primrec reads :: "XORIterator \<Rightarrow> (i64 \<times> double) list \<Rightarrow> XORIterator \<Rightarrow> bool" where
  "reads it [] it' \<longleftrightarrow> it' = it"
| "reads it (s # ss) it' \<longleftrightarrow> (\<exists>it1. xi_next it = (Ok True, it1) \<and> xi_at it1 = s \<and> reads it1 ss it')"

definition fresh :: "XORIterator \<Rightarrow> bool" where
  "fresh it \<longleftrightarrow> xi_timestamp it = 0 \<and> xi_value it = 0 \<and> xi_delta_timestamp it = 0
     \<and> xi_leading_zero it = 0 \<and> xi_trailing_zero it = 0 \<and> xi_num_read it = 0 \<and> \<not> xi_err it"

definition chunk_inv :: "XORAppender \<Rightarrow> BitStream \<Rightarrow> (i64 \<times> double) list \<Rightarrow> bool" where
  "chunk_inv a b ss \<longleftrightarrow> appender_window a \<and> length ss < 65536
     \<and> (ss = [] \<longrightarrow> xa_delta_timestamp a = 0 \<and> xa_leading_zero a = 255)
     \<and> (\<exists>payload. layout b (length ss) payload
        \<and> (\<forall>it ys. fresh it \<longrightarrow> length ss \<le> unat (xi_num_total it) \<longrightarrow> next_bits (xi_bstream it) (payload @ ys) \<longrightarrow>
             (\<exists>it'. reads it ss it' \<and> in_step a (length ss) it' \<and> xi_num_total it' = xi_num_total it
                \<and> next_bits (xi_bstream it') ys)))"

lemma reads_append: "reads it ss it1 \<Longrightarrow> reads it1 ss' it2 \<Longrightarrow> reads it (ss @ ss') it2"
  by (induction ss arbitrary: it) auto

lemma layout_emits:
  assumes "layout b n payload" "emits b bits b'"
  shows "layout b' n (payload @ bits)"
  using assms by (auto simp: layout_def emits_def)

lemma chunk_inv_new: "chunk_inv \<lparr>xa_timestamp = 0, xa_value = 0, xa_delta_timestamp = 0, xa_leading_zero = 255,
    xa_trailing_zero = 0\<rparr> (BitStream_sized mem 2 hs) []"
proof -
  let ?b = "BitStream_sized mem 2 hs"
  have "replicate (2 + hs) (0 :: u8) = replicate hs 0 @ [0, 0]"
    by (metis add.commute numeral_2_eq_2 replicate_0 replicate_Suc replicate_add)
  then have str: "stream ?b = replicate hs 0 @ [0, 0]" by (simp add: BitStream_sized_def)
  have "bs_written ?b = bytes_bits (stream ?b)"
    by (simp add: bs_written_def write_pos_def bs_size_def BitStream_sized_def mult.commute)
  moreover have "byte_bits 0 @ byte_bits 0 = msb_bits 16 (0 :: u16)"
    by (simp add: byte_bits_def msb_bits_zero flip: replicate_add)
  ultimately have "bs_written ?b = bytes_bits (replicate hs 0) @ msb_bits 16 (of_nat 0 :: u16) @ []"
    by (simp add: str)
  then have "layout ?b 0 []"
    unfolding layout_def by (auto simp: writer_ok_def BitStream_sized_def intro!: exI [of _ "replicate hs 0"])
  then show ?thesis
    by (auto simp: chunk_inv_def appender_window_def in_step_def fresh_def same_window_def window_def
        intro!: exI [of _ "[]"])
qed

lemma chunk_inv_append:
  assumes "chunk_inv a b ss" "Suc (length ss) < 65536"
  obtains a' b' where "xa_append t v (a, b) = Ok (a', b')" "chunk_inv a' b' (ss @ [(t, v)])"
    "header_size b' = header_size b"
proof -
  let ?n = "length ss"
  from assms(1) obtain payload where aw: "appender_window a" and lay: "layout b ?n payload"
    and z: "?n = 0 \<longrightarrow> xa_delta_timestamp a = 0" and rd: "\<And>it ys. fresh it \<Longrightarrow> ?n \<le> unat (xi_num_total it) \<Longrightarrow>
      next_bits (xi_bstream it) (payload @ ys) \<Longrightarrow>
        \<exists>it'. reads it ss it' \<and> in_step a ?n it' \<and> xi_num_total it' = xi_num_total it \<and> next_bits (xi_bstream it') ys"
    by (auto simp: chunk_inv_def)
  have n: "?n < 65536" using assms(2) by simp
  have ok: "writer_ok b" using lay by (simp add: layout_def)
  from write_sample_sim [OF ok aw refl n z, of t v] obtain delta a1 b1 bits where w:
    "write_sample (of_nat ?n) t v (a, b) = Ok (delta, a1, b1)" "emits b bits b1" "appender_window a1"
    "sample_decodes bits a ?n (t, v) (a1\<lparr>xa_timestamp := t, xa_value := v, xa_delta_timestamp := delta\<rparr>)" .
  let ?a = "a1\<lparr>xa_timestamp := t, xa_value := v, xa_delta_timestamp := delta\<rparr>"
  from layout_put_count [OF layout_emits [OF lay w(2)] assms(2)] obtain b' where b':
    "put_count (of_nat (Suc ?n)) b1 = Ok b'" "layout b' (Suc ?n) (payload @ bits)" "header_size b' = header_size b1" .
  have "xa_append t v (a, b) = Ok (?a, b')"
    using layout_get_count [OF lay n] w(1) b'(1) by (simp add: xa_append_def add.commute)
  moreover have "chunk_inv ?a b' (ss @ [(t, v)])"
    unfolding chunk_inv_def
  proof (intro conjI exI [of _ "payload @ bits"] allI impI)
    fix it ys
    assume f: "fresh it" and tot: "length (ss @ [(t, v)]) \<le> unat (xi_num_total it)"
      and "next_bits (xi_bstream it) ((payload @ bits) @ ys)"
    then have "next_bits (xi_bstream it) (payload @ bits @ ys)" by simp
    with rd [OF f _ this] tot obtain it1 where it1: "reads it ss it1" "in_step a ?n it1"
      "xi_num_total it1 = xi_num_total it" "next_bits (xi_bstream it1) (bits @ ys)" by auto
    with w(4) tot obtain it' where "xi_next it1 = (Ok True, it')" "xi_at it' = (t, v)" "in_step ?a (Suc ?n) it'"
      "xi_num_total it' = xi_num_total it1" "next_bits (xi_bstream it') ys"
      unfolding sample_decodes_def by fastforce
    with it1 reads_append [OF it1(1), of "[(t, v)]" it']
    show "\<exists>it'. reads it (ss @ [(t, v)]) it' \<and> in_step ?a (length (ss @ [(t, v)])) it'
      \<and> xi_num_total it' = xi_num_total it \<and> next_bits (xi_bstream it') ys" by auto
  qed (use w(3) assms(2) b'(2) in \<open>simp_all add: appender_window_def\<close>)
  moreover have "header_size b' = header_size b" using b'(3) w(2) by (simp add: emits_def)
  ultimately show thesis by (intro that)
qed

subsection \<open>Reading a chunk to its end\<close>

lemma xi_run_reads:
  "reads it ss it' \<Longrightarrow> unat (xi_num_read it') = unat (xi_num_total it') \<Longrightarrow> xi_run it = Ok (ss, it')"
proof (induction ss arbitrary: it)
  case Nil
  then have "xi_num_read it = xi_num_total it" by (simp add: word_unat_eq_iff)
  with Nil show ?case by (subst xi_run.simps) (simp add: xi_next_def)
next
  case (Cons s ss)
  then show ?case by (subst xi_run.simps) auto
qed

lemma own_next:
  assumes "prefix (msb_bits 16 (w :: u16) @ payload) (bytes_bits data)" "own = BitStream_vec mem data \<or> own = BitStream_ptr mem' data"
  shows "next_bits (pop_front (pop_front own)) payload"
proof -
  have "16 \<le> length (bytes_bits data)" using prefix_length_le [OF assms(1)] by simp
  then have len: "1 \<le> length data" by simp
  obtain zs where "bytes_bits data = msb_bits 16 w @ payload @ zs" using assms(1) by (auto simp: prefix_def)
  then have "drop 16 (bytes_bits data) = payload @ zs" by simp
  with assms(2) len show ?thesis
    by (auto simp: next_bits_def reader_ok_def pop_front_def BitStream_vec_def BitStream_ptr_def bs_pos_def bs_src_def)
qed

lemma iterator_data:
  assumes "vector_mode b" "header_size b \<le> length (stream b)"
  shows "prefix (drop (header_size b) (stream b)) (map (bytes_ptr b) [0..<bs_size b])"
proof -
  let ?k = "length (stream b) - header_size b"
  have "map (bytes_ptr b) [0..<?k] = drop (header_size b) (stream b)"
    using assms by (intro nth_equalityI) (auto simp: bytes_ptr_def byte_at_def)
  moreover have "[0..<bs_size b] = [0..<?k] @ [?k..<bs_size b]"
    using assms(1) upt_add_eq_append [of 0 ?k "bs_size b - ?k"] by (simp add: bs_size_def)
  ultimately show ?thesis by (metis map_append prefixI)
qed

lemma bits_prefix_mono: "prefix xs ys \<Longrightarrow> prefix (bytes_bits xs) (bytes_bits ys)"
  by (auto simp: prefix_def)

lemma layout_data:
  assumes "layout b n payload"
  shows "vector_mode b" "header_size b \<le> length (stream b)"
    "prefix (msb_bits 16 (of_nat n :: u16) @ payload) (bytes_bits (drop (header_size b) (stream b)))"
proof -
  from layout_bytes [OF assms] obtain hdr rest where s: "length hdr = header_size b"
    "stream b = hdr @ be_bytes 2 (of_nat n :: u16) @ rest"
    "bs_written b = bytes_bits hdr @ msb_bits 16 (of_nat n :: u16) @ payload" .
  show "vector_mode b" using assms by (simp add: layout_def writer_ok_def)
  show "header_size b \<le> length (stream b)" using s(1,2) by simp
  have "prefix (bytes_bits hdr @ msb_bits 16 (of_nat n :: u16) @ payload) (bytes_bits (stream b))"
    using s(3) take_is_prefix [of "write_pos b" "bytes_bits (stream b)"] by (simp add: bs_written_def)
  then show "prefix (msb_bits 16 (of_nat n :: u16) @ payload) (bytes_bits (drop (header_size b) (stream b)))"
    using s(1) by (auto simp: s(2) prefix_def)
qed

lemma new_iterator:
  assumes "prefix (msb_bits 16 (of_nat n :: u16) @ payload) (bytes_bits data)" "n < 65536"
    "prefix data (map (bytes_ptr b) [0..<bs_size b])"
    "(if vector_mode b then drop (header_size b) (stream b) else stream b) = data"
  obtains it where "XORIterator_new mem b safe = Ok it" "fresh it" "unat (xi_num_total it) = n"
    "next_bits (xi_bstream it) payload"
proof -
  let ?data = "map (bytes_ptr b) [0..<bs_size b]"
  let ?own = "if safe then BitStream_vec mem ?data else BitStream_ptr (\<lambda>i. bytes_ptr b (bs_size b + i)) ?data"
  have "prefix (bytes_bits (be_bytes 2 (of_nat n :: u16))) (bytes_bits data)"
    using assms(1) by (auto simp: bytes_bits_be_bytes prefix_def)
  then obtain rest where "data = be_bytes 2 (of_nat n :: u16) @ rest"
    using bytes_bits_prefix by (auto simp: prefix_def)
  then have "get_uint16_big_endian data = Ok (ucast (of_nat n :: u16))" by (simp add: get_count_bytes)
  moreover have "next_bits (pop_front (pop_front ?own)) payload"
    by (rule own_next [OF prefix_order.trans [OF assms(1) bits_prefix_mono [OF assms(3)]]]) auto
  moreover have "unat (ucast (ucast (of_nat n :: u16) :: u32) :: u16) = n"
    using assms(2) by (simp add: unsigned_of_nat take_bit_eq_mod)
  ultimately show thesis
    using assms(4)
    by (intro that [of "\<lparr>xi_bstream = pop_front (pop_front ?own), xi_timestamp = 0, xi_value = 0,
           xi_delta_timestamp = 0, xi_leading_zero = 0, xi_trailing_zero = 0,
           xi_num_total = ucast (ucast (of_nat n :: u16) :: u32), xi_num_read = 0, xi_err = False\<rparr>"])
      (simp_all add: XORIterator_new_def Let_def fresh_def)
qed

lemma chunk_inv_reader:
  assumes "chunk_inv a b ss" "prefix (drop (header_size b) (stream b)) (map (bytes_ptr b2) [0..<bs_size b2])"
    "(if vector_mode b2 then drop (header_size b2) (stream b2) else stream b2) = drop (header_size b) (stream b)"
  obtains it it' where "XORIterator_new mem b2 safe = Ok it" "xi_run it = Ok (ss, it')" "in_step a (length ss) it'"
proof -
  from assms(1) obtain payload where n: "length ss < 65536" and lay: "layout b (length ss) payload"
    and rd: "\<And>it ys. fresh it \<Longrightarrow> length ss \<le> unat (xi_num_total it) \<Longrightarrow> next_bits (xi_bstream it) (payload @ ys) \<Longrightarrow>
      \<exists>it'. reads it ss it' \<and> in_step a (length ss) it' \<and> xi_num_total it' = xi_num_total it \<and> next_bits (xi_bstream it') ys"
    by (auto simp: chunk_inv_def)
  from new_iterator [OF layout_data(3) [OF lay] n assms(2,3), of mem safe] obtain it where it:
    "XORIterator_new mem b2 safe = Ok it" "fresh it" "unat (xi_num_total it) = length ss" "next_bits (xi_bstream it) payload" .
  with rd [of it "[]"] obtain it' where it': "reads it ss it'" "in_step a (length ss) it'" "xi_num_total it' = xi_num_total it"
    by auto
  with it(3) have "xi_run it = Ok (ss, it')" by (intro xi_run_reads) (simp_all add: in_step_def)
  with it(1) it'(2) show thesis by (intro that)
qed

lemma chunk_inv_vector: "chunk_inv a b ss \<Longrightarrow> vector_mode b \<and> header_size b \<le> length (stream b)"
  by (auto simp: chunk_inv_def dest: layout_data(1,2))

lemma chunk_inv_iterator:
  assumes "chunk_inv a b ss"
  obtains it it' where "XORIterator_new mem b safe = Ok it" "xi_run it = Ok (ss, it')" "in_step a (length ss) it'"
proof -
  note v = conjunct1 [OF chunk_inv_vector [OF assms]] conjunct2 [OF chunk_inv_vector [OF assms]]
  from v(1) have "(if vector_mode b then drop (header_size b) (stream b) else stream b) = drop (header_size b) (stream b)"
    by simp
  from chunk_inv_reader [OF assms iterator_data [OF v] this, of mem safe] show thesis using that .
qed

lemma chunk_inv_bytes:
  assumes "chunk_inv a b ss" "c = \<lparr>xc_bstream = b, xc_read_mode = False, xc_rsize = k\<rparr>"
  shows "xc_bytes c = drop (header_size b) (stream b)"
  using chunk_inv_vector [OF assms(1)]
  by (intro nth_equalityI) (auto simp: assms(2) xc_bytes_def xc_size_def bs_size_def bytes_ptr_def byte_at_def)

lemma map_byte_at: "map (bytes_ptr (BitStream_ptr mem data)) [0..<length data] = data"
  by (intro nth_equalityI) (simp_all add: bytes_ptr_def byte_at_def BitStream_ptr_def)

lemma chunk_inv_stored:
  assumes "chunk_inv a b ss" "data = drop (header_size b) (stream b)"
  obtains it it' where "xc_iterator mem (XORChunk_read m1 m2 data copy) = Ok it" "xi_run it = Ok (ss, it')"
    "in_step a (length ss) it'"
proof -
  let ?b = "BitStream_ptr (if copy then m2 else m1) data"
  have "prefix data (map (bytes_ptr ?b) [0..<bs_size ?b])"
    using map_byte_at by (simp add: bs_size_def BitStream_ptr_def)
  moreover have "(if vector_mode ?b then drop (header_size ?b) (stream ?b) else stream ?b) = data"
    by (simp add: BitStream_ptr_def)
  ultimately obtain it it' where "XORIterator_new mem ?b False = Ok it" "xi_run it = Ok (ss, it')"
    "in_step a (length ss) it'"
    using chunk_inv_reader [OF assms(1), of ?b mem False] assms(2) by metis
  then show thesis by (intro that) (simp_all add: xc_iterator_def XORChunk_read_def)
qed

subsection \<open>A new appender on an existing chunk\<close>

lemma no_window: "\<not> window 255 tz"
  by (simp add: window_def)

lemma chunk_inv_reopen:
  assumes "chunk_inv a b ss" "in_step a (length ss) it"
    "a' = \<lparr>xa_timestamp = xi_timestamp it, xa_value = xi_value it, xa_delta_timestamp = xi_delta_timestamp it,
       xa_leading_zero = (if ss = [] then 255 else xi_leading_zero it), xa_trailing_zero = xi_trailing_zero it\<rparr>"
  shows "chunk_inv a' b ss"
proof -
  have z: "ss = [] \<longrightarrow> xa_delta_timestamp a = 0 \<and> xa_leading_zero a = 255"
    using assms(1) by (simp add: chunk_inv_def)
  have "in_step a' (length ss) it2" if "in_step a (length ss) it2" for it2
    using that assms(2,3) z no_window by (auto simp: in_step_def same_window_def)
  moreover have "appender_window a'"
    using assms(2,3) by (auto simp: appender_window_def in_step_def same_window_def)
  moreover have "ss = [] \<longrightarrow> xa_delta_timestamp a' = 0 \<and> xa_leading_zero a' = 255"
    using assms(2,3) z by (auto simp: in_step_def)
  ultimately show ?thesis using assms(1) unfolding chunk_inv_def by metis
qed

lemma xc_appender_inv:
  assumes "chunk_inv a b ss" "c = \<lparr>xc_bstream = b, xc_read_mode = False, xc_rsize = k\<rparr>"
  obtains a' where "xc_appender c = Ok (XORAppending a')" "chunk_inv a' b ss"
proof -
  from chunk_inv_iterator [OF assms(1), of "\<lambda>_. 0" False] obtain it it' where it:
    "XORIterator_new (\<lambda>_. 0) b False = Ok it" "xi_run it = Ok (ss, it')" "in_step a (length ss) it'" .
  have n: "length ss < 65536" and "\<exists>payload. layout b (length ss) payload" using assms(1) by (auto simp: chunk_inv_def)
  then have "get_count b = Ok (of_nat (length ss))" using layout_get_count by blast
  moreover have "((of_nat (length ss) :: u32) = 0) = (ss = [])"
    using n by (simp add: word_unat_eq_iff unat_of_nat)
  moreover have "\<not> xi_err it'" using it(3) by (simp add: in_step_def)
  ultimately show thesis
    using it assms(2) chunk_inv_reopen [OF assms(1) it(3) refl]
    by (intro that) (simp_all add: xc_appender_def xor_iterator_def)
qed

subsection \<open>Properties\<close>

text \<open>Clients append through one appender, and take a new one for the next batch.\<close>

primrec append_all :: "(i64 \<times> double) list \<Rightarrow> Appender \<times> XORChunk \<Rightarrow> (Appender \<times> XORChunk) result" where
  "append_all [] ac = Ok ac"
| "append_all (s # ss) ac = res_bind (appender_append s ac) (append_all ss)"

primrec append_batches :: "(i64 \<times> double) list list \<Rightarrow> XORChunk \<Rightarrow> XORChunk result" where
  "append_batches [] c = Ok c"
| "append_batches (ss # bs) c =
     res_bind (xc_appender c) (\<lambda>a. res_bind (append_all ss (a, c)) (\<lambda>(_, c'). append_batches bs c'))"

lemma append_all_inv:
  "chunk_inv a b ss \<Longrightarrow> length ss + length xs < 65536 \<Longrightarrow>
   \<exists>a' b'. append_all xs (XORAppending a, \<lparr>xc_bstream = b, xc_read_mode = False, xc_rsize = k\<rparr>)
       = Ok (XORAppending a', \<lparr>xc_bstream = b', xc_read_mode = False, xc_rsize = k\<rparr>)
     \<and> chunk_inv a' b' (ss @ xs) \<and> header_size b' = header_size b"
proof (induction xs arbitrary: a b ss)
  case (Cons x xs)
  obtain t v where x: "x = (t, v)" by (cases x)
  from Cons.prems(2) have "Suc (length ss) < 65536" by simp
  from chunk_inv_append [OF Cons.prems(1) this, of t v] obtain a1 b1 where 1:
    "xa_append t v (a, b) = Ok (a1, b1)" "chunk_inv a1 b1 (ss @ [(t, v)])" "header_size b1 = header_size b" .
  with Cons.IH [OF 1(2)] Cons.prems(2) x show ?case by simp
qed simp

lemma append_batches_inv:
  "chunk_inv a b ss \<Longrightarrow> length ss + length (concat bs) < 65536 \<Longrightarrow>
   \<exists>a' b'. append_batches bs \<lparr>xc_bstream = b, xc_read_mode = False, xc_rsize = k\<rparr>
       = Ok \<lparr>xc_bstream = b', xc_read_mode = False, xc_rsize = k\<rparr> \<and> chunk_inv a' b' (ss @ concat bs)"
proof (induction bs arbitrary: a b ss)
  case (Cons xs bs)
  let ?c = "\<lparr>xc_bstream = b, xc_read_mode = False, xc_rsize = k\<rparr>"
  from xc_appender_inv [OF Cons.prems(1), of ?c] obtain a1 where a1:
    "xc_appender ?c = Ok (XORAppending a1)" "chunk_inv a1 b ss" by blast
  with append_all_inv [OF a1(2), of xs k] Cons.prems(2) obtain a2 b2 where
    "append_all xs (XORAppending a1, ?c) = Ok (XORAppending a2, \<lparr>xc_bstream = b2, xc_read_mode = False, xc_rsize = k\<rparr>)"
    "chunk_inv a2 b2 (ss @ xs)" by auto
  with a1(1) Cons.IH [of a2 b2 "ss @ xs"] Cons.prems(2) show ?case by simp
qed auto

lemma chunk_inv_num_samples:
  assumes "chunk_inv a b ss" "c = \<lparr>xc_bstream = b, xc_read_mode = False, xc_rsize = k\<rparr>"
  shows "xc_num_samples c = Ok (of_nat (length ss))"
  using assms(1) chunk_inv_bytes [OF assms]
  by (auto simp: chunk_inv_def xc_num_samples_def get_count_def dest: layout_get_count)

text \<open>
  C2. Samples appended to a new chunk, in any batches with a new appender for each,
  are returned by an iterator in order, time stamps and value bits unchanged, whether the
  chunk is read while it is open or from its stored bytes, and whatever the memory behind
  the buffers holds; the count of the chunk is the number of samples. The count field
  limits a chunk to 65535 samples.
\<close>

theorem xor_chunk_roundtrip:
  assumes "length (concat batches) < 65536"
  shows "\<exists>c. append_batches batches (XORChunk_header mem hs) = Ok c
    \<and> xc_num_samples c = Ok (of_nat (length (concat batches)))
    \<and> (\<forall>m. \<exists>it it'. xc_iterator m c = Ok it \<and> xi_run it = Ok (concat batches, it') \<and> \<not> xi_err it')
    \<and> (\<forall>m m1 m2 copy. \<exists>it it'. xc_iterator m (XORChunk_read m1 m2 (xc_bytes c) copy) = Ok it
         \<and> xi_run it = Ok (concat batches, it') \<and> \<not> xi_err it')"
proof -
  from append_batches_inv [OF chunk_inv_new, of batches mem hs 0] assms obtain a b where
    run: "append_batches batches (XORChunk_header mem hs) = Ok \<lparr>xc_bstream = b, xc_read_mode = False, xc_rsize = 0\<rparr>"
    and inv: "chunk_inv a b (concat batches)" by (auto simp: XORChunk_header_def)
  let ?c = "\<lparr>xc_bstream = b, xc_read_mode = False, xc_rsize = 0\<rparr>"
  have "\<exists>it it'. xc_iterator m ?c = Ok it \<and> xi_run it = Ok (concat batches, it') \<and> \<not> xi_err it'" for m
    using chunk_inv_iterator [OF inv, of m True] by (simp add: xc_iterator_def) (metis in_step_def)
  moreover have "\<exists>it it'. xc_iterator m (XORChunk_read m1 m2 (xc_bytes ?c) copy) = Ok it
      \<and> xi_run it = Ok (concat batches, it') \<and> \<not> xi_err it'" for m m1 m2 copy
    using chunk_inv_stored [OF inv chunk_inv_bytes [OF inv refl]] by (metis in_step_def)
  ultimately show ?thesis
    using run chunk_inv_num_samples [OF inv refl] by blast
qed

theorem xor_chunk_roundtrip_witness:
  "\<exists>c. append_batches [[(1000, 5), (1010, 7)], [], [(1020, 7), (5, 0)]] (XORChunk_header (\<lambda>_. 255) 4) = Ok c
     \<and> xc_num_samples c = Ok 4"
  using xor_chunk_roundtrip [of "[[(1000, 5), (1010, 7)], [], [(1020, 7), (5, 0)]]" "\<lambda>_. 255" 4]
  by auto

definition no_throw :: "'a result \<times> 's \<Rightarrow> bool" where
  "no_throw r \<longleftrightarrow> fst r \<noteq> Throw"

lemma no_throw_Ok: "no_throw (Ok x, s)" "no_throw (Undef, s)"
  by (simp_all add: no_throw_def)

lemma no_throw_if: "no_throw x \<Longrightarrow> no_throw y \<Longrightarrow> no_throw (if c then x else y)"
  by simp

lemma no_throw_try:
  "h = fail_err \<or> h = fail_value \<Longrightarrow> (\<And>x it. no_throw (k x it)) \<Longrightarrow> no_throw (try_read rd it h k)"
  by (auto simp: no_throw_def try_read_def fail_err_def fail_value_def split: prod.splits result.splits)

lemmas no_throw_intros = no_throw_Ok no_throw_if no_throw_try [OF disjI1 [OF refl]] no_throw_try [OF disjI2 [OF refl]]

lemma read_significant_no_throw: "no_throw (read_significant it)"
  unfolding read_significant_def Let_def by (intro no_throw_intros)

lemma read_value_no_throw: "no_throw (read_value it)"
  unfolding read_value_def Let_def by (intro no_throw_intros read_significant_no_throw)

lemma xi_next_no_throw: "no_throw (xi_next it)"
  unfolding xi_next_def Let_def by (intro no_throw_intros read_value_no_throw)

text \<open>
  C35. The loop over an iterator ends on every byte string, intact or damaged: no
  exception leaves it and it yields at most as many samples as the count announces, unless
  it runs into undefined behaviour (a varint of more than ten bytes or a field of negative
  width, which only damaged bytes have).
\<close>

theorem xor_iterator_terminates:
  "xi_run it = Undef \<or> (\<exists>xs it'. xi_run it = Ok (xs, it') \<and> length xs \<le> unat (xi_num_total it - xi_num_read it))"
proof (induction it rule: xi_run.induct)
  case (1 it)
  obtain r it1 where n: "xi_next it = (r, it1)" by (metis surj_pair)
  show ?case
  proof (cases r)
    case (Ok x)
    show ?thesis
    proof (cases x)
      case True
      with Ok n have nx: "xi_next it = (Ok True, it1)" by simp
      note less = xi_next_measure [OF nx [symmetric]]
      from "1.IH" [OF n [symmetric] Ok] True consider "xi_run it1 = Undef"
        | xs it' where "xi_run it1 = Ok (xs, it')" "length xs \<le> unat (xi_num_total it1 - xi_num_read it1)" by auto
      then show ?thesis
      proof cases
        case 1
        then show ?thesis using nx by (subst xi_run.simps) simp
      next
        case (2 xs it')
        then have "xi_run it = Ok (xi_at it1 # xs, it')" using nx by (subst xi_run.simps) simp
        with 2(2) less show ?thesis by auto
      qed
    next
      case False
      then show ?thesis using Ok n by (subst xi_run.simps) simp
    qed
  next
    case Throw
    then show ?thesis using xi_next_no_throw [of it] n by (simp add: no_throw_def)
  next
    case Undef
    then show ?thesis using n by (subst xi_run.simps) simp
  qed
qed

lemma stored_iterator:
  assumes "data = be_bytes 2 (n :: u16) @ rest"
  obtains own where "xc_iterator mem (XORChunk_read m1 m2 data copy) = Ok \<lparr>xi_bstream = own, xi_timestamp = 0,
       xi_value = 0, xi_delta_timestamp = 0, xi_leading_zero = 0, xi_trailing_zero = 0,
       xi_num_total = n, xi_num_read = 0, xi_err = False\<rparr>"
    "next_bits own (bytes_bits rest)" "bs_pos own = 16" "stream own = data"
proof -
  define b where "b = BitStream_ptr (if copy then m2 else m1) data"
  let ?own = "pop_front (pop_front (BitStream_ptr (\<lambda>i. bytes_ptr b (length data + i)) data))"
  have b: "bs_size b = length data" "vector_mode b = False" "stream b = data"
    "map (bytes_ptr b) [0..<length data] = data"
    by (simp_all add: b_def map_byte_at) (simp_all add: bs_size_def BitStream_ptr_def)
  have "ucast (ucast n :: u32) = n" by (rule bit_word_eqI) (simp add: bit_simps)
  moreover have "get_uint16_big_endian data = Ok (ucast n)" by (simp add: assms get_count_bytes)
  moreover have "xc_iterator mem (XORChunk_read m1 m2 data copy) = XORIterator_new mem b False"
    by (simp add: xc_iterator_def XORChunk_read_def b_def)
  ultimately have new: "xc_iterator mem (XORChunk_read m1 m2 data copy) = Ok \<lparr>xi_bstream = ?own, xi_timestamp = 0,
       xi_value = 0, xi_delta_timestamp = 0, xi_leading_zero = 0, xi_trailing_zero = 0,
       xi_num_total = n, xi_num_read = 0, xi_err = False\<rparr>"
    by (simp add: XORIterator_new_def b Let_def)
  have "next_bits ?own (bytes_bits rest)"
    by (rule own_next [of n, OF _ disjI2 [OF refl]]) (simp add: assms bytes_bits_be_bytes)
  moreover have "bs_pos ?own = 16" "stream ?own = data"
    using assms by (simp_all add: pop_front_def BitStream_ptr_def bs_pos_def)
  ultimately show thesis using new by (intro that)
qed

lemma try_read_False_value:
  "try_read rd it fail_value k = (Ok False, it') \<Longrightarrow> xi_err it = e \<Longrightarrow>
   (\<And>x b. k x (it\<lparr>xi_bstream := b\<rparr>) = (Ok False, it') \<Longrightarrow> xi_err it' = e) \<Longrightarrow> xi_err it' = e"
  by (cases "rd (xi_bstream it)"; cases "fst (rd (xi_bstream it))") (auto simp: try_read_def fail_value_def)

lemma read_significant_False: "read_significant it = (Ok False, it') \<Longrightarrow> xi_err it' = xi_err it"
  unfolding read_significant_def by (erule try_read_False_value) (auto simp: Let_def split: if_splits)

lemma read_value_False: "read_value it = (Ok False, it') \<Longrightarrow> xi_err it' = xi_err it"
  unfolding read_value_def Let_def
  apply (erule try_read_False_value, rule refl, simp split: if_splits)
  apply (erule try_read_False_value, simp, simp split: if_splits)
   apply (erule try_read_False_value, simp)
   apply (erule try_read_False_value, simp)
   apply (drule read_significant_False, simp)+
  done

lemma xi_next_False:
  assumes "xi_next it = (Ok False, it')" "\<not> xi_err it" "xi_num_read it \<noteq> 0" "xi_num_read it \<noteq> xi_num_total it"
  shows "xi_err it' \<longleftrightarrow> fst (if xi_num_read it = 1 then read_signed_varint (xi_bstream it)
    else rs_bind (read_type 4 0 (xi_bstream it)) read_delta_delta) = Throw"
proof (cases "xi_num_read it = 1")
  case True
  show ?thesis
    using assms True by (cases "read_signed_varint (xi_bstream it)"; cases "fst (read_signed_varint (xi_bstream it))")
      (auto simp: xi_next_def try_read_def fail_err_def dest: read_value_False)
next
  case False
  obtain o1 b1 where t: "read_type 4 0 (xi_bstream it) = (o1, b1)" by fastforce
  show ?thesis
  proof (cases o1)
    case (Ok ty)
    then show ?thesis
      using assms False t by (cases "read_delta_delta ty b1"; cases "fst (read_delta_delta ty b1)")
        (auto simp: xi_next_def try_read_def fail_err_def Let_def dest: read_value_False)
  qed (use assms False t in \<open>auto simp: xi_next_def try_read_def fail_err_def\<close>)
qed

text \<open>
  C36. \<open>next\<close> reports the end of the data only inside a time stamp: when it ends
  early on a sample behind the first, \<open>error()\<close> is set exactly if the time stamp could
  not be read, and a chunk cut off inside the value is not reported. Such chunks exist:
  for all first samples and all second time stamps, stored bytes that announce two samples
  and end behind the second time stamp yield the first sample and then end without an error.
\<close>

theorem truncated_value_not_reported:
  "(\<forall>it it'. xi_next it = (Ok False, it') \<and> \<not> xi_err it \<and> xi_num_read it \<noteq> 0 \<and> xi_num_read it \<noteq> xi_num_total it
      \<longrightarrow> (xi_err it' \<longleftrightarrow> fst (if xi_num_read it = 1 then read_signed_varint (xi_bstream it)
             else rs_bind (read_type 4 0 (xi_bstream it)) read_delta_delta) = Throw))
   \<and> (\<exists>it it1 it2. xc_iterator mem (XORChunk_read m1 m2
          (be_bytes 2 (2 :: u16) @ encode_signed_varint t @ be_bytes 8 v @ encode_signed_varint d) copy) = Ok it
        \<and> xi_next it = (Ok True, it1) \<and> xi_at it1 = (t, v) \<and> \<not> xi_err it1
        \<and> xi_num_read it1 = 1 \<and> xi_num_total it1 = 2 \<and> xi_next it1 = (Ok False, it2) \<and> \<not> xi_err it2)"
proof -
  let ?t = "encode_signed_varint t" and ?d = "encode_signed_varint d"
  define data where "data = be_bytes 2 (2 :: u16) @ ?t @ be_bytes 8 v @ ?d"
  from stored_iterator [OF data_def, of mem m1 m2 copy] obtain own where it:
    "xc_iterator mem (XORChunk_read m1 m2 data copy) = Ok \<lparr>xi_bstream = own, xi_timestamp = 0, xi_value = 0,
       xi_delta_timestamp = 0, xi_leading_zero = 0, xi_trailing_zero = 0, xi_num_total = 2, xi_num_read = 0,
       xi_err = False\<rparr>" (is "_ = Ok ?it")
    "next_bits own (bytes_bits (?t @ be_bytes 8 v @ ?d))" "bs_pos own = 16" "stream own = data" .
  from it(2) have "next_bits own (bytes_bits ?t @ msb_bits 64 v @ bytes_bits ?d)"
    by (simp add: bytes_bits_be_bytes)
  from next_varint [OF this] obtain r1 where r1: "read_signed_varint own = (Ok t, r1)"
    "next_bits r1 (msb_bits 64 v @ bytes_bits ?d)" "moved (8 * length ?t) own r1" .
  from next_field [OF r1(2)] obtain r2 where r2: "read_bits 64 r1 = (Ok v, r2)" "next_bits r2 (bytes_bits ?d @ [])"
    "moved 64 r1 r2" by (auto simp: take_bit_length_eq)
  from next_varint [OF r2(2)] obtain r3 where r3: "read_signed_varint r2 = (Ok d, r3)" "moved (8 * length ?d) r2 r3" .
  have "reader_ok r3" "length (bs_src r3) \<le> bs_pos r3"
    using r1(3) r2(3) r3(2) it(3,4) by (simp_all add: moved_def bs_src_def data_def)
  from read_bit_end [OF this] obtain r4 where r4: "read_bit r3 = (Throw, r4)" .
  let ?it1 = "?it\<lparr>xi_bstream := r2, xi_timestamp := t, xi_value := v, xi_num_read := 1\<rparr>"
  let ?it2 = "?it1\<lparr>xi_bstream := r4, xi_delta_timestamp := d, xi_timestamp := t + d\<rparr>"
  have n1: "xi_next ?it = (Ok True, ?it1)"
    using r1(1) r2(1) by (simp add: xi_next_def try_read_def decode_double_def)
  have n2: "xi_next ?it1 = (Ok False, ?it2)"
    using r3(1) r4 by (simp add: xi_next_def try_read_def read_value_def fail_value_def)
  have p: "xi_at ?it1 = (t, v)" "\<not> xi_err ?it1" "xi_num_read ?it1 = 1" "xi_num_total ?it1 = 2" "\<not> xi_err ?it2"
    by (simp_all add: xi_at_def)
  from it(1) n1 n2 p have "\<exists>it it1 it2. xc_iterator mem (XORChunk_read m1 m2 data copy) = Ok it
      \<and> xi_next it = (Ok True, it1) \<and> xi_at it1 = (t, v) \<and> \<not> xi_err it1
      \<and> xi_num_read it1 = 1 \<and> xi_num_total it1 = 2 \<and> xi_next it1 = (Ok False, it2) \<and> \<not> xi_err it2" by blast
  then show ?thesis using xi_next_False unfolding data_def by blast
qed

theorem truncated_value_not_reported_witness:
  "\<exists>it it1 it2. xc_iterator (\<lambda>_. 0) (XORChunk_read (\<lambda>_. 0) (\<lambda>_. 0)
       (be_bytes 2 (2 :: u16) @ encode_signed_varint 7 @ be_bytes 8 (5 :: u64) @ encode_signed_varint 3) True) = Ok it
     \<and> xi_next it = (Ok True, it1) \<and> xi_next it1 = (Ok False, it2) \<and> \<not> xi_err it2
     \<and> fst (read_signed_varint (xi_bstream it1)) \<noteq> Throw"
proof -
  from truncated_value_not_reported [of "\<lambda>_. 0" "\<lambda>_. 0" "\<lambda>_. 0" 7 5 3 True]
  obtain it it1 it2 where i: "xc_iterator (\<lambda>_. 0) (XORChunk_read (\<lambda>_. 0) (\<lambda>_. 0)
       (be_bytes 2 (2 :: u16) @ encode_signed_varint 7 @ be_bytes 8 (5 :: u64) @ encode_signed_varint 3) True) = Ok it"
    "xi_next it = (Ok True, it1)" "xi_next it1 = (Ok False, it2)" "\<not> xi_err it2"
    and h: "\<not> xi_err it1" "xi_num_read it1 = 1" "xi_num_total it1 = 2" by blast
  have "fst (read_signed_varint (xi_bstream it1)) \<noteq> Throw"
    using conjunct1 [OF truncated_value_not_reported, rule_format, of it1 it2] i(3,4) h by simp
  with i show ?thesis by blast
qed

end
