(* ===== verification/ChunkMerge.thy ===== *)
theory ChunkMerge
  imports XORRoundtrip
begin

text \<open>
  Merging chunks: \<open>src/chunk/ChunkUtils.cpp\<close> and the meta data of \<open>ChunkMeta.hpp\<close>. An
  iterator is seen as the list of samples that remain, \<open>xi_run\<close>; the merged chunk is compared
  with the merge of two lists of samples. \<open>mem k\<close> is the memory behind the \<open>k\<close>-th buffer a
  call allocates.
\<close>

type_synonym sample = "i64 \<times> double"

subsection \<open>Definitions\<close>

definition ChunkUtils_is_number :: "bytes \<Rightarrow> bool" where
  "ChunkUtils_is_number s \<longleftrightarrow> (let it = dropWhile (\<lambda>c. 48 \<le> c \<and> c \<le> 57) s in s \<noteq> [] \<and> it = [])"

record ChunkMeta =
  cm_ref :: u64
  cm_series_ref :: u64
  cm_chunk :: XORChunk
  cm_min_time :: i64
  cm_max_time :: i64
  cm_type :: u8
  cm_logical_group_ref :: u64

definition overlap_closed :: "ChunkMeta \<Rightarrow> i64 \<Rightarrow> i64 \<Rightarrow> bool" where
  "overlap_closed m min_time max_time \<longleftrightarrow>
     sint min_time \<le> sint (cm_max_time m) \<and> sint (cm_min_time m) \<le> sint max_time"

text \<open>A call of \<open>next\<close> whose exceptions are not caught.\<close>

definition xi_step :: "XORIterator \<Rightarrow> (bool \<times> XORIterator) result" where
  "xi_step it = (case xi_next it of (Ok b, it') \<Rightarrow> Ok (b, it') | (Throw, _) \<Rightarrow> Throw | (Undef, _) \<Rightarrow> Undef)"

definition xi_left :: "bool \<Rightarrow> XORIterator \<Rightarrow> nat" where
  "xi_left ok it = (if ok then Suc (unat (xi_num_total it - xi_num_read it)) else 0)"

lemma xi_step_less: "xi_step it = Ok (b, it') \<Longrightarrow> xi_left b it' < xi_left True it"
  using xi_next_measure [of it' it]
  by (cases b) (auto simp: xi_step_def xi_left_def split: prod.splits result.splits)

function merge_loop :: "bool \<Rightarrow> XORIterator \<Rightarrow> bool \<Rightarrow> XORIterator \<Rightarrow> Appender \<times> XORChunk
    \<Rightarrow> ((bool \<times> XORIterator) \<times> (bool \<times> XORIterator) \<times> Appender \<times> XORChunk) result" where
  "merge_loop ok1 it1 ok2 it2 app =
     (if ok1 \<and> ok2
      then let p1 = xi_at it1; p2 = xi_at it2
           in if sint (fst p1) < sint (fst p2)
              then res_bind (appender_append p1 app) (\<lambda>app.
                   res_bind (xi_step it1) (\<lambda>(ok1', it1'). merge_loop ok1' it1' ok2 it2 app))
              else if sint (fst p1) > sint (fst p2)
              then res_bind (appender_append p2 app) (\<lambda>app.
                   res_bind (xi_step it2) (\<lambda>(ok2', it2'). merge_loop ok1 it1 ok2' it2' app))
              else res_bind (appender_append p2 app) (\<lambda>app.
                   res_bind (xi_step it1) (\<lambda>(ok1', it1').
                   res_bind (xi_step it2) (\<lambda>(ok2', it2'). merge_loop ok1' it1' ok2' it2' app)))
      else Ok ((ok1, it1), (ok2, it2), app))"
  by pat_completeness auto
termination
  by (relation "measure (\<lambda>(ok1, it1, ok2, it2, _). xi_left ok1 it1 + xi_left ok2 it2)")
    (auto dest!: xi_step_less)

function drain_loop :: "bool \<Rightarrow> XORIterator \<Rightarrow> Appender \<times> XORChunk \<Rightarrow> (XORIterator \<times> Appender \<times> XORChunk) result" where
  "drain_loop ok it app =
     (if ok then res_bind (appender_append (xi_at it) app) (\<lambda>app.
                 res_bind (xi_step it) (\<lambda>(ok', it'). drain_loop ok' it' app))
      else Ok (it, app))"
  by pat_completeness auto
termination
  by (relation "measure (\<lambda>(ok, it, _). xi_left ok it)") (auto dest!: xi_step_less)

declare merge_loop.simps [simp del] drain_loop.simps [simp del]

text \<open>The result is the chunk, or an error; \<open>Throw\<close> is an exception the caller sees.\<close>

definition merge_chunks :: "(nat \<Rightarrow> nat \<Rightarrow> u8) \<Rightarrow> XORChunk \<Rightarrow> XORChunk \<Rightarrow> (string + XORChunk) result" where
  "merge_chunks mem c1 c2 =
     (let new_chunk = XORChunk_new (mem 0)
      in case xc_appender new_chunk of
           Undef \<Rightarrow> Undef
         | Throw \<Rightarrow> Ok (Inl ''TSDBException'')
         | Ok app \<Rightarrow>
             res_bind (xc_iterator (mem 1) c1) (\<lambda>it1.
             res_bind (xc_iterator (mem 2) c2) (\<lambda>it2.
             res_bind (xi_step it1) (\<lambda>(ok1, it1).
             res_bind (xi_step it2) (\<lambda>(ok2, it2).
             res_bind (merge_loop ok1 it1 ok2 it2 (app, new_chunk)) (\<lambda>((ok1, it1), (ok2, it2), app).
             res_bind (drain_loop ok1 it1 app) (\<lambda>(it1, app).
             res_bind (drain_loop ok2 it2 app) (\<lambda>(it2, app).
               if xi_err it1 then Ok (Inl ''Error in first chunk iterator'')
               else if xi_err it2 then Ok (Inl ''Error in second chunk iterator'')
               else Ok (Inr (snd app))))))))))"

text \<open>
  The code passes chunks as shared pointers to their meta data and updates the meta data of the
  caller in place. \<open>h\<close> is the store of meta data, a chunk is an address in it. The loop of
  \<open>merge_overlapping_chunks\<close> runs from the chunk at position \<open>i\<close>; \<open>finished\<close> are the chunks in
  front of the last one of \<open>new_chunks\<close>.
\<close>

type_synonym store = "nat \<Rightarrow> ChunkMeta"

fun merge_overlapping_loop :: "(nat \<Rightarrow> nat \<Rightarrow> u8) \<Rightarrow> nat \<Rightarrow> store \<Rightarrow> nat list \<Rightarrow> nat \<Rightarrow> nat list
    \<Rightarrow> (store \<times> (string + nat list)) result" where
  "merge_overlapping_loop mem i h finished last_chunk [] = Ok (h, Inr (finished @ [last_chunk]))"
| "merge_overlapping_loop mem i h finished last_chunk (c # cs) =
     (if sint (cm_max_time (h last_chunk)) < sint (cm_min_time (h c))
      then merge_overlapping_loop mem (Suc i) h (finished @ [last_chunk]) c cs
      else let h = (if sint (cm_max_time (h last_chunk)) < sint (cm_max_time (h c))
                    then h(last_chunk := (h last_chunk)\<lparr>cm_max_time := cm_max_time (h c)\<rparr>) else h)
           in res_bind (merge_chunks (\<lambda>k. mem (3 * i + k)) (cm_chunk (h last_chunk)) (cm_chunk (h c))) (\<lambda>r.
                case r of Inl err \<Rightarrow> Ok (h, Inl err)
                | Inr chk \<Rightarrow> merge_overlapping_loop mem (Suc i)
                    (h(last_chunk := (h last_chunk)\<lparr>cm_chunk := chk\<rparr>)) finished last_chunk cs))"

definition merge_overlapping_chunks :: "(nat \<Rightarrow> nat \<Rightarrow> u8) \<Rightarrow> store \<Rightarrow> nat list \<Rightarrow> (store \<times> (string + nat list)) result" where
  "merge_overlapping_chunks mem h chunks =
     (if length chunks < 2 then Ok (h, Inr chunks)
      else merge_overlapping_loop mem 0 h [] (hd chunks) (tl chunks))"

subsection \<open>Iterators as lists of samples\<close>

lemma xi_run_Nil: "xi_run it = Ok ([], fin) \<longleftrightarrow> xi_next it = (Ok False, fin)"
  by (subst xi_run.simps) (auto simp: res_bind_eq_Ok split: prod.splits result.splits bool.splits)

lemma xi_run_Cons:
  "xi_run it = Ok (s # ss, fin) \<longleftrightarrow> (\<exists>it1. xi_next it = (Ok True, it1) \<and> xi_at it1 = s \<and> xi_run it1 = Ok (ss, fin))"
  by (subst xi_run.simps) (auto simp: res_bind_eq_Ok split: prod.splits result.splits bool.splits)

text \<open>
  The pair of a flag and an iterator the loops carry, seen as the samples from the current one
  on; \<open>fin\<close> is the iterator at the end.
\<close>

definition at_stream :: "bool \<Rightarrow> XORIterator \<Rightarrow> sample list \<Rightarrow> XORIterator \<Rightarrow> bool" where
  "at_stream ok it ss fin \<longleftrightarrow>
     (case ss of [] \<Rightarrow> \<not> ok \<and> it = fin | s # rest \<Rightarrow> ok \<and> xi_at it = s \<and> xi_run it = Ok (rest, fin))"

lemma xi_step_stream:
  assumes "xi_run it = Ok (ss, fin)"
  obtains ok it' where "xi_step it = Ok (ok, it')" "at_stream ok it' ss fin"
  using assms that
  by (cases ss) (fastforce simp: xi_run_Nil xi_run_Cons xi_step_def at_stream_def)+

lemma at_stream_simps:
  "at_stream ok it [] fin \<longleftrightarrow> \<not> ok \<and> it = fin"
  "at_stream ok it (s # ss) fin \<longleftrightarrow> ok \<and> xi_at it = s \<and> xi_run it = Ok (ss, fin)"
  by (simp_all add: at_stream_def)

lemma drain_loop_stream:
  "at_stream ok it ss fin \<Longrightarrow> append_all ss app = Ok app' \<Longrightarrow> drain_loop ok it app = Ok (fin, app')"
proof (induction ss arbitrary: ok it app)
  case Nil
  then show ?case by (subst drain_loop.simps) (simp add: at_stream_simps)
next
  case (Cons s ss)
  from Cons.prems(2) obtain app1 where app1: "appender_append s app = Ok app1" "append_all ss app1 = Ok app'"
    by (auto simp: res_bind_eq_Ok)
  from Cons.prems(1) have it: "ok" "xi_at it = s" "xi_run it = Ok (ss, fin)" by (auto simp: at_stream_simps)
  from it(3) obtain ok' it' where st: "xi_step it = Ok (ok', it')" "at_stream ok' it' ss fin" by (rule xi_step_stream)
  from Cons.IH [OF st(2) app1(2)] app1(1) st(1) it(1,2) show ?case
    by (subst drain_loop.simps) simp
qed

text \<open>The merge of two lists of samples; at equal time stamps the second list wins.\<close>

fun merge_samples :: "sample list \<Rightarrow> sample list \<Rightarrow> sample list" where
  "merge_samples (x # xs) (y # ys) =
     (if sint (fst x) < sint (fst y) then x # merge_samples xs (y # ys)
      else if sint (fst x) > sint (fst y) then y # merge_samples (x # xs) ys
      else y # merge_samples xs ys)"
| "merge_samples [] ys = ys"
| "merge_samples xs [] = xs"

lemma merge_samples_Nil [simp]: "merge_samples xs [] = xs"
  by (cases xs) simp_all

lemma merge_loop_stream:
  assumes "at_stream ok1 it1 xs f1" "at_stream ok2 it2 ys f2" "append_all (merge_samples xs ys) app = Ok app'"
  shows "\<exists>ok1' it1' ok2' it2' app1 xs' ys'.
     merge_loop ok1 it1 ok2 it2 app = Ok ((ok1', it1'), (ok2', it2'), app1)
     \<and> at_stream ok1' it1' xs' f1 \<and> at_stream ok2' it2' ys' f2 \<and> append_all (xs' @ ys') app1 = Ok app'"
  using assms
proof (induction xs ys arbitrary: ok1 it1 ok2 it2 app rule: merge_samples.induct)
  case (1 x xs y ys)
  from "1.prems"(1,2) have it: "ok1" "ok2" "xi_at it1 = x" "xi_at it2 = y"
    and r1: "xi_run it1 = Ok (xs, f1)" and r2: "xi_run it2 = Ok (ys, f2)" by (auto simp: at_stream_simps)
  from r1 obtain ok1' it1' where st1: "xi_step it1 = Ok (ok1', it1')" "at_stream ok1' it1' xs f1"
    by (rule xi_step_stream)
  from r2 obtain ok2' it2' where st2: "xi_step it2 = Ok (ok2', it2')" "at_stream ok2' it2' ys f2"
    by (rule xi_step_stream)
  consider (lt) "sint (fst x) < sint (fst y)" | (gt) "sint (fst x) > sint (fst y)" | (eq) "sint (fst x) = sint (fst y)"
    by linarith
  then show ?case
  proof cases
    case lt
    with "1.prems"(3) obtain app1 where a: "appender_append x app = Ok app1"
      "append_all (merge_samples xs (y # ys)) app1 = Ok app'" by (auto simp: res_bind_eq_Ok)
    from "1.IH"(1) [OF lt st1(2) "1.prems"(2) a(2)] a(1) st1(1) it lt show ?thesis
      by (subst merge_loop.simps) simp
  next
    case gt
    with "1.prems"(3) obtain app1 where a: "appender_append y app = Ok app1"
      "append_all (merge_samples (x # xs) ys) app1 = Ok app'" by (auto simp: res_bind_eq_Ok)
    from gt have "\<not> sint (fst x) < sint (fst y)" by simp
    from "1.IH"(2) [OF this gt "1.prems"(1) st2(2) a(2)] a(1) st2(1) it gt show ?thesis
      by (subst merge_loop.simps) simp
  next
    case eq
    with "1.prems"(3) obtain app1 where a: "appender_append y app = Ok app1"
      "append_all (merge_samples xs ys) app1 = Ok app'" by (auto simp: res_bind_eq_Ok)
    from eq have "\<not> sint (fst x) < sint (fst y)" "\<not> sint (fst x) > sint (fst y)" by simp_all
    from "1.IH"(3) [OF this st1(2) st2(2) a(2)] a(1) st1(1) st2(1) it eq show ?thesis
      by (subst merge_loop.simps) simp
  qed
next
  case (2 ys)
  then have "merge_loop ok1 it1 ok2 it2 app = Ok ((ok1, it1), (ok2, it2), app)"
    by (subst merge_loop.simps) (simp add: at_stream_simps)
  with 2 show ?case by (metis append_Nil merge_samples.simps(2))
next
  case (3 x xs)
  then have "merge_loop ok1 it1 ok2 it2 app = Ok ((ok1, it1), (ok2, it2), app)"
    by (subst merge_loop.simps) (simp add: at_stream_simps)
  with 3 show ?case by (metis append_Nil2 merge_samples_Nil)
qed

subsection \<open>The merged chunk\<close>

text \<open>The samples any iterator of a chunk returns, whatever memory it is placed in.\<close>

definition chunk_samples :: "XORChunk \<Rightarrow> sample list \<Rightarrow> bool" where
  "chunk_samples c ss \<longleftrightarrow> (\<forall>m. \<exists>it fin. xc_iterator m c = Ok it \<and> xi_run it = Ok (ss, fin) \<and> \<not> xi_err fin)"

definition increasing :: "sample list \<Rightarrow> bool" where
  "increasing ss \<longleftrightarrow> sorted_wrt (\<lambda>x y. sint (fst x) < sint (fst y)) ss"

lemma chunk_inv_samples:
  "chunk_inv a b ss \<Longrightarrow> chunk_samples \<lparr>xc_bstream = b, xc_read_mode = False, xc_rsize = k\<rparr> ss"
  unfolding chunk_samples_def xc_iterator_def
  by (metis XORChunk.select_convs(1) chunk_inv_iterator in_step_def)

lemma append_all_append: "append_all (xs @ ys) app = res_bind (append_all xs app) (append_all ys)"
proof (induction xs arbitrary: app)
  case (Cons x xs)
  then show ?case by (cases "appender_append x app") simp_all
qed simp

lemma new_chunk_append:
  assumes "length ss < 65536"
  obtains app a' c where "xc_appender (XORChunk_new mem) = Ok app"
    "append_all ss (app, XORChunk_new mem) = Ok (a', c)" "chunk_samples c ss"
proof -
  let ?b = "BitStream_sized mem 2 0"
  have c: "XORChunk_new mem = \<lparr>xc_bstream = ?b, xc_read_mode = False, xc_rsize = 0\<rparr>"
    by (simp add: XORChunk_new_def)
  from xc_appender_inv [OF chunk_inv_new c] obtain a where a: "xc_appender (XORChunk_new mem) = Ok (XORAppending a)"
    "chunk_inv a ?b []" .
  from append_all_inv [OF a(2), of ss 0] assms c obtain a' b' where
    "append_all ss (XORAppending a, XORChunk_new mem)
       = Ok (XORAppending a', \<lparr>xc_bstream = b', xc_read_mode = False, xc_rsize = 0\<rparr>)" "chunk_inv a' b' ss"
    by auto
  with a(1) chunk_inv_samples show thesis by (intro that)
qed

lemma merge_chunks_samples:
  assumes c1: "chunk_samples c1 xs" and c2: "chunk_samples c2 ys" and len: "length (merge_samples xs ys) < 65536"
  shows "\<exists>c. merge_chunks mem c1 c2 = Ok (Inr c) \<and> chunk_samples c (merge_samples xs ys)"
proof -
  from len obtain app a' c where app: "xc_appender (XORChunk_new (mem 0)) = Ok app"
    "append_all (merge_samples xs ys) (app, XORChunk_new (mem 0)) = Ok (a', c)"
    and c: "chunk_samples c (merge_samples xs ys)" by (rule new_chunk_append)
  from c1 obtain i1 f1 where i1: "xc_iterator (mem 1) c1 = Ok i1" "xi_run i1 = Ok (xs, f1)" "\<not> xi_err f1"
    unfolding chunk_samples_def by blast
  from c2 obtain i2 f2 where i2: "xc_iterator (mem 2) c2 = Ok i2" "xi_run i2 = Ok (ys, f2)" "\<not> xi_err f2"
    unfolding chunk_samples_def by blast
  from i1(2) obtain ok1 it1 where s1: "xi_step i1 = Ok (ok1, it1)" "at_stream ok1 it1 xs f1" by (rule xi_step_stream)
  from i2(2) obtain ok2 it2 where s2: "xi_step i2 = Ok (ok2, it2)" "at_stream ok2 it2 ys f2" by (rule xi_step_stream)
  from merge_loop_stream [OF s1(2) s2(2) app(2)] obtain ok1' it1' ok2' it2' app1 xs' ys' where
    m: "merge_loop ok1 it1 ok2 it2 (app, XORChunk_new (mem 0)) = Ok ((ok1', it1'), (ok2', it2'), app1)"
      "at_stream ok1' it1' xs' f1" "at_stream ok2' it2' ys' f2" "append_all (xs' @ ys') app1 = Ok (a', c)"
    by blast
  from m(4) obtain app2 where a2: "append_all xs' app1 = Ok app2" "append_all ys' app2 = Ok (a', c)"
    by (auto simp: append_all_append res_bind_eq_Ok)
  note d = drain_loop_stream [OF m(2) a2(1)] drain_loop_stream [OF m(3) a2(2)]
  have "merge_chunks mem c1 c2 = Ok (Inr c)"
    unfolding merge_chunks_def Let_def by (simp add: app(1) i1(1) [unfolded One_nat_def] i2(1) s1(1) s2(1) m(1) d i1(3) i2(3))
  with c show ?thesis by blast
qed

lemma merge_samples_subset: "set (merge_samples xs ys) \<subseteq> set xs \<union> set ys"
  by (induction xs ys rule: merge_samples.induct) auto

lemma length_merge_samples: "length (merge_samples xs ys) \<le> length xs + length ys"
  by (induction xs ys rule: merge_samples.induct) auto

lemma increasing_Cons: "increasing (x # xs) \<longleftrightarrow> (\<forall>z \<in> set xs. sint (fst x) < sint (fst z)) \<and> increasing xs"
  by (simp add: increasing_def)

lemma merge_samples_after:
  "\<forall>z \<in> set xs \<union> set ys. t < sint (fst z) \<Longrightarrow> \<forall>z \<in> set (merge_samples xs ys). t < sint (fst z)"
  using merge_samples_subset by blast

lemma merge_samples_increasing: "increasing xs \<Longrightarrow> increasing ys \<Longrightarrow> increasing (merge_samples xs ys)"
proof (induction xs ys rule: merge_samples.induct)
  case (1 x xs y ys)
  have x: "\<forall>z \<in> set xs. sint (fst x) < sint (fst z)" "increasing xs"
    and y: "\<forall>z \<in> set ys. sint (fst y) < sint (fst z)" "increasing ys"
    using "1.prems" by (auto simp: increasing_Cons)
  have "\<forall>z \<in> set (merge_samples xs (y # ys)). sint (fst x) < sint (fst z)" if "sint (fst x) < sint (fst y)"
    using that x y by (intro merge_samples_after) auto
  moreover have "\<forall>z \<in> set (merge_samples (x # xs) ys). sint (fst y) < sint (fst z)" if "sint (fst y) < sint (fst x)"
    using that x y by (intro merge_samples_after) auto
  moreover have "\<forall>z \<in> set (merge_samples xs ys). sint (fst y) < sint (fst z)" if "sint (fst x) = sint (fst y)"
    using that x y by (intro merge_samples_after) auto
  ultimately show ?case using "1.IH" "1.prems" x(2) y(2) by (simp add: increasing_Cons)
qed simp_all

lemma increasing_Cons_None: "increasing (x # xs) \<Longrightarrow> sint t \<le> sint (fst x) \<Longrightarrow> t \<noteq> fst x \<Longrightarrow> map_of (x # xs) t = None"
  by (force simp: increasing_def map_of_eq_None_iff)

lemma map_of_merge_samples:
  "increasing xs \<Longrightarrow> increasing ys \<Longrightarrow> map_of (merge_samples xs ys) = map_of xs ++ map_of ys"
proof (induction xs ys rule: merge_samples.induct)
  case (1 x xs y ys)
  have xs: "increasing xs" and ys: "increasing ys" using "1.prems" by (auto simp: increasing_def)
  consider (lt) "sint (fst x) < sint (fst y)" | (gt) "sint (fst x) > sint (fst y)" | (eq) "fst x = fst y"
    using signed_word_eqI [of "fst x" "fst y"] by (meson linorder_neqE)
  then show ?case
  proof cases
    case lt
    then have "map_of (y # ys) (fst x) = None" using increasing_Cons_None [OF "1.prems"(2), of "fst x"] by force
    with lt "1.IH"(1) [OF lt xs "1.prems"(2)] show ?thesis
      by (auto simp: map_add_def fun_eq_iff split: option.split)
  next
    case gt
    then have "\<not> sint (fst x) < sint (fst y)" by simp
    from "1.IH"(2) [OF this gt "1.prems"(1) ys] gt show ?thesis by (auto simp: map_add_def fun_eq_iff split: option.split)
  next
    case eq
    then have "\<not> sint (fst x) < sint (fst y)" "\<not> sint (fst x) > sint (fst y)" by simp_all
    from "1.IH"(3) [OF this xs ys] eq show ?thesis by (auto simp: map_add_def fun_eq_iff split: option.split)
  qed
qed simp_all

subsection \<open>Overlapping chunks\<close>

text \<open>A chunk with its meta data: samples in increasing order between the two time stamps.\<close>

definition meta_ok :: "ChunkMeta \<Rightarrow> sample list \<Rightarrow> bool" where
  "meta_ok m ss \<longleftrightarrow> chunk_samples (cm_chunk m) ss \<and> increasing ss
     \<and> (\<forall>s \<in> set ss. sint (cm_min_time m) \<le> sint (fst s) \<and> sint (fst s) \<le> sint (cm_max_time m))"

text \<open>The value each time stamp has after writing one list of samples after the other.\<close>

definition overlay :: "sample list list \<Rightarrow> i64 \<rightharpoonup> double" where
  "overlay sss = foldl (\<lambda>m ss. m ++ map_of ss) Map.empty sss"

definition separated :: "ChunkMeta list \<Rightarrow> bool" where
  "separated ms \<longleftrightarrow> sorted_wrt (\<lambda>a b. sint (cm_max_time a) < sint (cm_min_time b)) ms"

lemma meta_ok_merge:
  assumes "meta_ok l xs" "meta_ok c ys" "sint (cm_min_time l) \<le> sint (cm_min_time c)" "length xs + length ys < 65536"
    and l': "l' = (if sint (cm_max_time l) < sint (cm_max_time c) then l\<lparr>cm_max_time := cm_max_time c\<rparr> else l)"
  shows "\<exists>chk. merge_chunks mem (cm_chunk l') (cm_chunk c) = Ok (Inr chk)
    \<and> meta_ok (l'\<lparr>cm_chunk := chk\<rparr>) (merge_samples xs ys)"
proof -
  have len: "length (merge_samples xs ys) < 65536" using assms(4) length_merge_samples [of xs ys] by linarith
  have "chunk_samples (cm_chunk l') xs" "chunk_samples (cm_chunk c) ys" using assms by (auto simp: meta_ok_def)
  from merge_chunks_samples [OF this len] obtain chk where chk:
    "merge_chunks mem (cm_chunk l') (cm_chunk c) = Ok (Inr chk)" "chunk_samples chk (merge_samples xs ys)" by blast
  moreover have "increasing (merge_samples xs ys)"
    using assms(1,2) by (intro merge_samples_increasing) (auto simp: meta_ok_def)
  moreover have "\<forall>s \<in> set xs \<union> set ys. sint (cm_min_time l') \<le> sint (fst s) \<and> sint (fst s) \<le> sint (cm_max_time l')"
    using assms(1,2,3) l' by (force simp: meta_ok_def)
  ultimately show ?thesis using merge_samples_subset [of xs ys] by (auto simp: meta_ok_def)
qed

lemma map_of_disjoint:
  assumes "\<forall>s \<in> set xs. sint (fst s) < b" "\<forall>s \<in> set ys. b \<le> sint (fst s)"
  shows "dom (map_of xs) \<inter> dom (map_of ys) = {}"
proof (rule ccontr)
  assume "\<not> ?thesis"
  then obtain t v w where "map_of xs t = Some v" "map_of ys t = Some w" by blast
  with assms have "sint t < b" "b \<le> sint t" by (auto dest!: map_of_SomeD)
  then show False by simp
qed

text \<open>What the loop has built: chunks in front, and the last one, which alone can still grow.\<close>

definition merged_so_far :: "ChunkMeta list \<Rightarrow> sample list list \<Rightarrow> ChunkMeta \<Rightarrow> sample list \<Rightarrow> (i64 \<rightharpoonup> double) \<Rightarrow> bool" where
  "merged_so_far fs fss l ls v \<longleftrightarrow> list_all2 meta_ok fs fss \<and> meta_ok l ls \<and> separated (fs @ [l])
     \<and> map_of (concat fss @ ls) = v"

lemma front_disjoint:
  assumes "merged_so_far fs fss l ls v" "meta_ok c cs" "sint (cm_min_time l) \<le> sint (cm_min_time c)"
  shows "dom (map_of (concat fss)) \<inter> dom (map_of cs) = {}"
proof (rule map_of_disjoint)
  show "\<forall>s \<in> set (concat fss). sint (fst s) < sint (cm_min_time l)"
  proof
    fix s assume "s \<in> set (concat fss)"
    then obtain i where "i < length fss" "s \<in> set (fss ! i)" by (metis UN_E in_set_conv_nth set_concat)
    with assms(1) have "meta_ok (fs ! i) (fss ! i)" "fs ! i \<in> set fs"
      by (auto simp: merged_so_far_def list_all2_conv_all_nth)
    moreover from this(2) have "sint (cm_max_time (fs ! i)) < sint (cm_min_time l)"
      using assms(1) by (auto simp: merged_so_far_def separated_def sorted_wrt_append)
    ultimately show "sint (fst s) < sint (cm_min_time l)"
      using \<open>s \<in> set (fss ! i)\<close> by (force simp: meta_ok_def)
  qed
  show "\<forall>s \<in> set cs. sint (cm_min_time l) \<le> sint (fst s)"
    using assms(2,3) by (auto simp: meta_ok_def)
qed

subsection \<open>Merging without a store\<close>

text \<open>
  The same loop on the meta data themselves. As long as no chunk occurs twice in the list, the
  updates through pointers do what this loop does, and touch only chunks that are returned.
\<close>

fun merge_metas_loop :: "(nat \<Rightarrow> nat \<Rightarrow> u8) \<Rightarrow> nat \<Rightarrow> ChunkMeta list \<Rightarrow> ChunkMeta \<Rightarrow> ChunkMeta list
    \<Rightarrow> (string + ChunkMeta list) result" where
  "merge_metas_loop mem i finished last_chunk [] = Ok (Inr (finished @ [last_chunk]))"
| "merge_metas_loop mem i finished last_chunk (c # cs) =
     (if sint (cm_max_time last_chunk) < sint (cm_min_time c)
      then merge_metas_loop mem (Suc i) (finished @ [last_chunk]) c cs
      else let l = (if sint (cm_max_time last_chunk) < sint (cm_max_time c)
                    then last_chunk\<lparr>cm_max_time := cm_max_time c\<rparr> else last_chunk)
           in res_bind (merge_chunks (\<lambda>k. mem (3 * i + k)) (cm_chunk l) (cm_chunk c)) (\<lambda>r.
                case r of Inl err \<Rightarrow> Ok (Inl err)
                | Inr chk \<Rightarrow> merge_metas_loop mem (Suc i) finished (l\<lparr>cm_chunk := chk\<rparr>) cs))"

lemma merge_metas_loop_correct:
  assumes "merged_so_far fs fss l ls v" "list_all2 meta_ok cs css"
    "sorted_wrt (\<lambda>a b. sint (cm_min_time a) \<le> sint (cm_min_time b)) (l # cs)"
    "length (concat fss) + length ls + length (concat css) < 65536"
  shows "\<exists>out outs. merge_metas_loop mem i fs l cs = Ok (Inr out) \<and> list_all2 meta_ok out outs
    \<and> separated out \<and> map_of (concat outs) = foldl (\<lambda>m ss. m ++ map_of ss) v css"
  using assms
proof (induction cs arbitrary: i fs fss l ls v css)
  case Nil
  then have "list_all2 meta_ok (fs @ [l]) (fss @ [ls])" "separated (fs @ [l])" "map_of (concat (fss @ [ls])) = v"
    by (simp_all add: merged_so_far_def list_all2_appendI)
  with Nil.prems(2) show ?case by (metis foldl_Nil list_all2_Nil merge_metas_loop.simps(1))
next
  case (Cons c cs)
  from Cons.prems(2) obtain ys css' where css: "css = ys # css'" and c: "meta_ok c ys" and cs: "list_all2 meta_ok cs css'"
    by (auto simp: list_all2_Cons1)
  have min: "sint (cm_min_time l) \<le> sint (cm_min_time c)" using Cons.prems(3) by simp
  note dis = front_disjoint [OF Cons.prems(1) c min]
  show ?case
  proof (cases "sint (cm_max_time l) < sint (cm_min_time c)")
    case True
    have "dom (map_of ls) \<inter> dom (map_of ys) = {}"
      using True c Cons.prems(1)
      by (intro map_of_disjoint [of _ "sint (cm_min_time c)"]) (auto simp: merged_so_far_def meta_ok_def)
    with dis have "map_of (concat fss @ ls @ ys) = map_of (concat fss @ ls) ++ map_of ys"
      by (metis map_add_assoc map_add_comm map_of_append)
    then have "merged_so_far (fs @ [l]) (fss @ [ls]) c ys (v ++ map_of ys)"
      using Cons.prems(1) c True min
      by (auto simp: merged_so_far_def separated_def sorted_wrt_append list_all2_appendI)
    from Cons.IH [OF this cs] Cons.prems(3,4) css True show ?thesis by simp
  next
    case False
    define l' where "l' = (if sint (cm_max_time l) < sint (cm_max_time c) then l\<lparr>cm_max_time := cm_max_time c\<rparr> else l)"
    have ml: "meta_ok l ls" using Cons.prems(1) by (simp add: merged_so_far_def)
    have "length ls + length ys < 65536" using Cons.prems(4) css by simp
    from meta_ok_merge [OF ml c min this l'_def] obtain chk where chk:
      "merge_chunks (\<lambda>k. mem (3 * i + k)) (cm_chunk l') (cm_chunk c) = Ok (Inr chk)"
      "meta_ok (l'\<lparr>cm_chunk := chk\<rparr>) (merge_samples ls ys)" by blast
    have "map_of (merge_samples ls ys) = map_of ls ++ map_of ys"
      using ml c by (intro map_of_merge_samples) (auto simp: meta_ok_def)
    then have "map_of (concat fss @ merge_samples ls ys) = map_of (concat fss @ ls) ++ map_of ys"
      using map_add_comm [OF dis] by (metis map_add_assoc map_of_append)
    moreover have min': "cm_min_time l' = cm_min_time l" by (simp add: l'_def)
    ultimately have "merged_so_far fs fss (l'\<lparr>cm_chunk := chk\<rparr>) (merge_samples ls ys) (v ++ map_of ys)"
      using Cons.prems(1) chk(2) by (simp add: merged_so_far_def separated_def sorted_wrt_append)
    from Cons.IH [OF this cs, of "Suc i"] Cons.prems(3,4) css length_merge_samples [of ls ys] min'
    obtain out outs where "merge_metas_loop mem (Suc i) fs (l'\<lparr>cm_chunk := chk\<rparr>) cs = Ok (Inr out)"
      "list_all2 meta_ok out outs" "separated out" "map_of (concat outs) = foldl (\<lambda>m ss. m ++ map_of ss) (v ++ map_of ys) css'"
      by fastforce
    with False chk(1) css show ?thesis by (auto simp: l'_def [symmetric] Let_def)
  qed
qed

lemma merge_overlapping_loop_refines:
  "distinct (fs @ l # cs) \<Longrightarrow>
   merge_metas_loop mem i (map h fs) (h l) (map h cs)
     = map_result (\<lambda>(h', r). map_sum (\<lambda>e. e) (map h') r) (merge_overlapping_loop mem i h fs l cs)"
proof (induction cs arbitrary: i h fs l)
  case (Cons c cs)
  show ?case
  proof (cases "sint (cm_max_time (h l)) < sint (cm_min_time (h c))")
    case True
    then show ?thesis using Cons.IH [of "fs @ [l]" c "Suc i" h] Cons.prems by simp
  next
    case False
    define h1 where "h1 = (if sint (cm_max_time (h l)) < sint (cm_max_time (h c))
      then h(l := (h l)\<lparr>cm_max_time := cm_max_time (h c)\<rparr>) else h)"
    have out: "h1 p = h p" if "p \<noteq> l" for p using that by (simp add: h1_def)
    have l: "h1 l = (if sint (cm_max_time (h l)) < sint (cm_max_time (h c))
        then (h l)\<lparr>cm_max_time := cm_max_time (h c)\<rparr> else h l)" by (simp add: h1_def)
    have c: "h1 c = h c" and d: "distinct (fs @ l # cs)" using Cons.prems out by auto
    have m: "map (h1(l := x)) fs = map h fs" "map (h1(l := x)) cs = map h cs" for x
      using Cons.prems out by (fastforce intro!: map_cong)+
    have "merge_metas_loop mem (Suc i) (map h fs) ((h1 l)\<lparr>cm_chunk := chk\<rparr>) (map h cs)
        = map_result (\<lambda>(h', r). map_sum (\<lambda>e. e) (map h') r)
            (merge_overlapping_loop mem (Suc i) (h1(l := (h1 l)\<lparr>cm_chunk := chk\<rparr>)) fs l cs)" for chk
      using Cons.IH [OF d, of "Suc i" "h1(l := (h1 l)\<lparr>cm_chunk := chk\<rparr>)"] unfolding m fun_upd_same .
    with False show ?thesis
      by (cases "merge_chunks (\<lambda>k. mem (3 * i + k)) (cm_chunk (h1 l)) (cm_chunk (h c))")
        (simp_all add: Let_def c flip: h1_def l split: sum.splits)
  qed
qed simp

lemma merge_overlapping_loop_frame:
  "merge_overlapping_loop mem i h fs l cs = Ok (h', Inr out) \<Longrightarrow>
   set (fs @ [l]) \<subseteq> set out \<and> set out \<subseteq> set (fs @ l # cs) \<and> (\<forall>p. p \<notin> set out \<longrightarrow> h' p = h p)"
proof (induction cs arbitrary: i h fs l)
  case (Cons c cs)
  show ?case
  proof (cases "sint (cm_max_time (h l)) < sint (cm_min_time (h c))")
    case True
    then show ?thesis using Cons.IH [of "Suc i" h "fs @ [l]" c] Cons.prems by auto
  next
    case False
    define h1 where "h1 = (if sint (cm_max_time (h l)) < sint (cm_max_time (h c))
      then h(l := (h l)\<lparr>cm_max_time := cm_max_time (h c)\<rparr>) else h)"
    obtain chk where "merge_overlapping_loop mem (Suc i) (h1(l := (h1 l)\<lparr>cm_chunk := chk\<rparr>)) fs l cs = Ok (h', Inr out)"
      using Cons.prems False by (cases "merge_chunks (\<lambda>k. mem (3 * i + k)) (cm_chunk (h1 l)) (cm_chunk (h1 c))")
        (auto simp: Let_def simp flip: h1_def split: sum.split_asm)
    from Cons.IH [OF this] show ?thesis by (auto simp: h1_def split: if_splits)
  qed
qed auto

subsection \<open>Properties\<close>

text \<open>
  Merging two chunks whose samples are in time order gives a chunk with the samples of both
  in time order; where both have a sample for a time stamp, the one of the second chunk is kept.
  The sum of the samples must fit the count of a chunk.
\<close>

lemma merge_chunks_union:
  assumes "chunk_samples c1 xs" "chunk_samples c2 ys" "increasing xs" "increasing ys"
    "length xs + length ys < 65536"
  shows "\<exists>c ms. merge_chunks mem c1 c2 = Ok (Inr c) \<and> chunk_samples c ms \<and> increasing ms
    \<and> map_of ms = map_of xs ++ map_of ys"
  using merge_chunks_samples [OF assms(1,2), of mem] assms(3-5) length_merge_samples [of xs ys]
    merge_samples_increasing map_of_merge_samples by fastforce

text \<open>
  C10: for distinct chunks ordered by their smallest time stamp, with less than 65536 samples in
  total, \<open>merge_overlapping_chunks\<close> returns chunks of the input whose updated meta data have
  disjoint ordered time ranges and bound their samples, and which together hold for every time
  stamp the sample that appears last in the input, and no other. The meta data of all other
  chunks are left as they were.
\<close>

theorem merge_overlapping_chunks_correct:
  assumes "distinct chunks" "list_all2 meta_ok (map h chunks) sss"
    "sorted_wrt (\<lambda>a b. sint (cm_min_time a) \<le> sint (cm_min_time b)) (map h chunks)" "length (concat sss) < 65536"
  shows "\<exists>h' out outs. merge_overlapping_chunks mem h chunks = Ok (h', Inr out)
    \<and> list_all2 meta_ok (map h' out) outs \<and> separated (map h' out) \<and> map_of (concat outs) = overlay sss
    \<and> set out \<subseteq> set chunks \<and> (\<forall>p. p \<notin> set out \<longrightarrow> h' p = h p)"
proof (cases "length chunks < 2")
  case True
  then consider "chunks = []" | c where "chunks = [c]" by (cases chunks; cases "tl chunks") auto
  then show ?thesis
    using assms(2) by cases (auto simp: merge_overlapping_chunks_def separated_def overlay_def list_all2_Cons1)
next
  case False
  then obtain c cs where chunks: "chunks = c # cs" by (cases chunks) auto
  with assms(2) obtain ss css where sss: "sss = ss # css" "meta_ok (h c) ss" "list_all2 meta_ok (map h cs) css"
    by (auto simp: list_all2_Cons1)
  have "merged_so_far [] [] (h c) ss (map_of ss)" using sss(2) by (simp add: merged_so_far_def separated_def)
  from merge_metas_loop_correct [OF this sss(3), of mem 0] assms(3,4) chunks sss(1)
  obtain metas outs where m: "merge_metas_loop mem 0 [] (h c) (map h cs) = Ok (Inr metas)" "list_all2 meta_ok metas outs"
    "separated metas" "map_of (concat outs) = overlay sss" by (auto simp: overlay_def)
  from m(1) merge_overlapping_loop_refines [of "[]" c cs mem 0 h] assms(1) chunks
  obtain h' out where o: "merge_overlapping_loop mem 0 h [] c cs = Ok (h', Inr out)" "metas = map h' out"
    by (cases "merge_overlapping_loop mem 0 h [] c cs") (auto simp: map_sum_def split: sum.splits)
  have "merge_overlapping_chunks mem h chunks = Ok (h', Inr out)"
    using o(1) chunks False by (simp add: merge_overlapping_chunks_def)
  then show ?thesis using m o(2) merge_overlapping_loop_frame [OF o(1)] chunks by auto
qed

theorem merge_overlapping_chunks_correct_witness:
  "\<exists>c1 c2 h' out outs. let m = (\<lambda>c mi ma. \<lparr>cm_ref = 0, cm_series_ref = 0, cm_chunk = c, cm_min_time = mi, cm_max_time = ma,
       cm_type = 0, cm_logical_group_ref = 0\<rparr>)
     in chunk_samples c1 [(1, 5), (4, 6)] \<and> chunk_samples c2 [(2, 9), (4, 8)]
     \<and> merge_overlapping_chunks (\<lambda>_ _. 7) (\<lambda>p. if p = 0 then m c1 1 4 else m c2 2 4) [0, 1] = Ok (h', Inr out)
     \<and> list_all2 meta_ok (map h' out) outs \<and> separated (map h' out)
     \<and> map_of (concat outs) = overlay [[(1, 5), (4, 6)], [(2, 9), (4, 8)]]"
proof -
  let ?m = "\<lambda>c mi ma. \<lparr>cm_ref = 0, cm_series_ref = 0, cm_chunk = c, cm_min_time = mi, cm_max_time = ma,
       cm_type = 0, cm_logical_group_ref = 0\<rparr>"
  have "length [(1, 5), (4 :: i64, 6 :: double)] < 65536" by simp
  then obtain c1 where c1: "chunk_samples c1 [(1, 5), (4, 6)]" by (rule new_chunk_append)
  have "length [(2, 9), (4 :: i64, 8 :: double)] < 65536" by simp
  then obtain c2 where c2: "chunk_samples c2 [(2, 9), (4, 8)]" by (rule new_chunk_append)
  let ?h = "\<lambda>p :: nat. if p = 0 then ?m c1 1 4 else ?m c2 2 4"
  have "distinct [0 :: nat, 1]" "list_all2 meta_ok (map ?h [0, 1]) [[(1, 5), (4, 6)], [(2, 9), (4, 8)]]"
    using c1 c2 by (simp_all add: meta_ok_def increasing_def)
  from merge_overlapping_chunks_correct [OF this, of "\<lambda>_ _. 7"] obtain h' out outs where
    "merge_overlapping_chunks (\<lambda>_ _. 7) ?h [0, 1] = Ok (h', Inr out)" "list_all2 meta_ok (map h' out) outs"
    "separated (map h' out)" "map_of (concat outs) = overlay [[(1, 5), (4, 6)], [(2, 9), (4, 8)]]" by fastforce
  with c1 c2 show ?thesis unfolding Let_def by blast
qed

end
