(* ===== verification/Intervals.thy ===== *)
theory Intervals
  imports Prelude
begin

text \<open>
  Deleted time ranges: \<open>src/tombstone/Interval.cpp\<close> and the in-memory tombstones of
  \<open>MemTombstones.hpp\<close>. A set of ranges is kept as a list; the lemmas relate it to the set
  of time stamps it covers.
\<close>

record Interval =
  min_time :: i64
  max_time :: i64

type_synonym Intervals = "Interval list"

definition Interval_of :: "i64 \<Rightarrow> i64 \<Rightarrow> Interval" where
  "Interval_of mi ma = \<lparr>min_time = mi, max_time = ma\<rparr>"

definition in_bounds :: "Interval \<Rightarrow> i64 \<Rightarrow> bool" where
  "in_bounds i t \<longleftrightarrow> sint t \<le> sint (max_time i) \<and> sint (min_time i) \<le> sint t"

definition is_subrange :: "i64 \<Rightarrow> i64 \<Rightarrow> Intervals \<Rightarrow> bool" where
  "is_subrange mi ma itvs \<longleftrightarrow> list_ex (\<lambda>i. in_bounds i mi \<and> in_bounds i ma) itvs"

definition Interval_is_subrange :: "Interval \<Rightarrow> Intervals \<Rightarrow> bool" where
  "Interval_is_subrange self itvs \<longleftrightarrow>
     list_ex (\<lambda>i. in_bounds i (min_time self) \<and> in_bounds i (max_time self)) itvs"

text \<open>
  \<open>absorb i itvl rest\<close>: the first case of \<open>itvls_add\<close>, in which \<open>itvl\<close> starts inside
  or right behind \<open>i\<close> and may reach over the intervals that follow.
\<close>

definition absorb :: "Interval \<Rightarrow> Interval \<Rightarrow> Intervals \<Rightarrow> Intervals" where
  "absorb i itvl rest =
     (let i = (if sint (max_time i) < sint (max_time itvl) then i\<lparr>max_time := max_time itvl\<rparr> else i);
          reached = (\<lambda>cur. \<not> sint (max_time itvl + 1) < sint (min_time cur));
          gone = takeWhile reached rest;
          prev = (if gone = [] then i else last gone);
          i = (if sint (max_time i) < sint (max_time prev) then i\<lparr>max_time := max_time prev\<rparr> else i)
      in i # dropWhile reached rest)"

fun itvls_add :: "Intervals \<Rightarrow> Interval \<Rightarrow> Intervals" where
  "itvls_add [] itvl = [itvl]"
| "itvls_add (i # rest) itvl =
     (if in_bounds i (min_time itvl) \<or> in_bounds i (min_time itvl - 1) then absorb i itvl rest
      else if in_bounds i (max_time itvl) \<or> in_bounds i (max_time itvl + 1)
      then i\<lparr>min_time := min_time itvl\<rparr> # rest
      else if sint (min_time itvl) < sint (min_time i) then itvl # i # rest
      else i # itvls_add rest itvl)"

fun intervals_equal_loop :: "Intervals \<Rightarrow> Intervals \<Rightarrow> bool" where
  "intervals_equal_loop (a # as) (b # bs) =
     (if min_time a \<noteq> min_time b \<or> max_time a \<noteq> max_time b then False else intervals_equal_loop as bs)"
| "intervals_equal_loop _ _ = True"

definition intervals_equal :: "Intervals \<Rightarrow> Intervals \<Rightarrow> bool" where
  "intervals_equal as bs = (if length as \<noteq> length bs then False else intervals_equal_loop as bs)"

subsection \<open>Coverage\<close>

definition covers :: "Intervals \<Rightarrow> int set" where
  "covers itvs = {t. \<exists>i \<in> set itvs. sint (min_time i) \<le> t \<and> t \<le> sint (max_time i)}"

text \<open>Ordered, not empty, and separated by at least one time stamp.\<close>

definition canonical :: "Intervals \<Rightarrow> bool" where
  "canonical itvs \<longleftrightarrow> (\<forall>i \<in> set itvs. sint (min_time i) \<le> sint (max_time i))
     \<and> sorted_wrt (\<lambda>a b. sint (max_time a) + 1 < sint (min_time b)) itvs"

text \<open>
  The ranges \<open>itvls_add\<close> handles: one that starts inside or right behind an existing range,
  or that contains no existing range.
\<close>

definition addable :: "Intervals \<Rightarrow> Interval \<Rightarrow> bool" where
  "addable itvs x \<longleftrightarrow>
     list_ex (\<lambda>i. sint (min_time i) \<le> sint (min_time x) \<and> sint (min_time x) \<le> sint (max_time i) + 1) itvs
     \<or> list_all (\<lambda>i. \<not> (sint (min_time x) < sint (min_time i) \<and> sint (max_time i) < sint (max_time x))) itvs"

lemma sint_minus_1: "sint (t - 1) = sint t - 1" if "- (2 ^ 63) < sint t" for t :: i64
  using that sint_lt [of t] by (simp add: sint_word_diff signed_take_bit_int_eq_self_iff)

lemma sint_plus_1: "sint (t + 1) = sint t + 1" if "sint t < 2 ^ 63 - 1" for t :: i64
  using that sint_ge [of t] by (simp add: sint_word_add signed_take_bit_int_eq_self_iff)

lemma covers_Nil [simp]: "covers [] = {}"
  by (simp add: covers_def)

lemma covers_Cons [simp]: "covers (i # itvs) = {sint (min_time i)..sint (max_time i)} \<union> covers itvs"
  by (auto simp: covers_def)

lemma covers_append [simp]: "covers (as @ bs) = covers as \<union> covers bs"
  by (auto simp: covers_def)

lemma canonical_Nil [simp]: "canonical []"
  by (simp add: canonical_def)

lemma canonical_Cons:
  "canonical (i # itvs) \<longleftrightarrow> sint (min_time i) \<le> sint (max_time i)
     \<and> (\<forall>j \<in> set itvs. sint (max_time i) + 1 < sint (min_time j)) \<and> canonical itvs"
  by (auto simp: canonical_def)

lemma canonical_append:
  "canonical (as @ bs) \<longleftrightarrow> canonical as \<and> canonical bs
     \<and> (\<forall>i \<in> set as. \<forall>j \<in> set bs. sint (max_time i) + 1 < sint (min_time j))"
  by (auto simp: canonical_def sorted_wrt_append)

lemma canonical_dropWhile: "canonical (dropWhile P itvs)" if "canonical itvs"
  using that takeWhile_dropWhile_id [of P itvs] by (metis canonical_append)

lemma kept_beyond:
  assumes "canonical rest" and "j \<in> set (dropWhile (\<lambda>c. \<not> n < sint (min_time c)) rest)"
  shows "n < sint (min_time j)"
proof (cases "dropWhile (\<lambda>c. \<not> n < sint (min_time c)) rest")
  case (Cons k ks)
  then have "n < sint (min_time k)" using hd_dropWhile [of "\<lambda>c. \<not> n < sint (min_time c)" rest] by auto
  moreover have "canonical (k # ks)" using canonical_dropWhile [OF assms(1)] Cons by metis
  ultimately show ?thesis using assms(2) Cons by (fastforce simp: canonical_Cons)
next
  case Nil
  with assms(2) show ?thesis by (metis empty_iff list.set(1))
qed

text \<open>What the inner loop skips is covered by one range up to the end of the last one skipped.\<close>

lemma skipped_cover:
  assumes "canonical gone" and "lo \<le> m + 1"
    and lo: "\<forall>j \<in> set gone. lo < sint (min_time j)" and m: "\<forall>j \<in> set gone. sint (min_time j) \<le> m + 1"
  shows "{lo..m} \<union> covers gone = {lo..if gone = [] then m else max m (sint (max_time (last gone)))}"
proof (cases gone rule: rev_cases)
  case (snoc g l)
  have "covers g \<subseteq> {lo..m}"
    using assms snoc by (fastforce simp: covers_def canonical_append)
  moreover have "{lo..m} \<union> {sint (min_time l)..sint (max_time l)} = {lo..max m (sint (max_time l))}"
    using assms snoc by auto
  ultimately show ?thesis using snoc by auto
qed simp

lemma absorb_union:
  assumes can: "canonical (i # rest)" and x: "sint (min_time x) \<le> sint (max_time x)" "sint (max_time x) < 2 ^ 63 - 1"
    and i: "sint (min_time i) \<le> sint (min_time x)" "sint (min_time x) \<le> sint (max_time i) + 1"
  shows "canonical (absorb i x rest)"
    and "covers (absorb i x rest) = {sint (min_time x)..sint (max_time x)} \<union> covers (i # rest)"
proof -
  define reached where "reached = (\<lambda>c :: Interval. \<not> sint (max_time x) + 1 < sint (min_time c))"
  define gone where "gone = takeWhile reached rest"
  define kept where "kept = dropWhile reached rest"
  define m where "m = max (sint (max_time i)) (sint (max_time x))"
  define hi where "hi = (if gone = [] then m else max m (sint (max_time (last gone))))"
  have rest: "rest = gone @ kept" by (simp add: gone_def kept_def)
  have out: "\<exists>j. absorb i x rest = j # kept \<and> min_time j = min_time i \<and> sint (max_time j) = hi"
    using x by (auto simp: absorb_def Let_def hi_def m_def gone_def kept_def reached_def sint_plus_1)
  have g: "\<forall>j \<in> set gone. sint (min_time j) \<le> sint (max_time x) + 1"
    by (auto simp: gone_def reached_def dest: set_takeWhileD)
  have k: "\<forall>j \<in> set kept. sint (max_time x) + 1 < sint (min_time j)"
    using kept_beyond [of rest] can unfolding kept_def reached_def canonical_Cons by blast
  have sep: "canonical gone" "canonical kept"
     "\<forall>a \<in> set gone. \<forall>b \<in> set kept. sint (max_time a) + 1 < sint (min_time b)"
     "\<forall>b \<in> set gone \<union> set kept. sint (max_time i) + 1 < sint (min_time b)" "sint (min_time i) \<le> sint (max_time i)"
    using can by (auto simp: rest canonical_Cons canonical_append)
  have cov: "{sint (min_time i)..m} \<union> covers gone = {sint (min_time i)..hi}"
    unfolding hi_def by (rule skipped_cover) (use sep g in \<open>force simp: m_def\<close>)+
  have "\<forall>b \<in> set kept. hi + 1 < sint (min_time b)"
    using k sep(3,4) last_in_set [of gone] by (auto simp: hi_def m_def max_def)
  moreover have "sint (min_time i) \<le> hi" using sep(5) by (auto simp: hi_def m_def)
  ultimately show "canonical (absorb i x rest)" using out sep(2) by (auto simp: canonical_Cons)
  have "{sint (min_time i)..m} = {sint (min_time x)..sint (max_time x)} \<union> {sint (min_time i)..sint (max_time i)}"
    using i x by (auto simp: m_def)
  then show "covers (absorb i x rest) = {sint (min_time x)..sint (max_time x)} \<union> covers (i # rest)"
    using out cov by (auto simp: rest)
qed

lemma in_bounds_near:
  assumes "sint (min_time i) \<le> sint (max_time i)"
  shows "- (2 ^ 63) < sint t \<Longrightarrow> in_bounds i t \<or> in_bounds i (t - 1) \<longleftrightarrow>
      sint (min_time i) \<le> sint t \<and> sint t \<le> sint (max_time i) + 1"
    and "sint t < 2 ^ 63 - 1 \<Longrightarrow> in_bounds i t \<or> in_bounds i (t + 1) \<longleftrightarrow>
      sint (min_time i) \<le> sint t + 1 \<and> sint t \<le> sint (max_time i)"
  using assms by (auto simp: in_bounds_def sint_minus_1 sint_plus_1)

lemma in_bounds_touch:
  assumes "sint (min_time i) \<le> sint (max_time i)" "sint (min_time i) \<le> sint t" "sint t \<le> sint (max_time i) + 1"
  shows "in_bounds i t \<or> in_bounds i (t - 1)"
proof (cases "- (2 ^ 63) < sint t")
  case False
  then have "sint t \<le> sint (max_time i)" using sint_ge [of "max_time i"] by simp
  then show ?thesis using assms(2) by (simp add: in_bounds_def)
qed (use in_bounds_near(1) [OF assms(1)] assms(2,3) in simp)

lemma canonical_Cons_covers:
  "canonical (i # itvs) \<longleftrightarrow> sint (min_time i) \<le> sint (max_time i)
     \<and> (\<forall>t \<in> covers itvs. sint (max_time i) + 1 < t) \<and> canonical itvs"
  by (fastforce simp: canonical_Cons covers_def canonical_def)

lemma itvls_add_canonical:
  assumes "canonical itvs" and "sint (min_time x) \<le> sint (max_time x)" and "addable itvs x"
    and "- (2 ^ 63) < sint (min_time x)" and "sint (max_time x) < 2 ^ 63 - 1"
  shows "canonical (itvls_add itvs x)
    \<and> covers (itvls_add itvs x) = {sint (min_time x)..sint (max_time x)} \<union> covers itvs"
  using assms
proof (induction itvs)
  case (Cons i rest)
  note x = Cons.prems(2,4,5)
  have i: "sint (min_time i) \<le> sint (max_time i)" and rest: "canonical rest"
    using Cons.prems(1) by (simp_all add: canonical_Cons)
  note near = in_bounds_near(1) [OF i x(2)] in_bounds_near(2) [OF i x(3)]
  consider (touch) "sint (min_time i) \<le> sint (min_time x)" "sint (min_time x) \<le> sint (max_time i) + 1"
    | (behind) "sint (max_time i) + 1 < sint (min_time x)"
    | (before) "sint (min_time x) < sint (min_time i)" using i by linarith
  then show ?case
  proof cases
    case touch
    then show ?thesis using absorb_union [OF Cons.prems(1) x(1,3) touch] near by simp
  next
    case behind
    have "addable rest x" using Cons.prems(3) behind by (auto simp: addable_def)
    from Cons.IH [OF rest x(1) this x(2,3)] show ?thesis
      using behind near x(1) i Cons.prems(1) by (auto simp: canonical_Cons_covers)
  next
    case before
    then have "\<not> list_ex (\<lambda>i. sint (min_time i) \<le> sint (min_time x) \<and> sint (min_time x) \<le> sint (max_time i) + 1) (i # rest)"
      using Cons.prems(1) by (fastforce simp: list_ex_iff canonical_Cons)
    then have "sint (max_time x) \<le> sint (max_time i)"
      using Cons.prems(3) before by (auto simp: addable_def)
    then show ?thesis using before near x(1) i Cons.prems(1) by (auto simp: canonical_Cons)
  qed
qed (simp add: canonical_Cons)

text \<open>Ranges that end in front of the new one are passed; one behind all others is appended.\<close>

lemma itvls_add_skip:
  assumes "\<forall>i \<in> set pre. sint (min_time i) \<le> sint (max_time i) \<and> sint (max_time i) + 1 < sint (min_time x)"
    and "sint (min_time x) \<le> sint (max_time x)" and "sint (max_time x) < 2 ^ 63 - 1"
  shows "itvls_add (pre @ rest) x = pre @ itvls_add rest x"
  using assms
proof (induction pre)
  case (Cons i pre)
  then have i: "sint (min_time i) \<le> sint (max_time i)" "sint (max_time i) + 1 < sint (min_time x)" by auto
  then have "- (2 ^ 63) < sint (min_time x)" using sint_ge [of "max_time i"] by simp
  then show ?case using Cons i in_bounds_near [OF i(1)] by simp
qed simp

lemma itvls_add_behind:
  assumes "canonical (itvs @ [x])" and "sint (max_time x) < 2 ^ 63 - 1"
  shows "itvls_add itvs x = itvs @ [x]"
  using itvls_add_skip [of itvs x "[]"] assms by (simp add: canonical_append canonical_Cons) (simp add: canonical_def)

lemma intervals_equal_loop_iff:
  "length as = length bs \<Longrightarrow> intervals_equal_loop as bs \<longleftrightarrow> as = bs" for as bs :: Intervals
  by (induction as bs rule: intervals_equal_loop.induct) auto

subsection \<open>Tombstones in memory\<close>

text \<open>
  The tombstones of each series. An \<open>unordered_map\<close> is a map, and the order in which a loop
  visits it is the argument \<open>order\<close> of the operations that loop.
\<close>

record MemTombstones =
  interval_groups :: "u64 \<rightharpoonup> Intervals"

definition MemTombstones_new :: MemTombstones where
  "MemTombstones_new = \<lparr>interval_groups = Map.empty\<rparr>"

definition mt_get :: "MemTombstones \<Rightarrow> u64 \<Rightarrow> Intervals result" where
  "mt_get mt ref = (case interval_groups mt ref of Some itvs \<Rightarrow> Ok itvs | None \<Rightarrow> Throw)"

definition mt_pairs :: "MemTombstones \<Rightarrow> u64 list \<Rightarrow> (u64 \<times> Intervals) list" where
  "mt_pairs mt order = map (\<lambda>ref. (ref, the (interval_groups mt ref))) order"

definition mt_iter :: "('s \<Rightarrow> u64 \<Rightarrow> Intervals \<Rightarrow> 's) \<Rightarrow> MemTombstones \<Rightarrow> u64 list \<Rightarrow> 's \<Rightarrow> 's" where
  "mt_iter f mt order s = foldl (\<lambda>s (ref, itvs). f s ref itvs) s (mt_pairs mt order)"

fun mt_iter_err_loop :: "(u64 \<Rightarrow> Intervals \<Rightarrow> 'e option) \<Rightarrow> (u64 \<times> Intervals) list \<Rightarrow> 'e option" where
  "mt_iter_err_loop f [] = None"
| "mt_iter_err_loop f ((ref, itvs) # ps) =
     (case f ref itvs of Some err \<Rightarrow> Some err | None \<Rightarrow> mt_iter_err_loop f ps)"

definition mt_total :: "MemTombstones \<Rightarrow> u64 list \<Rightarrow> u64" where
  "mt_total mt order = foldl (\<lambda>r (_, itvs). r + of_nat (length itvs)) 0 (mt_pairs mt order)"

definition mt_group :: "MemTombstones \<Rightarrow> u64 \<Rightarrow> Intervals" where
  "mt_group mt ref = (case interval_groups mt ref of Some itvs \<Rightarrow> itvs | None \<Rightarrow> [])"

definition add_interval :: "MemTombstones \<Rightarrow> u64 \<Rightarrow> Interval \<Rightarrow> MemTombstones" where
  "add_interval mt ref itvl =
     mt\<lparr>interval_groups := (interval_groups mt)(ref \<mapsto> itvls_add (mt_group mt ref) itvl)\<rparr>"

subsection \<open>Properties\<close>

lemma mt_group_add:
  "mt_group (add_interval mt ref x) r = (if r = ref then itvls_add (mt_group mt ref) x else mt_group mt r)"
  by (simp add: mt_group_def add_interval_def)

text \<open>The time stamp right behind a range is not covered.\<close>

lemma canonical_gap: "canonical itvs \<Longrightarrow> i \<in> set itvs \<Longrightarrow> sint (max_time i) + 1 \<notin> covers itvs"
proof (induction itvs)
  case (Cons j js)
  show ?case
  proof (cases "i = j")
    case False
    then have "i \<in> set js" using Cons.prems(2) by simp
    with Cons have "sint (max_time i) + 1 \<notin> covers js" by (simp add: canonical_Cons)
    moreover have "sint (max_time j) < sint (max_time i)"
      using Cons.prems(1) \<open>i \<in> set js\<close> by (force simp: canonical_def)
    ultimately show ?thesis by simp
  qed (use Cons.prems(1) in \<open>auto simp: canonical_Cons_covers\<close>)
qed simp

text \<open>Tombstones as \<open>add_interval\<close> leaves them.\<close>

definition itvs_ok :: "Intervals \<Rightarrow> bool" where
  "itvs_ok itvs \<longleftrightarrow> canonical itvs \<and> (\<forall>i \<in> set itvs. sint (max_time i) < 2 ^ 63 - 1)"

definition tombs_ok :: "MemTombstones \<Rightarrow> bool" where
  "tombs_ok mt \<longleftrightarrow> (\<forall>itvs \<in> ran (interval_groups mt). itvs \<noteq> [] \<and> itvs_ok itvs)"

lemma canonical_max_covered: "canonical itvs \<Longrightarrow> i \<in> set itvs \<Longrightarrow> sint (max_time i) \<in> covers itvs"
  by (auto simp: canonical_def covers_def)

lemma itvs_ok_covers: "itvs_ok itvs \<longleftrightarrow> canonical itvs \<and> (\<forall>t \<in> covers itvs. t < 2 ^ 63 - 1)"
  by (auto simp: itvs_ok_def covers_def dest: canonical_max_covered)

lemma itvls_add_nonempty: "itvls_add itvs x \<noteq> []"
  by (induction itvs x rule: itvls_add.induct) (auto simp: absorb_def Let_def)

lemma tombs_ok_group: "tombs_ok mt \<Longrightarrow> itvs_ok (mt_group mt ref)"
  by (auto simp: tombs_ok_def mt_group_def itvs_ok_def ran_def split: option.split)

text \<open>
  C8: adding a deleted range keeps the tombstones well formed (the ranges of each series ordered,
  separated and not empty) and makes the series cover exactly the time stamps it covered before
  and those of the new range; the other series do not change. The range must not touch the ends
  of the 64-bit time axis, where the code's \<open>\<plusminus> 1\<close> overflows, and must be one the loop
  handles: it starts inside or right behind an existing range, or contains none.
\<close>

theorem add_interval_deletes:
  assumes "tombs_ok mt" and "sint (min_time x) \<le> sint (max_time x)" and "addable (mt_group mt ref) x"
    and "- (2 ^ 63) < sint (min_time x)" and "sint (max_time x) < 2 ^ 63 - 1"
  shows "tombs_ok (add_interval mt ref x)
    \<and> covers (mt_group (add_interval mt ref x) r)
        = (if r = ref then covers (mt_group mt r) \<union> {sint (min_time x)..sint (max_time x)}
           else covers (mt_group mt r))"
proof -
  have g: "itvs_ok (mt_group mt ref)" using assms(1) by (rule tombs_ok_group)
  then have add: "canonical (itvls_add (mt_group mt ref) x)
      \<and> covers (itvls_add (mt_group mt ref) x) = {sint (min_time x)..sint (max_time x)} \<union> covers (mt_group mt ref)"
    using itvls_add_canonical [OF _ assms(2-)] by (simp add: itvs_ok_def)
  then have "itvs_ok (itvls_add (mt_group mt ref) x)"
    using g assms(5) by (auto simp: itvs_ok_covers)
  then have "tombs_ok (add_interval mt ref x)"
    using assms(1) itvls_add_nonempty by (auto simp: tombs_ok_def add_interval_def ran_def)
  then show ?thesis using add by (auto simp: mt_group_add)
qed

theorem add_interval_deletes_witness:
  "let mt = \<lparr>interval_groups = [7 \<mapsto> [Interval_of 1 3, Interval_of 8 9, Interval_of 20 30]]\<rparr>;
       mt' = add_interval mt 7 (Interval_of 4 9)
   in tombs_ok mt' \<and> covers (mt_group mt' 7) = covers (mt_group mt 7) \<union> {4..9}
      \<and> mt_group mt' 7 = [Interval_of 1 9, Interval_of 20 30]"
proof -
  let ?mt = "\<lparr>interval_groups = [7 \<mapsto> [Interval_of 1 3, Interval_of 8 9, Interval_of 20 30]]\<rparr>"
  have "tombs_ok (add_interval ?mt 7 (Interval_of 4 9))
    \<and> covers (mt_group (add_interval ?mt 7 (Interval_of 4 9)) 7) = covers (mt_group ?mt 7) \<union> {4..9}"
    using add_interval_deletes [of ?mt "Interval_of 4 9" 7 7]
    by (simp add: mt_group_def tombs_ok_def itvs_ok_def Interval_of_def canonical_Cons addable_def)
  moreover have "mt_group (add_interval ?mt 7 (Interval_of 4 9)) 7 = [Interval_of 1 9, Interval_of 20 30]"
    by (simp add: mt_group_def add_interval_def Interval_of_def in_bounds_def absorb_def Let_def)
  ultimately show ?thesis by (simp add: Let_def)
qed

text \<open>
  A range is in the ranges of a list according to \<open>is_subrange\<close> exactly when the list covers
  each of its time stamps, provided the list is ordered and separated.
\<close>

lemma is_subrange_iff_covered:
  assumes "canonical itvs" and "sint mi \<le> sint ma"
  shows "is_subrange mi ma itvs \<longleftrightarrow> {sint mi..sint ma} \<subseteq> covers itvs"
proof
  assume "is_subrange mi ma itvs"
  then show "{sint mi..sint ma} \<subseteq> covers itvs"
    by (auto simp: is_subrange_def list_ex_iff in_bounds_def covers_def) (meson order_trans)
next
  assume sub: "{sint mi..sint ma} \<subseteq> covers itvs"
  then have "sint mi \<in> covers itvs" using assms(2) by auto
  then obtain i where i: "i \<in> set itvs" "sint (min_time i) \<le> sint mi" "sint mi \<le> sint (max_time i)"
    by (auto simp: covers_def)
  have "sint ma \<le> sint (max_time i)"
  proof (rule ccontr)
    assume "\<not> ?thesis"
    then have "sint (max_time i) + 1 \<in> {sint mi..sint ma}" using i by simp
    with sub have "sint (max_time i) + 1 \<in> covers itvs" by blast
    with canonical_gap [OF assms(1) i(1)] show False by blast
  qed
  then show "is_subrange mi ma itvs"
    using i assms(2) unfolding is_subrange_def list_ex_iff in_bounds_def by (meson order_trans)
qed

text \<open>A range that starts in front of existing ones and contains the next is inserted as it is.\<close>

lemma itvls_add_containing:
  assumes "sint (min_time b) \<le> sint (max_time b)" "sint (min_time x) < sint (min_time b)"
    "sint (max_time b) < sint (max_time x)" "- (2 ^ 63) < sint (min_time x)" "sint (max_time x) < 2 ^ 63 - 1"
  shows "itvls_add (b # post) x = x # b # post"
  using in_bounds_near [OF assms(1)] assms by simp

text \<open>
  A range that starts in \<open>a\<close> and reaches \<open>b\<close> over such a range \<open>x\<close> takes the end of \<open>b\<close>, not
  the end of \<open>x\<close>.
\<close>

lemma absorb_containing:
  assumes "sint (max_time a) < sint (max_time b)" "sint (min_time x) < sint (min_time b)"
    "sint (min_time b) \<le> sint (max_time y) + 1" "sint (max_time y) < 2 ^ 63 - 1"
    "\<forall>j \<in> set post. sint (max_time y) + 1 < sint (min_time j)"
  shows "absorb a y (x # b # post)
    = a\<lparr>max_time := (if sint (max_time y) < sint (max_time b) then max_time b else max_time y)\<rparr> # post"
proof -
  have "takeWhile (\<lambda>c. \<not> sint (max_time y + 1) < sint (min_time c)) post = []
      \<and> dropWhile (\<lambda>c. \<not> sint (max_time y + 1) < sint (min_time c)) post = post"
    using assms(4,5) by (cases post) (auto simp: sint_plus_1)
  then show ?thesis using assms(1-4) by (simp add: absorb_def Let_def sint_plus_1)
qed

lemma lost_stamps:
  fixes P Q :: "int set"
  assumes "\<And>t. t \<in> P \<Longrightarrow> t < a1" "\<And>t. t \<in> Q \<Longrightarrow> x2 < t" "a1 \<le> a2" "b1 \<le> b2" "a2 + 1 < b1"
    "a2 + 1 < x1" "x1 < b1" "b2 < x2" "a1 \<le> y1" "y1 \<le> a2 + 1" "b1 \<le> y2 + 1" "y2 < x2"
  shows "P \<union> ({a1..max y2 b2} \<union> Q)
    = (P \<union> ({a1..a2} \<union> ({x1..x2} \<union> ({b1..b2} \<union> Q))) \<union> {y1..y2}) - {max y2 b2 + 1..x2}"
proof (rule set_eqI)
  fix t
  define m where "m = max y2 b2"
  have m: "y2 \<le> m" "b2 \<le> m" "m < x2" "m = y2 \<or> m = b2" using assms by (auto simp: m_def)
  consider "t \<in> P" | "t \<in> Q" | "t \<notin> P" "t \<notin> Q" by blast
  then show "t \<in> P \<union> ({a1..max y2 b2} \<union> Q)
    \<longleftrightarrow> t \<in> (P \<union> ({a1..a2} \<union> ({x1..x2} \<union> ({b1..b2} \<union> Q))) \<union> {y1..y2}) - {max y2 b2 + 1..x2}"
  proof cases
    case 1
    then show ?thesis using assms(1) [OF 1] assms(3-) m unfolding m_def [symmetric] by simp
  next
    case 2
    then show ?thesis using assms(2) [OF 2] by simp
  next
    case 3
    then have "?thesis \<longleftrightarrow> (a1 \<le> t \<and> t \<le> m \<longleftrightarrow> (a1 \<le> t \<and> t \<le> a2 \<or> x1 \<le> t \<and> t \<le> x2 \<or> b1 \<le> t \<and> t \<le> b2 \<or> y1 \<le> t \<and> t \<le> y2)
        \<and> \<not> (m + 1 \<le> t \<and> t \<le> x2))" by (simp add: m_def)
    also have "\<dots>"
    proof -
      consider "t < a1" | "m < t" | "a1 \<le> t" "t \<le> a2" | "a2 < t" "t \<le> y2" | "y2 < t" "t \<le> m" by linarith
      then show ?thesis by cases (use assms(3-) m in auto)
    qed
    finally show ?thesis by simp
  qed
qed

text \<open>
  C37: Adding a range that no longer touches the ranges in front of it and contains the next
  one is not merged with it: the list covers the new time stamps but its ranges overlap. Adding a
  further range then loses some of them. Let \<open>x\<close> contain \<open>b\<close> and start behind \<open>a\<close>,
  the range in front of \<open>b\<close>, and let \<open>y\<close> start in \<open>a\<close> or right behind it, reach \<open>b\<close>
  and end before \<open>x\<close> does. After adding \<open>x\<close> and \<open>y\<close> the time stamps of \<open>x\<close>
  behind both \<open>y\<close> and \<open>b\<close> are no longer deleted, although nothing was removed.
\<close>

theorem contained_range_loses_coverage:
  assumes "canonical (pre @ a # b # post)"
    and "sint (max_time a) + 1 < sint (min_time x)" "sint (min_time x) < sint (min_time b)"
      "sint (max_time b) < sint (max_time x)" "sint (max_time x) < 2 ^ 63 - 1"
      "\<forall>j \<in> set post. sint (max_time x) < sint (min_time j)"
    and "sint (min_time a) \<le> sint (min_time y)" "sint (min_time y) \<le> sint (max_time a) + 1"
      "sint (min_time b) \<le> sint (max_time y) + 1" "sint (max_time y) < sint (max_time x)"
  shows "let itvs = pre @ a # b # post; once = itvls_add itvs x; twice = itvls_add once y
    in covers once = covers itvs \<union> {sint (min_time x)..sint (max_time x)} \<and> \<not> canonical once
      \<and> covers twice = (covers once \<union> {sint (min_time y)..sint (max_time y)})
          - {max (sint (max_time y)) (sint (max_time b)) + 1..sint (max_time x)}"
proof -
  let ?itvs = "pre @ a # b # post"
  define m where "m = (if sint (max_time y) < sint (max_time b) then max_time b else max_time y)"
  have c: "sint (min_time a) \<le> sint (max_time a)" "sint (min_time b) \<le> sint (max_time b)"
      "sint (max_time a) + 1 < sint (min_time b)"
      "\<forall>i \<in> set pre. sint (min_time i) \<le> sint (max_time i) \<and> sint (max_time i) + 1 < sint (min_time a)"
    using assms(1) by (simp_all add: canonical_append canonical_Cons) (simp add: canonical_def)
  have y: "sint (min_time y) \<le> sint (max_time y)" "sint (max_time y) < 2 ^ 63 - 1" using c(3) assms(5,8,9,10) by linarith+
  have lo: "- (2 ^ 63) < sint (min_time x)" using assms(2) sint_ge [of "max_time a"] by simp
  have "itvls_add ((pre @ [a]) @ b # post) x = (pre @ [a]) @ itvls_add (b # post) x"
    using c assms(2-5) by (intro itvls_add_skip) auto
  then have once: "itvls_add ?itvs x = pre @ a # x # b # post"
    using itvls_add_containing [OF c(2) assms(3,4) lo assms(5)] by simp
  have "itvls_add (pre @ a # x # b # post) y = pre @ itvls_add (a # x # b # post) y"
  proof (rule itvls_add_skip)
    show "\<forall>i \<in> set pre. sint (min_time i) \<le> sint (max_time i) \<and> sint (max_time i) + 1 < sint (min_time y)"
      using c(4) assms(7) by fastforce
  qed (use y in simp_all)
  also have "itvls_add (a # x # b # post) y = absorb a y (x # b # post)"
    using in_bounds_touch [OF c(1) assms(7,8)] by simp
  also have "\<dots> = a\<lparr>max_time := m\<rparr> # post"
    unfolding m_def
  proof (rule absorb_containing)
    show "\<forall>j \<in> set post. sint (max_time y) + 1 < sint (min_time j)" using assms(6,10) by fastforce
  qed (use c(2,3) assms(3,9) y in simp_all)
  finally have twice: "itvls_add (pre @ a # x # b # post) y = pre @ a\<lparr>max_time := m\<rparr> # post" .
  have m: "sint m = max (sint (max_time y)) (sint (max_time b))" by (simp add: m_def max_def)
  have "\<not> canonical (itvls_add ?itvs x)"
    unfolding once using assms(3) c(2) assms(4) by (auto simp: canonical_append canonical_Cons)
  moreover have "covers (itvls_add ?itvs x) = covers ?itvs \<union> {sint (min_time x)..sint (max_time x)}"
    unfolding once by auto
  moreover have "covers (itvls_add (itvls_add ?itvs x) y)
      = (covers (itvls_add ?itvs x) \<union> {sint (min_time y)..sint (max_time y)})
        - {max (sint (max_time y)) (sint (max_time b)) + 1..sint (max_time x)}"
  proof -
    have "t < sint (min_time a)" if "t \<in> covers pre" for t using that c(4) by (fastforce simp: covers_def)
    moreover have "sint (max_time x) < t" if "t \<in> covers post" for t using that assms(6) by (fastforce simp: covers_def)
    ultimately show ?thesis unfolding once twice covers_append covers_Cons
      using lost_stamps [OF _ _ c(1-3) assms(2-4,7-10), of "covers pre" "covers post"] by (simp add: m Un_assoc)
  qed
  ultimately show ?thesis by (simp only: Let_def simp_thms)
qed

theorem contained_range_loses_coverage_witness:
  "let once = itvls_add [Interval_of 0 1, Interval_of 10 20] (Interval_of 5 100)
   in covers once = {0..1} \<union> {5..100} \<and> covers (itvls_add once (Interval_of 1 50)) = {0..50}"
  using contained_range_loses_coverage [of "[]" "Interval_of 0 1" "Interval_of 10 20" "[]" "Interval_of 5 100" "Interval_of 1 50"]
  by (simp add: Interval_of_def canonical_Cons Let_def) auto

end
