(* ===== verification/SeriesIterator.thy ===== *)
theory SeriesIterator
  imports ChunkMerge Intervals
begin

text \<open>
  The iterators a query reads samples with: \<open>src/chunk/DeleteIterator.cpp\<close> leaves out deleted
  samples of one chunk, and \<open>src/querier/ChunkSeriesIterator.cpp\<close> runs over the chunks of a
  series inside a time range. Every iterator is compared with the list of samples it yields.
\<close>

subsection \<open>DeleteIterator\<close>

record DeleteIterator =
  di_it :: XORIterator
  di_itvls :: Intervals

text \<open>
  \<open>next\<close> stores the sample in a pair of \<open>int\<close>. The time stamp keeps its lower 32 bits and is
  compared as \<open>int64_t\<close> again. The value is not used, but its conversion is defined only if
  the double, rounded towards zero, is in the range of \<open>int\<close>: its magnitude is below
  \<open>2 ^ 31\<close>, or it is negative and rounds to \<open>- (2 ^ 31)\<close>.
\<close>

definition as_int :: "i64 \<Rightarrow> i64" where
  "as_int t = scast (ucast t :: u32)"

definition double_fits_int :: "double \<Rightarrow> bool" where
  "double_fits_int d =
     (let exponent = unat (drop_bit 52 d AND 0x7ff); fraction = d AND (2 ^ 52 - 1)
      in exponent < 1023 + 31 \<or> exponent = 1023 + 31 \<and> bit d 63 \<and> drop_bit 21 fraction = 0)"

text \<open>
  The inner loop over the intervals that are left, for the time stamp \<open>p\<close>: whether the sample is
  skipped, and the intervals left after it.
\<close>

fun di_skip :: "Intervals \<Rightarrow> i64 \<Rightarrow> bool \<times> Intervals" where
  "di_skip [] p = (False, [])"
| "di_skip (i # itvls) p =
     (if in_bounds i p then (True, i # itvls)
      else if sint p > sint (max_time i) then di_skip itvls p
      else (False, i # itvls))"

function di_next :: "DeleteIterator \<Rightarrow> (bool \<times> DeleteIterator) result" where
  "di_next d =
     res_bind (xi_step (di_it d)) (\<lambda>(more, it).
       if \<not> more then Ok (False, d\<lparr>di_it := it\<rparr>)
       else if \<not> double_fits_int (snd (xi_at it)) then Undef
       else let (deleted, itvls) = di_skip (di_itvls d) (as_int (fst (xi_at it)));
                d' = \<lparr>di_it = it, di_itvls = itvls\<rparr>
            in if deleted then di_next d' else Ok (True, d'))"
  by pat_completeness auto
termination
  by (relation "measure (\<lambda>d. xi_left True (di_it d))") (auto dest!: xi_step_less)

declare di_next.simps [simp del]

definition di_at :: "DeleteIterator \<Rightarrow> sample" where
  "di_at d = xi_at (di_it d)"

definition di_error :: "DeleteIterator \<Rightarrow> bool" where
  "di_error d = xi_err (di_it d)"

lemma di_next_less: "di_next d = Ok (True, d') \<Longrightarrow> xi_left True (di_it d') < xi_left True (di_it d)"
proof (induction d rule: di_next.induct)
  case (1 d)
  from "1.prems" obtain it where st: "xi_step (di_it d) = Ok (True, it)" and fits: "double_fits_int (snd (xi_at it))"
    by (subst (asm) di_next.simps) (auto simp: res_bind_eq_Ok split: if_splits)
  obtain del itvs where sk: "di_skip (di_itvls d) (as_int (fst (xi_at it))) = (del, itvs)" by fastforce
  from xi_step_less [OF st] have less: "xi_left True it < xi_left True (di_it d)" .
  show ?case
  proof (cases del)
    case True
    then have "di_next d = di_next \<lparr>di_it = it, di_itvls = itvs\<rparr>" using st fits sk by (subst di_next.simps) simp
    with "1.IH" [OF st refl _ _ sk [symmetric] refl] True fits "1.prems" less show ?thesis by force
  next
    case False
    then have "di_next d = Ok (True, \<lparr>di_it = it, di_itvls = itvs\<rparr>)" using st fits sk by (subst di_next.simps) simp
    with "1.prems" less show ?thesis by auto
  qed
qed

subsection \<open>The iterator over one chunk\<close>

datatype ChunkIterator = Plain XORIterator | Deleting DeleteIterator

fun ci_next :: "ChunkIterator \<Rightarrow> (bool \<times> ChunkIterator) result" where
  "ci_next (Plain it) = res_bind (xi_step it) (\<lambda>(b, it). Ok (b, Plain it))"
| "ci_next (Deleting d) = res_bind (di_next d) (\<lambda>(b, d). Ok (b, Deleting d))"

fun ci_at :: "ChunkIterator \<Rightarrow> sample" where
  "ci_at (Plain it) = xi_at it"
| "ci_at (Deleting d) = di_at d"

fun ci_error :: "ChunkIterator \<Rightarrow> bool" where
  "ci_error (Plain it) = xi_err it"
| "ci_error (Deleting d) = di_error d"

fun ci_left :: "ChunkIterator \<Rightarrow> nat" where
  "ci_left (Plain it) = xi_left True it"
| "ci_left (Deleting d) = xi_left True (di_it d)"

lemma ci_next_less: "ci_next c = Ok (True, c') \<Longrightarrow> ci_left c' < ci_left c"
  by (cases c) (auto simp: res_bind_eq_Ok dest: xi_step_less di_next_less)

subsection \<open>ChunkSeriesIterator\<close>

text \<open>\<open>csi_cur\<close> is \<open>None\<close> for the null pointer an iterator over no chunks keeps.\<close>

record ChunkSeriesIterator =
  csi_chunks :: "ChunkMeta list"
  csi_i :: nat
  csi_cur :: "ChunkIterator option"
  csi_min_time :: i64
  csi_max_time :: i64
  csi_intervals :: Intervals
  csi_err :: bool

definition open_chunk :: "(nat \<Rightarrow> nat \<Rightarrow> u8) \<Rightarrow> nat \<Rightarrow> Intervals \<Rightarrow> ChunkMeta \<Rightarrow> ChunkIterator result" where
  "open_chunk mem i intervals c =
     res_bind (xc_iterator (mem i) (cm_chunk c)) (\<lambda>temp.
       Ok (if intervals \<noteq> [] then Deleting \<lparr>di_it = temp, di_itvls = intervals\<rparr> else Plain temp))"

definition ChunkSeriesIterator_new ::
    "(nat \<Rightarrow> nat \<Rightarrow> u8) \<Rightarrow> ChunkMeta list \<Rightarrow> Intervals \<Rightarrow> i64 \<Rightarrow> i64 \<Rightarrow> ChunkSeriesIterator result" where
  "ChunkSeriesIterator_new mem chunks intervals mint maxt =
     (let s = \<lparr>csi_chunks = chunks, csi_i = 0, csi_cur = None, csi_min_time = mint,
               csi_max_time = maxt, csi_intervals = intervals, csi_err = False\<rparr>
      in if chunks = [] then Ok (s\<lparr>csi_err := True\<rparr>)
         else res_bind (open_chunk mem 0 intervals (hd chunks)) (\<lambda>cur. Ok (s\<lparr>csi_cur := Some cur\<rparr>)))"

text \<open>The first chunk from \<open>i\<close> on that reaches \<open>t\<close>; \<open>False\<close> when the last one does not.\<close>

function csi_forward :: "ChunkMeta list \<Rightarrow> i64 \<Rightarrow> nat \<Rightarrow> bool \<times> nat" where
  "csi_forward chunks t i =
     (if i < length chunks \<and> sint t > sint (cm_max_time (chunks ! i))
      then if i = length chunks - 1 then (False, i) else csi_forward chunks t (i + 1)
      else (True, i))"
  by pat_completeness auto
termination
  by (relation "measure (\<lambda>(chunks, _, i). length chunks - i)") auto

function csi_scan :: "ChunkIterator \<Rightarrow> i64 \<Rightarrow> (bool \<times> ChunkIterator) result" where
  "csi_scan cur t =
     res_bind (ci_next cur) (\<lambda>(more, cur').
       if \<not> more then Ok (False, cur')
       else if sint (fst (ci_at cur')) \<ge> sint t then Ok (True, cur')
       else csi_scan cur' t)"
  by pat_completeness auto
termination
  by (relation "measure (\<lambda>(cur, _). ci_left cur)") (auto intro: ci_next_less)

declare csi_forward.simps [simp del] csi_scan.simps [simp del]

definition csi_seek :: "(nat \<Rightarrow> nat \<Rightarrow> u8) \<Rightarrow> i64 \<Rightarrow> ChunkSeriesIterator \<Rightarrow> (bool \<times> ChunkSeriesIterator) result" where
  "csi_seek mem t s =
     (if csi_err s then Ok (False, s)
      else if sint t > sint (csi_max_time s) then Ok (False, s)
      else let t = (if sint t < sint (csi_min_time s) then csi_min_time s else t);
               (found, i) = csi_forward (csi_chunks s) t (csi_i s)
           in if \<not> found then Ok (False, s\<lparr>csi_i := i\<rparr>)
              else res_bind (if csi_i s \<noteq> i
                             then res_bind (open_chunk mem i (csi_intervals s) (csi_chunks s ! i)) (\<lambda>c. Ok (Some c))
                             else Ok (csi_cur s)) (\<lambda>cur.
                   case cur of None \<Rightarrow> Undef
                   | Some cur \<Rightarrow> res_bind (csi_scan cur t) (\<lambda>(b, cur).
                       Ok (b, s\<lparr>csi_i := i, csi_cur := Some cur\<rparr>))))"

definition csi_at :: "ChunkSeriesIterator \<Rightarrow> sample" where
  "csi_at s = ci_at (the (csi_cur s))"

function csi_next :: "(nat \<Rightarrow> nat \<Rightarrow> u8) \<Rightarrow> ChunkSeriesIterator \<Rightarrow> (bool \<times> ChunkSeriesIterator) result" where
  "csi_next mem s =
     (case csi_cur s of
        None \<Rightarrow> Undef
      | Some cur \<Rightarrow> res_bind (ci_next cur) (\<lambda>(more, cur).
          let s = s\<lparr>csi_cur := Some cur\<rparr>
          in if more
             then if sint (fst (ci_at cur)) < sint (csi_min_time s)
                  then res_bind (csi_seek mem (csi_min_time s) s) (\<lambda>(b, s).
                         Ok (b \<and> sint (fst (csi_at s)) \<le> sint (csi_max_time s), s))
                  else if sint (fst (ci_at cur)) > sint (csi_max_time s) then Ok (False, s)
                  else Ok (True, s)
             else if ci_error cur then Ok (False, s\<lparr>csi_err := True\<rparr>)
             else if csi_i s + 1 \<ge> length (csi_chunks s) then Ok (False, s)
             else res_bind (open_chunk mem (csi_i s + 1) (csi_intervals s) (csi_chunks s ! (csi_i s + 1))) (\<lambda>cur.
                    csi_next mem (s\<lparr>csi_i := csi_i s + 1, csi_cur := Some cur\<rparr>))))"
  by pat_completeness auto
termination
  by (relation "measure (\<lambda>(_, s). length (csi_chunks s) - csi_i s)") auto

declare csi_next.simps [simp del]

subsection \<open>The contract of an iterator\<close>

text \<open>\<open>streams nxt at s ss fin\<close>: from \<open>s\<close> the loop over \<open>next\<close> sees \<open>ss\<close> and ends in \<open>fin\<close>.\<close>

primrec streams :: "('s \<Rightarrow> (bool \<times> 's) result) \<Rightarrow> ('s \<Rightarrow> sample) \<Rightarrow> 's \<Rightarrow> sample list \<Rightarrow> 's \<Rightarrow> bool" where
  "streams nxt at s [] fin \<longleftrightarrow> nxt s = Ok (False, fin)"
| "streams nxt at s (x # xs) fin \<longleftrightarrow> (\<exists>s'. nxt s = Ok (True, s') \<and> at s' = x \<and> streams nxt at s' xs fin)"

lemma streams_start: "nxt s = nxt s' \<Longrightarrow> streams nxt at s xs fin \<longleftrightarrow> streams nxt at s' xs fin"
  by (cases xs) simp_all

locale iterator_interface =
  fixes nxt :: "'s \<Rightarrow> (bool \<times> 's) result"
    and at :: "'s \<Rightarrow> sample"
    and left :: "'s \<Rightarrow> nat"
  assumes next_less: "nxt s = Ok (True, s') \<Longrightarrow> left s' < left s"
begin

lemma streams_bounded: "streams nxt at s xs fin \<Longrightarrow> length xs \<le> left s"
proof (induction xs arbitrary: s)
  case (Cons x xs)
  then show ?case using next_less by fastforce
qed simp

lemma streams_unique: "streams nxt at s xs fin \<Longrightarrow> streams nxt at s ys fin' \<Longrightarrow> xs = ys \<and> fin = fin'"
proof (induction xs arbitrary: s ys)
  case Nil
  then show ?case by (cases ys) auto
next
  case (Cons x xs)
  then show ?case by (cases ys) auto
qed

end

interpretation xor_iter: iterator_interface xi_step xi_at "xi_left True"
  by unfold_locales (auto dest: xi_step_less)

interpretation delete_iter: iterator_interface di_next di_at "\<lambda>d. xi_left True (di_it d)"
  by unfold_locales (rule di_next_less)

interpretation chunk_iter: iterator_interface ci_next ci_at ci_left
  by unfold_locales (rule ci_next_less)

lemma xi_run_streams: "xi_run it = Ok (ss, fin) \<longleftrightarrow> streams xi_step xi_at it ss fin"
proof (induction ss arbitrary: it)
  case Nil
  show ?case by (auto simp: xi_run_Nil xi_step_def split: prod.splits result.splits)
next
  case (Cons s ss)
  have "xi_next it = (Ok True, it1) \<longleftrightarrow> xi_step it = Ok (True, it1)" for it1
    by (auto simp: xi_step_def split: prod.splits result.splits)
  with Cons show ?case by (simp add: xi_run_Cons)
qed

subsection \<open>Deleted samples\<close>

lemma di_skip_covers:
  assumes "canonical itvs" "di_skip itvs p = (deleted, itvs')"
  shows "deleted \<longleftrightarrow> sint p \<in> covers itvs" and "canonical itvs'"
    and "\<And>t. sint p \<le> t \<Longrightarrow> t \<in> covers itvs' \<longleftrightarrow> t \<in> covers itvs"
  using assms
proof (induction itvs)
  case (Cons i rest)
  {
    case 1
    then show ?case using Cons(1) by (force simp: in_bounds_def canonical_Cons_covers split: if_splits)
  next
    case 2
    then show ?case using Cons(2) by (auto simp: canonical_Cons split: if_splits)
  next
    case (3 t)
    then show ?case using Cons(3) by (auto simp: canonical_Cons split: if_splits)
  }
qed auto

definition visible :: "Intervals \<Rightarrow> sample \<Rightarrow> bool" where
  "visible itvs s \<longleftrightarrow> sint (as_int (fst s)) \<notin> covers itvs"

lemma di_streams:
  assumes "streams xi_step xi_at it ss fin" "canonical itvs"
    "sorted_wrt (\<lambda>x y. sint (as_int (fst x)) < sint (as_int (fst y))) ss" "\<forall>s \<in> set ss. double_fits_int (snd s)"
  shows "\<exists>itvs'. streams di_next di_at \<lparr>di_it = it, di_itvls = itvs\<rparr> (filter (visible itvs) ss)
    \<lparr>di_it = fin, di_itvls = itvs'\<rparr>"
  using assms
proof (induction ss arbitrary: it itvs)
  case Nil
  then show ?case by (auto simp: di_next.simps [of "\<lparr>di_it = it, di_itvls = itvs\<rparr>"])
next
  case (Cons x ss)
  from Cons.prems(1) obtain it1 where st: "xi_step it = Ok (True, it1)" "xi_at it1 = x" "streams xi_step xi_at it1 ss fin"
    by auto
  obtain deleted itvs1 where sk: "di_skip itvs (as_int (fst x)) = (deleted, itvs1)" by fastforce
  note cov = di_skip_covers [OF Cons.prems(2) sk]
  have "filter (visible itvs1) ss = filter (visible itvs) ss"
    using cov(3) Cons.prems(3) by (intro filter_cong) (auto simp: visible_def)
  with Cons.IH [OF st(3) cov(2)] Cons.prems(3,4) obtain itvs' where
    rest: "streams di_next di_at \<lparr>di_it = it1, di_itvls = itvs1\<rparr> (filter (visible itvs) ss) \<lparr>di_it = fin, di_itvls = itvs'\<rparr>"
    by auto
  have vis: "visible itvs x \<longleftrightarrow> \<not> deleted" using cov(1) by (simp add: visible_def)
  let ?d = "\<lparr>di_it = it, di_itvls = itvs\<rparr>" and ?d1 = "\<lparr>di_it = it1, di_itvls = itvs1\<rparr>"
  show ?case
  proof (cases deleted)
    case True
    then have "di_next ?d = di_next ?d1" using st sk Cons.prems(4) by (subst di_next.simps) simp
    from streams_start [of di_next, OF this] rest True vis show ?thesis by auto
  next
    case False
    then have "di_next ?d = Ok (True, ?d1)" using st sk Cons.prems(4) by (subst di_next.simps) simp
    moreover have "di_at ?d1 = x" using st(2) by (simp add: di_at_def)
    ultimately show ?thesis using rest False vis by auto
  qed
qed

subsection \<open>The chunks of a series\<close>

text \<open>What the iterator over the \<open>k\<close>-th chunk yields.\<close>

definition sees :: "(nat \<Rightarrow> nat \<Rightarrow> u8) \<Rightarrow> nat \<Rightarrow> Intervals \<Rightarrow> ChunkMeta \<Rightarrow> sample list \<Rightarrow> bool" where
  "sees mem k itvs c vs \<longleftrightarrow> (\<exists>it fin. open_chunk mem k itvs c = Ok it \<and> streams ci_next ci_at it vs fin \<and> \<not> ci_error fin)"

text \<open>The series iterator in its current chunk with \<open>rest\<close> still to come there.\<close>

definition in_chunk :: "(nat \<Rightarrow> nat \<Rightarrow> u8) \<Rightarrow> sample list list \<Rightarrow> sample list \<Rightarrow> ChunkSeriesIterator \<Rightarrow> bool" where
  "in_chunk mem vss rest s \<longleftrightarrow> \<not> csi_err s \<and> csi_i s < length vss \<and> length vss = length (csi_chunks s)
     \<and> (\<forall>k < length vss. sees mem k (csi_intervals s) (csi_chunks s ! k) (vss ! k))
     \<and> (\<exists>cur fin. csi_cur s = Some cur \<and> streams ci_next ci_at cur rest fin \<and> \<not> ci_error fin)"

lemma in_chunk_cur:
  "in_chunk mem vss rest s \<Longrightarrow> streams ci_next ci_at cur rest' fin \<Longrightarrow> \<not> ci_error fin \<Longrightarrow>
   in_chunk mem vss rest' (s\<lparr>csi_cur := Some cur\<rparr>)"
  by (auto simp: in_chunk_def)

lemma in_chunk_open:
  assumes "in_chunk mem vss rest s" "k < length vss"
  obtains it where "open_chunk mem k (csi_intervals s) (csi_chunks s ! k) = Ok it"
    "in_chunk mem vss (vss ! k) (s\<lparr>csi_i := k, csi_cur := Some it\<rparr>)"
  using assms that by (fastforce simp: in_chunk_def sees_def)

text \<open>A chunk that is used up is left for the next one, without a result in between.\<close>

lemma csi_next_exhausted:
  assumes "in_chunk mem vss [] s" "Suc (csi_i s) < length vss"
  obtains s' where "csi_next mem s = csi_next mem s'" "in_chunk mem vss (vss ! Suc (csi_i s)) s'"
    "csi_i s' = Suc (csi_i s)" "csi_min_time s' = csi_min_time s" "csi_max_time s' = csi_max_time s"
    "csi_chunks s' = csi_chunks s"
proof -
  from assms(1) obtain cur fin where cur: "csi_cur s = Some cur" "ci_next cur = Ok (False, fin)" "\<not> ci_error fin"
    "length vss = length (csi_chunks s)" by (auto simp: in_chunk_def)
  from in_chunk_open [OF assms] obtain it where it:
    "open_chunk mem (Suc (csi_i s)) (csi_intervals s) (csi_chunks s ! Suc (csi_i s)) = Ok it"
    "in_chunk mem vss (vss ! Suc (csi_i s)) (s\<lparr>csi_i := Suc (csi_i s), csi_cur := Some it\<rparr>)" .
  then show thesis
    using cur assms(2) by (intro that [of "s\<lparr>csi_i := Suc (csi_i s), csi_cur := Some it\<rparr>"])
      (simp_all add: csi_next.simps [of mem s] Let_def)
qed

lemma in_chunk_step:
  assumes "in_chunk mem vss (x # xs) s"
  obtains cur cur' where "csi_cur s = Some cur" "ci_next cur = Ok (True, cur')" "ci_at cur' = x"
    "in_chunk mem vss xs (s\<lparr>csi_cur := Some cur'\<rparr>)"
  using assms that by (fastforce simp: in_chunk_def)

lemma csi_at_cur [simp]:
  "csi_at (s\<lparr>csi_cur := Some c\<rparr>) = ci_at c" "csi_at (s\<lparr>csi_i := i, csi_cur := Some c\<rparr>) = ci_at c"
  by (simp_all add: csi_at_def)

text \<open>Once the samples are inside the range, all of them come, up to the first behind the range.\<close>

lemma csi_streams_inside:
  assumes "in_chunk mem vss rest s"
    "\<forall>x \<in> set (rest @ concat (drop (Suc (csi_i s)) vss)). sint (csi_min_time s) \<le> sint (fst x)"
  shows "\<exists>fin. streams (csi_next mem) csi_at s
    (takeWhile (\<lambda>x. sint (fst x) \<le> sint (csi_max_time s)) (rest @ concat (drop (Suc (csi_i s)) vss))) fin"
  using assms
proof (induction "length vss - csi_i s" arbitrary: rest s rule: less_induct)
  case less
  from less.prems less.hyps show ?case
  proof (induction rest arbitrary: s)
    case Nil
    show ?case
    proof (cases "Suc (csi_i s) < length vss")
      case True
      from csi_next_exhausted [OF Nil.prems(1) True] obtain s' where s': "csi_next mem s = csi_next mem s'"
        "in_chunk mem vss (vss ! Suc (csi_i s)) s'" "csi_i s' = Suc (csi_i s)" "csi_min_time s' = csi_min_time s"
        "csi_max_time s' = csi_max_time s" .
      have drop: "concat (drop (Suc (csi_i s)) vss) = vss ! Suc (csi_i s) @ concat (drop (Suc (csi_i s')) vss)"
        using True s'(3) by (simp add: Cons_nth_drop_Suc [symmetric])
      have "length vss - csi_i s' < length vss - csi_i s" using True s'(3) by simp
      from Nil.prems(3) [OF this s'(2)] Nil.prems(2) drop s'(4,5) show ?thesis
        using streams_start [of "csi_next mem", OF s'(1)] by simp
    next
      case False
      with Nil.prems(1) obtain cur fin where "csi_cur s = Some cur" "ci_next cur = Ok (False, fin)" "\<not> ci_error fin"
        "length (csi_chunks s) \<le> Suc (csi_i s)" by (auto simp: in_chunk_def)
      with False show ?thesis by (simp add: csi_next.simps [of mem s] Let_def)
    qed
  next
    case (Cons x xs)
    from Cons.prems(1) obtain cur cur' where st: "csi_cur s = Some cur" "ci_next cur = Ok (True, cur')" "ci_at cur' = x"
      "in_chunk mem vss xs (s\<lparr>csi_cur := Some cur'\<rparr>)" by (rule in_chunk_step)
    have "\<not> sint (fst x) < sint (csi_min_time s)" using Cons.prems(2) by simp
    then have nx: "csi_next mem s = Ok (sint (fst x) \<le> sint (csi_max_time s), s\<lparr>csi_cur := Some cur'\<rparr>)"
      using st by (simp add: csi_next.simps [of mem s] Let_def)
    from Cons.IH [OF st(4)] Cons.prems(2,3) obtain fin where
      "streams (csi_next mem) csi_at (s\<lparr>csi_cur := Some cur'\<rparr>)
         (takeWhile (\<lambda>x. sint (fst x) \<le> sint (csi_max_time s)) (xs @ concat (drop (Suc (csi_i s)) vss))) fin" by auto
    with nx st(3) show ?case by auto
  qed
qed

subsection \<open>Seeking the start of the range\<close>

lemma csi_forward_spec:
  assumes "i < length chunks" "csi_forward chunks t i = (found, j)"
  shows "i \<le> j \<and> j < length chunks \<and> (\<forall>k. i \<le> k \<and> k < j \<longrightarrow> sint (cm_max_time (chunks ! k)) < sint t)
    \<and> (if found then sint t \<le> sint (cm_max_time (chunks ! j))
       else j = length chunks - 1 \<and> sint (cm_max_time (chunks ! j)) < sint t)"
  using assms
proof (induction chunks t i rule: csi_forward.induct)
  case (1 chunks t i)
  show ?case
  proof (cases "sint t > sint (cm_max_time (chunks ! i)) \<and> i \<noteq> length chunks - 1")
    case True
    with "1.prems" have "csi_forward chunks t (i + 1) = (found, j)" by (simp add: csi_forward.simps [of chunks t i])
    moreover have "i + 1 < length chunks" using True "1.prems"(1) by linarith
    ultimately have *: "i + 1 \<le> j \<and> j < length chunks \<and> (\<forall>k. i + 1 \<le> k \<and> k < j \<longrightarrow> sint (cm_max_time (chunks ! k)) < sint t)
    \<and> (if found then sint t \<le> sint (cm_max_time (chunks ! j))
       else j = length chunks - 1 \<and> sint (cm_max_time (chunks ! j)) < sint t)"
      using "1.IH" True "1.prems"(1) by blast
    have "sint (cm_max_time (chunks ! k)) < sint t" if "i \<le> k" "k < j" for k
      using that * True by (cases "k = i") auto
    with * show ?thesis by auto
  next
    case False
    with "1.prems" show ?thesis by (auto simp: csi_forward.simps [of chunks t i] split: if_splits)
  qed
qed

lemma csi_scan_stream:
  "streams ci_next ci_at cur xs fin \<Longrightarrow>
   (case dropWhile (\<lambda>x. sint (fst x) < sint t) xs of
      [] \<Rightarrow> csi_scan cur t = Ok (False, fin)
    | y # ys \<Rightarrow> \<exists>cur'. csi_scan cur t = Ok (True, cur') \<and> ci_at cur' = y \<and> streams ci_next ci_at cur' ys fin)"
proof (induction xs arbitrary: cur)
  case (Cons x xs)
  then obtain cur' where c: "ci_next cur = Ok (True, cur')" "ci_at cur' = x" "streams ci_next ci_at cur' xs fin" by auto
  show ?case
  proof (cases "sint (fst x) < sint t")
    case True
    with c have eq: "csi_scan cur t = csi_scan cur' t" by (simp add: csi_scan.simps [of cur t])
    show ?thesis unfolding eq using Cons.IH [OF c(3)] True by simp
  next
    case False
    with c show ?thesis by (simp add: csi_scan.simps [of cur t])
  qed
qed (simp add: csi_scan.simps)

text \<open>
  What makes seeking work: the samples of the chunks are in order, no sample is behind the
  \<open>max_time\<close> of its chunk, and a chunk that reaches the range by its \<open>max_time\<close> has a sample there.
\<close>

definition reachable_range :: "i64 \<Rightarrow> ChunkMeta list \<Rightarrow> sample list list \<Rightarrow> bool" where
  "reachable_range mint chunks vss \<longleftrightarrow> increasing (concat vss)
     \<and> list_all2 (\<lambda>c vs. (\<forall>x \<in> set vs. sint (fst x) \<le> sint (cm_max_time c))
          \<and> (sint mint \<le> sint (cm_max_time c) \<longrightarrow> (\<exists>x \<in> set vs. sint mint \<le> sint (fst x)))) chunks vss"

lemma before_forward:
  assumes "reachable_range mint chunks vss" "\<forall>k. i \<le> k \<and> k < j \<longrightarrow> sint (cm_max_time (chunks ! k)) < sint mint"
    "j \<le> length vss" "i \<le> j"
  shows "dropWhile (\<lambda>x. sint (fst x) < sint mint) (concat (drop i vss))
    = dropWhile (\<lambda>x. sint (fst x) < sint mint) (concat (drop j vss))"
proof -
  have "concat (drop i vss) = concat (take (j - i) (drop i vss)) @ concat (drop j vss)"
    using assms(4) by (metis append_take_drop_id concat_append drop_drop le_add_diff_inverse2)
  moreover have "sint (fst x) < sint mint" if "x \<in> set (concat (take (j - i) (drop i vss)))" for x
  proof -
    from that obtain k where "k < length (take (j - i) (drop i vss))" "x \<in> set (take (j - i) (drop i vss) ! k)"
      by (metis UN_E in_set_conv_nth set_concat)
    then have "i + k < j" "x \<in> set (vss ! (i + k))" using assms(3) by auto
    moreover from this have "sint (cm_max_time (chunks ! (i + k))) < sint mint" using assms(2) by simp
    moreover have "\<forall>x \<in> set (vss ! (i + k)). sint (fst x) \<le> sint (cm_max_time (chunks ! (i + k)))"
      using assms(1,3) \<open>i + k < j\<close> by (simp add: reachable_range_def list_all2_conv_all_nth)
    ultimately show ?thesis by force
  qed
  ultimately show ?thesis by (metis (no_types, lifting) dropWhile_append2)
qed

lemma csi_seek_start:
  assumes s: "in_chunk mem vss rest s" and rr: "reachable_range (csi_min_time s) (csi_chunks s) vss"
    and rest: "rest = vss ! csi_i s \<or> (\<exists>x. vss ! csi_i s = x # rest \<and> sint (fst x) < sint (csi_min_time s))"
    and range: "sint (csi_min_time s) \<le> sint (csi_max_time s)"
  shows "case dropWhile (\<lambda>x. sint (fst x) < sint (csi_min_time s)) (concat (drop (csi_i s) vss)) of
      [] \<Rightarrow> \<exists>s'. csi_seek mem (csi_min_time s) s = Ok (False, s')
    | y # ys \<Rightarrow> \<exists>s' zs. csi_seek mem (csi_min_time s) s = Ok (True, s') \<and> csi_at s' = y \<and> in_chunk mem vss zs s'
        \<and> ys = zs @ concat (drop (Suc (csi_i s')) vss) \<and> csi_min_time s' = csi_min_time s \<and> csi_max_time s' = csi_max_time s"
proof -
  let ?P = "\<lambda>x. sint (fst x) < sint (csi_min_time s)"
  obtain found j where f: "csi_forward (csi_chunks s) (csi_min_time s) (csi_i s) = (found, j)" by fastforce
  from s have i: "csi_i s < length (csi_chunks s)" "\<not> csi_err s" "length vss = length (csi_chunks s)" by (auto simp: in_chunk_def)
  note fw = csi_forward_spec [OF i(1) f]
  show ?thesis
  proof (cases found)
    case False
    then have "\<forall>k. csi_i s \<le> k \<and> k < length vss \<longrightarrow> sint (cm_max_time (csi_chunks s ! k)) < sint (csi_min_time s)"
      using fw i(3) by (metis One_nat_def Suc_pred' gr_implies_not0 less_antisym neq0_conv)
    from before_forward [OF rr this] i have nil: "dropWhile ?P (concat (drop (csi_i s) vss)) = []" by simp
    have "csi_seek mem (csi_min_time s) s = Ok (False, s\<lparr>csi_i := j\<rparr>)"
      using f False i range by (simp add: csi_seek_def)
    then show ?thesis unfolding nil list.case by blast
  next
    case True
    have j: "csi_i s \<le> j" "j < length vss" and reach: "sint (csi_min_time s) \<le> sint (cm_max_time (csi_chunks s ! j))"
      and before: "\<forall>k. csi_i s \<le> k \<and> k < j \<longrightarrow> sint (cm_max_time (csi_chunks s ! k)) < sint (csi_min_time s)"
      using fw True i(3) by auto
    obtain x where x: "x \<in> set (vss ! j)" "\<not> ?P x"
      using rr reach j(2) by (force simp: reachable_range_def list_all2_conv_all_nth)
    then have "dropWhile ?P (vss ! j) \<noteq> []" by auto
    then obtain y zs where yzs: "dropWhile ?P (vss ! j) = y # zs" by (auto simp only: neq_Nil_conv)
    obtain cur vs fin where cur: "streams ci_next ci_at cur vs fin" "\<not> ci_error fin" "dropWhile ?P vs = y # zs"
      "(if csi_i s \<noteq> j then res_bind (open_chunk mem j (csi_intervals s) (csi_chunks s ! j)) (\<lambda>c. Ok (Some c))
        else Ok (csi_cur s)) = Ok (Some cur)"
    proof (cases "csi_i s = j")
      case True
      with rest yzs have "dropWhile ?P rest = y # zs" by auto
      with s True show thesis using that by (auto simp: in_chunk_def)
    next
      case False
      with s j(2) yzs show thesis using that by (fastforce simp: in_chunk_def sees_def)
    qed
    from csi_scan_stream [OF cur(1), of "csi_min_time s"] cur(3) obtain cur' where
      sc: "csi_scan cur (csi_min_time s) = Ok (True, cur')" "ci_at cur' = y" "streams ci_next ci_at cur' zs fin" by auto
    let ?s' = "s\<lparr>csi_i := j, csi_cur := Some cur'\<rparr>"
    have "csi_seek mem (csi_min_time s) s = Ok (True, ?s')"
      using f True i range cur(4) sc(1) by (simp add: csi_seek_def)
    moreover have "in_chunk mem vss zs ?s'" using s sc(3) cur(2) j(2) by (auto simp: in_chunk_def)
    moreover have eq: "dropWhile ?P (concat (drop (csi_i s) vss)) = y # zs @ concat (drop (Suc j) vss)"
    proof -
      have "dropWhile ?P (concat (drop (csi_i s) vss)) = dropWhile ?P (vss ! j @ concat (drop (Suc j) vss))"
        using before_forward [OF rr before _ j(1)] j(2) by (simp add: Cons_nth_drop_Suc [symmetric])
      also have "\<dots> = dropWhile ?P (vss ! j) @ concat (drop (Suc j) vss)"
        using x by (rule dropWhile_append1)
      finally show ?thesis using yzs by simp
    qed
    ultimately show ?thesis unfolding eq list.case using sc(2)
      by (intro exI [of _ ?s'] exI [of _ zs]) simp
  qed
qed

lemma increasing_suffix: "increasing (xs @ ys) \<Longrightarrow> increasing ys"
  by (simp add: increasing_def sorted_wrt_append)

lemma increasing_lower:
  assumes "increasing (x # xs)" "b \<le> sint (fst x)"
  shows "\<forall>z \<in> set (x # xs). b \<le> sint (fst z)"
proof
  fix z assume "z \<in> set (x # xs)"
  then show "b \<le> sint (fst z)" using assms by (cases "z = x") (auto simp: increasing_Cons dest!: bspec)
qed

lemma csi_streams_seek:
  assumes "in_chunk mem vss (vss ! csi_i s) s" "vss ! csi_i s = x # xs" "sint (fst x) < sint (csi_min_time s)"
    "reachable_range (csi_min_time s) (csi_chunks s) vss" "increasing (concat (drop (csi_i s) vss))"
  shows "\<exists>fin. streams (csi_next mem) csi_at s
    (takeWhile (\<lambda>x. sint (fst x) \<le> sint (csi_max_time s))
      (dropWhile (\<lambda>x. sint (fst x) < sint (csi_min_time s)) (concat (drop (csi_i s) vss)))) fin"
proof -
  let ?P = "\<lambda>x. sint (fst x) < sint (csi_min_time s)" and ?Q = "\<lambda>x. sint (fst x) \<le> sint (csi_max_time s)"
  from assms(1) [unfolded assms(2)] obtain cur cur' where st: "csi_cur s = Some cur" "ci_next cur = Ok (True, cur')"
    "ci_at cur' = x" "in_chunk mem vss xs (s\<lparr>csi_cur := Some cur'\<rparr>)" by (rule in_chunk_step)
  let ?s1 = "s\<lparr>csi_cur := Some cur'\<rparr>"
  have nx: "csi_next mem s = res_bind (csi_seek mem (csi_min_time s) ?s1) (\<lambda>(b, s). Ok (b \<and> sint (fst (csi_at s)) \<le> sint (csi_max_time s), s))"
    using st assms(3) by (simp add: csi_next.simps [of mem s] Let_def)
  show ?thesis
  proof (cases "dropWhile ?P (concat (drop (csi_i s) vss))")
    case Nil': Nil
    have "\<exists>s'. csi_seek mem (csi_min_time s) ?s1 = Ok (False, s')"
    proof (cases "sint (csi_min_time s) \<le> sint (csi_max_time s)")
      case True
      with csi_seek_start [OF st(4)] assms(2,3,4) Nil' show ?thesis by simp
    next
      case False
      with st(4) show ?thesis by (auto simp: csi_seek_def in_chunk_def)
    qed
    then show ?thesis unfolding Nil' using nx by auto
  next
    case Cons': (Cons y ys)
    then have y: "sint (csi_min_time s) \<le> sint (fst y)" using hd_dropWhile [of ?P "concat (drop (csi_i s) vss)"] by simp
    have "increasing (y # ys)"
      using assms(5) increasing_suffix [of "takeWhile ?P (concat (drop (csi_i s) vss))" "y # ys"]
      by (simp add: Cons' [symmetric])
    from increasing_lower [OF this y] have all: "\<forall>z \<in> set ys. sint (csi_min_time s) \<le> sint (fst z)" by simp
    show ?thesis
    proof (cases "sint (csi_min_time s) \<le> sint (csi_max_time s)")
      case True
      with csi_seek_start [OF st(4)] assms(2,3,4) Cons' obtain s' zs where
        s': "csi_seek mem (csi_min_time s) ?s1 = Ok (True, s')" "csi_at s' = y" "in_chunk mem vss zs s'"
          "ys = zs @ concat (drop (Suc (csi_i s')) vss)" "csi_min_time s' = csi_min_time s" "csi_max_time s' = csi_max_time s"
        by auto
      have "csi_next mem s = Ok (?Q y, s')" using nx s' by simp
      with csi_streams_inside [OF s'(3)] s' all Cons' show ?thesis by auto
    next
      case False
      with st(4) have "csi_next mem s = Ok (False, ?s1)" using nx by (auto simp: csi_seek_def in_chunk_def)
      with Cons' y False show ?thesis by auto
    qed
  qed
qed

lemma csi_streams_start:
  assumes "in_chunk mem vss (vss ! csi_i s) s" "reachable_range (csi_min_time s) (csi_chunks s) vss"
  shows "\<exists>fin. streams (csi_next mem) csi_at s
    (takeWhile (\<lambda>x. sint (fst x) \<le> sint (csi_max_time s))
      (dropWhile (\<lambda>x. sint (fst x) < sint (csi_min_time s)) (concat (drop (csi_i s) vss)))) fin"
  using assms
proof (induction "length vss - csi_i s" arbitrary: s rule: less_induct)
  case less
  let ?P = "\<lambda>x. sint (fst x) < sint (csi_min_time s)" and ?Q = "\<lambda>x. sint (fst x) \<le> sint (csi_max_time s)"
  have i: "csi_i s < length vss" using less.prems(1) by (simp add: in_chunk_def)
  then have cat: "concat (drop (csi_i s) vss) = vss ! csi_i s @ concat (drop (Suc (csi_i s)) vss)"
    by (simp add: Cons_nth_drop_Suc [symmetric])
  show ?case
  proof (cases "vss ! csi_i s")
    case Nil
    show ?thesis
    proof (cases "Suc (csi_i s) < length vss")
      case True
      from csi_next_exhausted [OF less.prems(1) [unfolded Nil] True] obtain s' where s': "csi_next mem s = csi_next mem s'"
        "in_chunk mem vss (vss ! Suc (csi_i s)) s'" "csi_i s' = Suc (csi_i s)" "csi_min_time s' = csi_min_time s"
        "csi_max_time s' = csi_max_time s" "csi_chunks s' = csi_chunks s" .
      have "length vss - csi_i s' < length vss - csi_i s" using True s'(3) by simp
      from less.hyps [OF this] s' less.prems(2) Nil cat show ?thesis
        using streams_start [of "csi_next mem", OF s'(1)] by auto
    next
      case False
      then have "concat (drop (csi_i s) vss) = []" using Nil cat by simp
      then show ?thesis unfolding \<open>concat (drop (csi_i s) vss) = []\<close>
        using csi_streams_inside [OF less.prems(1)] Nil False by auto
    qed
  next
    case (Cons x xs)
    have inc: "increasing (concat (drop (csi_i s) vss))"
      using less.prems(2) increasing_suffix [of "concat (take (csi_i s) vss)" "concat (drop (csi_i s) vss)"]
      by (simp add: reachable_range_def flip: concat_append)
    show ?thesis
    proof (cases "sint (fst x) < sint (csi_min_time s)")
      case False
      then have "\<forall>z \<in> set (concat (drop (csi_i s) vss)). sint (csi_min_time s) \<le> sint (fst z)"
        using inc cat Cons increasing_lower [of x "xs @ concat (drop (Suc (csi_i s)) vss)"] by simp
      with csi_streams_inside [OF less.prems(1)] cat Cons False show ?thesis by simp
    next
      case True
      from csi_streams_seek [OF less.prems(1) Cons True less.prems(2) inc] show ?thesis .
    qed
  qed
qed

subsection \<open>Opening a chunk\<close>

lemma as_int_small:
  assumes "- (2 ^ 31) \<le> sint t" "sint t < 2 ^ 31"
  shows "as_int t = t"
proof (rule bit_word_eqI)
  fix n assume n: "n < LENGTH(64)"
  have "bit (as_int t) n = bit t (min n 31)" using n by (auto simp: as_int_def bit_simps min_def)
  also have "\<dots> = bit (sint t) (min n 31)" by (simp add: bit_sint_iff min_def)
  also have "\<dots> = bit (signed_take_bit 31 (sint t)) n" by (simp add: bit_signed_take_bit_iff min.commute)
  also have "signed_take_bit 31 (sint t) = sint t" using assms by (simp add: signed_take_bit_int_eq_self)
  also have "bit (sint t) n = bit t n" using n by (simp add: bit_sint_iff)
  finally show "bit (as_int t) n = bit t n" .
qed

text \<open>Samples that survive the conversion to a pair of \<open>int\<close>.\<close>

definition fits_int :: "sample list \<Rightarrow> bool" where
  "fits_int ss \<longleftrightarrow> (\<forall>s \<in> set ss. - (2 ^ 31) \<le> sint (fst s) \<and> sint (fst s) < 2 ^ 31 \<and> double_fits_int (snd s))"

definition undeleted :: "Intervals \<Rightarrow> sample \<Rightarrow> bool" where
  "undeleted itvs s \<longleftrightarrow> sint (fst s) \<notin> covers itvs"

lemma ci_streams_plain: "streams xi_step xi_at it ss fin \<Longrightarrow> streams ci_next ci_at (Plain it) ss (Plain fin)"
  by (induction ss arbitrary: it) auto

lemma ci_streams_deleting:
  "streams di_next di_at d ss fin \<Longrightarrow> streams ci_next ci_at (Deleting d) ss (Deleting fin)"
  by (induction ss arbitrary: d) auto

lemma sees_undeleted:
  assumes "chunk_samples (cm_chunk c) ss" "canonical itvs" "increasing ss" "itvs = [] \<or> fits_int ss"
  shows "sees mem k itvs c (filter (undeleted itvs) ss)"
proof -
  from assms(1) obtain it fin where it: "xc_iterator (mem k) (cm_chunk c) = Ok it"
    "streams xi_step xi_at it ss fin" "\<not> xi_err fin"
    unfolding chunk_samples_def xi_run_streams by blast
  show ?thesis
  proof (cases "itvs = []")
    case True
    then have "filter (undeleted itvs) ss = ss" by (simp add: undeleted_def)
    with True it ci_streams_plain [OF it(2)] show ?thesis by (fastforce simp: sees_def open_chunk_def)
  next
    case False
    then have small: "\<forall>s \<in> set ss. as_int (fst s) = fst s" using assms(4) by (simp add: fits_int_def as_int_small)
    then have "sorted_wrt (\<lambda>x y. sint (as_int (fst x)) < sint (as_int (fst y))) ss"
      using assms(3) unfolding increasing_def by (elim sorted_wrt_mono_rel [rotated]) simp
    moreover have "\<forall>s \<in> set ss. double_fits_int (snd s)" using False assms(4) by (simp add: fits_int_def)
    ultimately obtain itvs' where
      "streams di_next di_at \<lparr>di_it = it, di_itvls = itvs\<rparr> (filter (visible itvs) ss) \<lparr>di_it = fin, di_itvls = itvs'\<rparr>"
      using di_streams [OF it(2) assms(2)] by blast
    moreover have "filter (visible itvs) ss = filter (undeleted itvs) ss"
      using small by (intro filter_cong) (auto simp: visible_def undeleted_def)
    ultimately show ?thesis
      using False it ci_streams_deleting by (fastforce simp: sees_def open_chunk_def di_error_def)
  qed
qed

lemma increasing_takeWhile: "increasing xs \<Longrightarrow> takeWhile (\<lambda>z. sint (fst z) \<le> b) xs = filter (\<lambda>z. sint (fst z) \<le> b) xs"
proof (induction xs)
  case (Cons x xs)
  show ?case
  proof (cases "sint (fst x) \<le> b")
    case False
    then have "\<forall>z \<in> set (x # xs). b + 1 \<le> sint (fst z)" using Cons.prems by (intro increasing_lower) simp_all
    then have "filter (\<lambda>z. sint (fst z) \<le> b) xs = []" by (force simp: filter_empty_conv)
    with False show ?thesis by simp
  qed (use Cons in \<open>simp add: increasing_Cons\<close>)
qed simp

lemma range_filter:
  "increasing xs \<Longrightarrow> takeWhile (\<lambda>x. sint (fst x) \<le> b) (dropWhile (\<lambda>x. sint (fst x) < a) xs)
     = filter (\<lambda>x. a \<le> sint (fst x) \<and> sint (fst x) \<le> b) xs"
proof (induction xs)
  case (Cons x xs)
  show ?case
  proof (cases "sint (fst x) < a")
    case True
    with Cons show ?thesis by (simp add: increasing_Cons)
  next
    case False
    then have "\<forall>z \<in> set (x # xs). a \<le> sint (fst z)" using Cons.prems by (intro increasing_lower) simp_all
    then have "filter (\<lambda>z. a \<le> sint (fst z) \<and> sint (fst z) \<le> b) (x # xs) = filter (\<lambda>z. sint (fst z) \<le> b) (x # xs)"
      by (intro filter_cong) auto
    moreover have "takeWhile (\<lambda>z. sint (fst z) \<le> b) (x # xs) = filter (\<lambda>z. sint (fst z) \<le> b) (x # xs)"
      using Cons.prems by (rule increasing_takeWhile)
    ultimately show ?thesis using False by simp
  qed
qed simp

lemma csi_new_in_chunk:
  assumes "list_all2 (\<lambda>(k, c) vs. sees mem k itvs c vs) (enumerate 0 chunks) vss" "chunks \<noteq> []"
  obtains s where "ChunkSeriesIterator_new mem chunks itvs mint maxt = Ok s" "in_chunk mem vss (vss ! csi_i s) s"
    "csi_i s = 0" "csi_chunks s = chunks" "csi_min_time s = mint" "csi_max_time s = maxt"
proof -
  have len: "length vss = length chunks" using list_all2_lengthD [OF assms(1)] by simp
  have all: "\<forall>k < length vss. sees mem k itvs (chunks ! k) (vss ! k)"
    using assms(1) len by (auto simp: list_all2_conv_all_nth nth_enumerate_eq)
  then have "sees mem 0 itvs (hd chunks) (vss ! 0)" using assms(2) len by (simp add: hd_conv_nth)
  then obtain it fin where it: "open_chunk mem 0 itvs (hd chunks) = Ok it" "streams ci_next ci_at it (vss ! 0) fin"
    "\<not> ci_error fin" by (auto simp: sees_def)
  let ?s = "\<lparr>csi_chunks = chunks, csi_i = 0, csi_cur = Some it, csi_min_time = mint, csi_max_time = maxt,
    csi_intervals = itvs, csi_err = False\<rparr>"
  show thesis
    using it all len assms(2) by (intro that [of ?s]) (auto simp: ChunkSeriesIterator_new_def in_chunk_def Let_def)
qed

lemma sees_all:
  assumes "list_all2 (\<lambda>c ss. chunk_samples (cm_chunk c) ss) chunks sss" "canonical itvs" "increasing (concat sss)"
    "itvs = [] \<or> fits_int (concat sss)"
  shows "list_all2 (\<lambda>(k, c) vs. sees mem k itvs c vs) (enumerate n chunks) (map (filter (undeleted itvs)) sss)"
  using assms(1,3,4)
proof (induction chunks sss arbitrary: n rule: list_all2_induct)
  case (Cons c cs ss sss)
  have "increasing ss" "increasing (concat sss)" using Cons.prems(1) by (auto simp: increasing_def sorted_wrt_append)
  moreover have "itvs = [] \<or> fits_int ss \<and> fits_int (concat sss)" using Cons.prems(2) by (auto simp: fits_int_def)
  ultimately show ?case using Cons.hyps(1) Cons.IH sees_undeleted [OF _ assms(2)] by auto
qed simp

subsection \<open>Properties\<close>

text \<open>
  C11: an iterator over the chunks of a series yields exactly the samples whose time stamp is in
  the queried range and not deleted, in order, under these conditions. The chunks are not empty
  as a list and in time order, their \<open>max_time\<close> bounds their samples, and the deleted ranges are
  ordered and separated. With deleted ranges, the time stamps and values must fit the \<open>int\<close> they
  are converted to. A chunk whose \<open>max_time\<close> reaches the range must have an undeleted sample
  at or behind its start (\<open>reachable_range\<close>).
\<close>

theorem series_iterator_range:
  assumes "list_all2 (\<lambda>c ss. chunk_samples (cm_chunk c) ss) chunks sss" "chunks \<noteq> []"
    "increasing (concat sss)" "canonical itvs" "itvs = [] \<or> fits_int (concat sss)"
    "reachable_range mint chunks (map (filter (undeleted itvs)) sss)"
  shows "\<exists>s fin. ChunkSeriesIterator_new mem chunks itvs mint maxt = Ok s
    \<and> streams (csi_next mem) csi_at s
        (filter (\<lambda>x. sint mint \<le> sint (fst x) \<and> sint (fst x) \<le> sint maxt \<and> undeleted itvs x) (concat sss)) fin"
proof -
  let ?vss = "map (filter (undeleted itvs)) sss"
  have cat: "concat ?vss = filter (undeleted itvs) (concat sss)" by (simp add: filter_concat)
  from csi_new_in_chunk [OF sees_all [OF assms(1,4,3,5)] assms(2), of mem mint maxt] obtain s where
    s: "ChunkSeriesIterator_new mem chunks itvs mint maxt = Ok s" "in_chunk mem ?vss (?vss ! csi_i s) s"
      "csi_i s = 0" "csi_chunks s = chunks" "csi_min_time s = mint" "csi_max_time s = maxt" .
  have "increasing (concat ?vss)" using assms(6) by (simp add: reachable_range_def)
  from range_filter [OF this] have
    "takeWhile (\<lambda>x. sint (fst x) \<le> sint maxt) (dropWhile (\<lambda>x. sint (fst x) < sint mint) (concat ?vss))
      = filter (\<lambda>x. sint mint \<le> sint (fst x) \<and> sint (fst x) \<le> sint maxt \<and> undeleted itvs x) (concat sss)"
    unfolding cat filter_filter by (auto intro: filter_cong)
  with csi_streams_start [OF s(2)] assms(6) s show ?thesis by auto
qed

text \<open>
  C38: the delete iterator does not compare the time stamps of a chunk but their lower 32 bits
  with the deleted ranges: as long as these increase along the chunk and the values can be
  converted to \<open>int\<close>, it yields exactly the samples whose cut time stamp is outside the ranges.
  So a deleted sample whose time stamp does not fit an \<open>int\<close> is returned unless its cut
  time stamp is deleted too, and an undeleted one is lost if its cut time stamp is deleted.
\<close>

theorem delete_iterator_truncates:
  assumes "chunk_samples c ss" "canonical itvs" "\<forall>s \<in> set ss. double_fits_int (snd s)"
    "sorted_wrt (\<lambda>x y. sint (as_int (fst x)) < sint (as_int (fst y))) ss"
  shows "\<exists>it fin. xc_iterator mem c = Ok it
    \<and> streams di_next di_at \<lparr>di_it = it, di_itvls = itvs\<rparr> (filter (\<lambda>s. sint (as_int (fst s)) \<notin> covers itvs) ss) fin
    \<and> \<not> di_error fin"
proof -
  from assms(1) obtain it fin where it: "xc_iterator mem c = Ok it" "streams xi_step xi_at it ss fin" "\<not> xi_err fin"
    unfolding chunk_samples_def xi_run_streams by blast
  from di_streams [OF it(2) assms(2,4,3)] obtain itvs' where
    "streams di_next di_at \<lparr>di_it = it, di_itvls = itvs\<rparr> (filter (visible itvs) ss) \<lparr>di_it = fin, di_itvls = itvs'\<rparr>" ..
  moreover have "\<not> di_error \<lparr>di_it = fin, di_itvls = itvs'\<rparr>" using it(3) by (simp add: di_error_def)
  ultimately show ?thesis using it(1) unfolding visible_def [abs_def] by blast
qed

theorem delete_iterator_truncates_witness:
  "\<exists>c it. chunk_samples c [(2 ^ 32 + 5, 7)] \<and> xc_iterator (\<lambda>_. 0) c = Ok it
     \<and> (\<exists>fin. streams di_next di_at \<lparr>di_it = it, di_itvls = [Interval_of (2 ^ 32 + 5) (2 ^ 32 + 5)]\<rparr> [(2 ^ 32 + 5, 7)] fin)
     \<and> (\<exists>fin. streams di_next di_at \<lparr>di_it = it, di_itvls = [Interval_of 5 5]\<rparr> [] fin)"
proof -
  let ?s = "(2 ^ 32 + 5, 7) :: sample"
  have "length [?s] < 65536" by simp
  then obtain c where c: "chunk_samples c [?s]" by (rule new_chunk_append)
  have n: "as_int (fst ?s) = 5" and f: "\<forall>s \<in> set [?s]. double_fits_int (snd s)"
    by (simp_all add: as_int_def double_fits_int_def Let_def drop_bit_eq_div)
  have can: "canonical [Interval_of a a]" for a by (simp add: canonical_Cons Interval_of_def)
  have "\<exists>it fin. xc_iterator (\<lambda>_. 0) c = Ok it \<and> streams di_next di_at \<lparr>di_it = it, di_itvls = [Interval_of a a]\<rparr>
      (filter (\<lambda>s. sint (as_int (fst s)) \<notin> covers [Interval_of a a]) [?s]) fin" for a
    using delete_iterator_truncates [OF c can f, of "\<lambda>_. 0" a] by auto
  from this [of "2 ^ 32 + 5"] this [of 5] n c show ?thesis by (auto simp: Interval_of_def)
qed

text \<open>A chunk with given samples, and its meta data.\<close>

definition meta_of :: "XORChunk \<Rightarrow> i64 \<Rightarrow> i64 \<Rightarrow> ChunkMeta" where
  "meta_of c mint maxt = \<lparr>cm_ref = 0, cm_series_ref = 0, cm_chunk = c, cm_min_time = mint, cm_max_time = maxt,
     cm_type = 0, cm_logical_group_ref = 0\<rparr>"

theorem series_iterator_range_witness:
  "\<exists>c1 c2 s fin. chunk_samples c1 [(10, 1), (20, 2)] \<and> chunk_samples c2 [(30, 3), (40, 4)]
     \<and> ChunkSeriesIterator_new (\<lambda>_ _. 0) [meta_of c1 10 20, meta_of c2 30 40] [Interval_of 25 30] 15 50 = Ok s
     \<and> streams (csi_next (\<lambda>_ _. 0)) csi_at s [(20, 2), (40, 4)] fin"
proof -
  have "length [(10, 1), (20, 2) :: sample] < 65536" "length [(30, 3), (40, 4) :: sample] < 65536" by simp_all
  then obtain c1 c2 where c: "chunk_samples c1 [(10, 1), (20, 2)]" "chunk_samples c2 [(30, 3), (40, 4)]"
    by (metis new_chunk_append)
  have "list_all2 (\<lambda>c ss. chunk_samples (cm_chunk c) ss) [meta_of c1 10 20, meta_of c2 30 40]
      [[(10, 1), (20, 2)], [(30, 3), (40, 4)]]" using c by (simp add: meta_of_def)
  from series_iterator_range [OF this, of "[Interval_of 25 30]" 15 "\<lambda>_ _. 0" 50] c show ?thesis
    by (fastforce simp: increasing_def canonical_Cons Interval_of_def fits_int_def reachable_range_def undeleted_def meta_of_def
        double_fits_int_def Let_def drop_bit_eq_div)
qed



end
