(* ===== verification/Buffers.thy ===== *)
theory Buffers
  imports Endian
begin

text \<open>
  The growing encode buffer of \<open>src/tsdbutil/EncBuf.hpp\<close> and the checked decode buffer of
  \<open>src/tsdbutil/DecBuf.hpp\<close>. Both count in machine integers; a buffer shorter than
  \<open>2\<^sup>3\<^sup>1\<close> bytes never makes them wrap, so positions are natural numbers. The contract of a
  field that is put into the one and got from the other is a locale with one
  interpretation per pair of operations.
\<close>

subsection \<open>EncBuf\<close>

record EncBuf =
  eb_b :: bytes
  eb_index :: nat

definition EncBuf_new :: EncBuf where
  "EncBuf_new = \<lparr>eb_b = [], eb_index = 0\<rparr>"

definition eb_reset :: "EncBuf \<Rightarrow> EncBuf" where
  "eb_reset e = e\<lparr>eb_index := 0\<rparr>"

definition eb_get :: "EncBuf \<Rightarrow> bytes" where
  "eb_get e = take (eb_index e) (eb_b e)"

text \<open>A store into the vector's elements; outside of them it is undefined.\<close>

definition eb_store :: "EncBuf \<Rightarrow> bytes \<Rightarrow> bytes \<Rightarrow> EncBuf result" where
  "eb_store e b bs =
     (if eb_index e + length bs \<le> length b
      then Ok \<lparr>eb_b = take (eb_index e) b @ bs @ drop (eb_index e + length bs) b,
               eb_index = eb_index e + length bs\<rparr>
      else Undef)"

definition eb_padded :: "EncBuf \<Rightarrow> nat \<Rightarrow> bytes" where
  "eb_padded e n =
     (if length (eb_b e) < eb_index e + n
      then eb_b e @ replicate (eb_index e + n - length (eb_b e)) 0
      else eb_b e)"

definition vec_resize :: "nat \<Rightarrow> bytes \<Rightarrow> bytes" where
  "vec_resize n b = take n b @ replicate (n - length b) 0"

definition eb_put_string :: "EncBuf \<Rightarrow> bytes \<Rightarrow> EncBuf result" where
  "eb_put_string e str =
     eb_store e (if length (eb_b e) < length str + eb_index e
                 then vec_resize (length str + eb_index e + 1) (eb_b e) else eb_b e) str"

definition eb_put_byte :: "EncBuf \<Rightarrow> u8 \<Rightarrow> EncBuf result" where
  "eb_put_byte e byte =
     (if eb_index e = length (eb_b e)
      then Ok (e\<lparr>eb_b := eb_b e @ [byte], eb_index := eb_index e + 1\<rparr>)
      else eb_store e (eb_b e) [byte])"

definition eb_put_BE_uint16 :: "EncBuf \<Rightarrow> u32 \<Rightarrow> EncBuf result" where
  "eb_put_BE_uint16 e num =
     (let b = eb_padded e 2
      in res_bind (put_uint16_big_endian (drop (eb_index e) b) num)
           (\<lambda>t. Ok \<lparr>eb_b = take (eb_index e) b @ t, eb_index = eb_index e + 2\<rparr>))"

definition eb_put_BE_uint32 :: "EncBuf \<Rightarrow> u32 \<Rightarrow> EncBuf result" where
  "eb_put_BE_uint32 e num =
     (let b = eb_padded e 4
      in res_bind (put_uint32_big_endian (drop (eb_index e) b) num)
           (\<lambda>t. Ok \<lparr>eb_b = take (eb_index e) b @ t, eb_index = eb_index e + 4\<rparr>))"

definition eb_put_BE_uint64 :: "EncBuf \<Rightarrow> u64 \<Rightarrow> EncBuf result" where
  "eb_put_BE_uint64 e num =
     (let b = eb_padded e 8
      in res_bind (put_uint64_big_endian (drop (eb_index e) b) num)
           (\<lambda>t. Ok \<lparr>eb_b = take (eb_index e) b @ t, eb_index = eb_index e + 8\<rparr>))"

definition eb_put_unsigned_variant :: "EncBuf \<Rightarrow> u64 \<Rightarrow> EncBuf result" where
  "eb_put_unsigned_variant e num = eb_store e (eb_padded e 10) (encode_unsigned_varint num)"

definition eb_put_signed_variant :: "EncBuf \<Rightarrow> i64 \<Rightarrow> EncBuf result" where
  "eb_put_signed_variant e num = eb_store e (eb_padded e 10) (encode_signed_varint num)"

definition eb_put_uvariant_string :: "EncBuf \<Rightarrow> bytes \<Rightarrow> EncBuf result" where
  "eb_put_uvariant_string e str =
     res_bind (eb_put_unsigned_variant e (of_nat (length str))) (\<lambda>e. eb_put_string e str)"

fun put_all :: "('e \<Rightarrow> 'a \<Rightarrow> 'e result) \<Rightarrow> 'e \<Rightarrow> 'a list \<Rightarrow> 'e result" where
  "put_all put e [] = Ok e"
| "put_all put e (x # xs) = res_bind (put e x) (\<lambda>e. put_all put e xs)"

subsection \<open>DecBuf\<close>

definition NO_ERR :: u8 where "NO_ERR = 0"
definition ERR_INVALID_SIZE :: u8 where "ERR_INVALID_SIZE = 1"
definition ERR_INVALID_CHECKSUM :: u8 where "ERR_INVALID_CHECKSUM = 2"

text \<open>\<open>size\<close> is the length of the readable bytes.\<close>

record DecBuf =
  db_b :: bytes
  db_index :: nat
  db_err :: u8

definition DecBuf_new :: "bytes \<Rightarrow> DecBuf" where
  "DecBuf_new b = \<lparr>db_b = b, db_index = 0, db_err = NO_ERR\<rparr>"

definition db_error_str :: "DecBuf \<Rightarrow> string" where
  "db_error_str d = (if db_err d = 1 then ''invalid size''
     else if db_err d = 2 then ''invalid checksum'' else ''no error'')"

definition db_len :: "DecBuf \<Rightarrow> nat" where
  "db_len d = length (db_b d) - db_index d"

text \<open>The fixed-width getters differ in the width and in the function that assembles the value.\<close>

definition db_get_byte :: "DecBuf \<Rightarrow> (u8 \<times> DecBuf) result" where
  "db_get_byte d =
     (if db_err d \<noteq> NO_ERR then Ok (0, d)
      else if db_len d < 1 then Ok (0, d\<lparr>db_err := ERR_INVALID_SIZE\<rparr>)
      else Ok (db_b d ! db_index d, d\<lparr>db_index := db_index d + 1\<rparr>))"

definition db_get_BE_uint16 :: "DecBuf \<Rightarrow> (u32 \<times> DecBuf) result" where
  "db_get_BE_uint16 d =
     (if db_err d \<noteq> NO_ERR then Ok (0, d)
      else if db_len d < 2 then Ok (0, d\<lparr>db_err := ERR_INVALID_SIZE\<rparr>)
      else res_bind (get_uint16_big_endian (drop (db_index d) (db_b d)))
             (\<lambda>r. Ok (r, d\<lparr>db_index := db_index d + 2\<rparr>)))"

definition db_get_BE_uint32 :: "DecBuf \<Rightarrow> (u32 \<times> DecBuf) result" where
  "db_get_BE_uint32 d =
     (if db_err d \<noteq> NO_ERR then Ok (0, d)
      else if db_len d < 4 then Ok (0, d\<lparr>db_err := ERR_INVALID_SIZE\<rparr>)
      else res_bind (get_uint32_big_endian (drop (db_index d) (db_b d)))
             (\<lambda>r. Ok (r, d\<lparr>db_index := db_index d + 4\<rparr>)))"

definition db_get_BE_uint64 :: "DecBuf \<Rightarrow> (u64 \<times> DecBuf) result" where
  "db_get_BE_uint64 d =
     (if db_err d \<noteq> NO_ERR then Ok (0, d)
      else if db_len d < 8 then Ok (0, d\<lparr>db_err := ERR_INVALID_SIZE\<rparr>)
      else res_bind (get_uint64_big_endian (drop (db_index d) (db_b d)))
             (\<lambda>r. Ok (r, d\<lparr>db_index := db_index d + 8\<rparr>)))"

definition db_get_unsigned_variant :: "DecBuf \<Rightarrow> (u64 \<times> DecBuf) result" where
  "db_get_unsigned_variant d =
     (if db_err d \<noteq> NO_ERR then Ok (0, d)
      else if length (db_b d) \<le> db_index d then Ok (0, d\<lparr>db_err := ERR_INVALID_SIZE\<rparr>)
      else case decode_unsigned_varint (drop (db_index d) (db_b d)) of
             Ok (r, decoded) \<Rightarrow> Ok (r, d\<lparr>db_index := db_index d + decoded\<rparr>)
           | Throw \<Rightarrow> Ok (0, d\<lparr>db_err := ERR_INVALID_SIZE\<rparr>)
           | Undef \<Rightarrow> Undef)"

definition db_get_signed_variant :: "DecBuf \<Rightarrow> (i64 \<times> DecBuf) result" where
  "db_get_signed_variant d =
     (if db_err d \<noteq> NO_ERR then Ok (0, d)
      else if length (db_b d) \<le> db_index d then Ok (0, d\<lparr>db_err := ERR_INVALID_SIZE\<rparr>)
      else case decode_signed_varint (drop (db_index d) (db_b d)) of
             Ok (r, decoded) \<Rightarrow> Ok (r, d\<lparr>db_index := db_index d + decoded\<rparr>)
           | Throw \<Rightarrow> Ok (0, d\<lparr>db_err := ERR_INVALID_SIZE\<rparr>)
           | Undef \<Rightarrow> Undef)"

definition db_get_uvariant_string :: "DecBuf \<Rightarrow> (bytes \<times> DecBuf) result" where
  "db_get_uvariant_string d =
     res_bind (db_get_unsigned_variant d) (\<lambda>(len, d).
       if db_err d \<noteq> NO_ERR then Ok ([], d)
       else if db_len d < unat len then Ok ([], d\<lparr>db_err := ERR_INVALID_SIZE\<rparr>)
       else Ok (take (unat len) (drop (db_index d) (db_b d)), d\<lparr>db_index := db_index d + unat len\<rparr>))"

subsection \<open>The contract of a field\<close>

definition eb_ok :: "EncBuf \<Rightarrow> bool" where
  "eb_ok e \<longleftrightarrow> eb_index e \<le> length (eb_b e)"

definition buf_holds :: "EncBuf result \<Rightarrow> bytes \<Rightarrow> bool" where
  "buf_holds m bs \<longleftrightarrow> (\<exists>e. m = Ok e \<and> eb_ok e \<and> eb_get e = bs)"

text \<open>A decode buffer without an error whose unread bytes are \<open>bs\<close>.\<close>

definition dec_at :: "DecBuf \<Rightarrow> bytes \<Rightarrow> bool" where
  "dec_at d bs \<longleftrightarrow> db_err d = NO_ERR \<and> db_index d \<le> length (db_b d) \<and> drop (db_index d) (db_b d) = bs"

text \<open>An error stays; without one, a read moves on or sets it.\<close>

definition progresses :: "DecBuf \<Rightarrow> DecBuf \<Rightarrow> bool" where
  "progresses d d' \<longleftrightarrow> db_b d' = db_b d \<and>
     (if db_err d \<noteq> NO_ERR then d' = d else db_err d' \<noteq> NO_ERR \<or> db_index d < db_index d')"

lemma holds_bind:
  "buf_holds m bs \<Longrightarrow> (\<And>e. eb_ok e \<Longrightarrow> eb_get e = bs \<Longrightarrow> buf_holds (f e) cs) \<Longrightarrow> buf_holds (res_bind m f) cs"
  by (auto simp: buf_holds_def)

text \<open>A read that returns \<open>v\<close> and leaves \<open>rest\<close>.\<close>

definition yields :: "('a \<times> DecBuf) result \<Rightarrow> 'a \<Rightarrow> bytes \<Rightarrow> bool" where
  "yields m v rest \<longleftrightarrow> (\<exists>d'. m = Ok (v, d') \<and> dec_at d' rest)"

lemma yields_bind:
  "yields m v rest \<Longrightarrow> (\<And>d. dec_at d rest \<Longrightarrow> yields (f (v, d)) v' rest') \<Longrightarrow> yields (res_bind m f) v' rest'"
  by (auto simp: yields_def)

lemma holds_eq: "buf_holds m bs \<Longrightarrow> bs = cs \<Longrightarrow> buf_holds m cs"
  by simp

lemma progresses_trans [trans]: "progresses d d' \<Longrightarrow> progresses d' d'' \<Longrightarrow> progresses d d''"
  by (auto simp: progresses_def split: if_splits)

locale buf_field =
  fixes put :: "EncBuf \<Rightarrow> 'a \<Rightarrow> EncBuf result"
    and get :: "DecBuf \<Rightarrow> ('a \<times> DecBuf) result"
    and image :: "'a \<Rightarrow> bytes"
    and valid :: "'a \<Rightarrow> bool"
  assumes put_image: "eb_ok e \<Longrightarrow> buf_holds (put e v) (eb_get e @ image v)"
    and get_image: "valid v \<Longrightarrow> dec_at d (image v @ rest) \<Longrightarrow> yields (get d) v rest"
    and get_progress: "get d = Ok (v, d') \<Longrightarrow> progresses d d'"
begin

lemma put_all_image: "eb_ok e \<Longrightarrow> buf_holds (put_all put e vs) (eb_get e @ concat (map image vs))"
proof (induction vs arbitrary: e)
  case (Cons v vs)
  show ?case
    using put_image [OF Cons.prems, of v] Cons.IH by (fastforce simp: buf_holds_def)
qed (simp add: buf_holds_def)

lemma put_onto: "eb_ok e \<Longrightarrow> eb_get e = bs \<Longrightarrow> buf_holds (put e v) (bs @ image v)"
  using put_image by blast

lemma put_all_onto: "eb_ok e \<Longrightarrow> eb_get e = bs \<Longrightarrow> buf_holds (put_all put e vs) (bs @ concat (map image vs))"
  using put_all_image by blast

lemma image_nonempty:
  assumes "valid v"
  shows "image v \<noteq> []"
proof
  assume "image v = []"
  then have "dec_at (DecBuf_new []) (image v @ [])" by (simp add: dec_at_def DecBuf_new_def)
  from get_image [OF assms this] obtain d' where "get (DecBuf_new []) = Ok (v, d')" and d': "dec_at d' []"
    by (auto simp: yields_def)
  from get_progress [OF this(1)] d' show False
    by (auto simp: progresses_def dec_at_def DecBuf_new_def)
qed

end

subsection \<open>The fields of the code\<close>

lemma eb_store_holds:
  assumes "eb_ok e" and "take (eb_index e) b = eb_get e" and "eb_index e + length bs \<le> length b"
  shows "buf_holds (eb_store e b bs) (eb_get e @ bs)"
  using assms by (auto simp: buf_holds_def eb_store_def eb_ok_def eb_get_def)

lemma eb_padded_simps [simp]:
  assumes "eb_ok e"
  shows "take (eb_index e) (eb_padded e n) = eb_get e" and "eb_index e + n \<le> length (eb_padded e n)"
  using assms by (auto simp: eb_padded_def eb_get_def eb_ok_def)

lemma dec_atD:
  assumes "dec_at d bs"
  shows "db_err d = NO_ERR" "db_len d = length bs" "drop (db_index d) (db_b d) = bs"
    "length bs \<le> length (db_b d) - db_index d" "bs \<noteq> [] \<Longrightarrow> db_index d < length (db_b d)"
    "bs = b # bs' \<Longrightarrow> db_b d ! db_index d = b"
  using assms by (auto simp: dec_at_def db_len_def nth_via_drop)

lemma dec_at_skip:
  assumes "dec_at d (xs @ ys)"
  shows "dec_at (d\<lparr>db_index := db_index d + length xs\<rparr>) ys"
proof -
  have d: "db_err d = NO_ERR" "db_index d \<le> length (db_b d)" "drop (db_index d) (db_b d) = xs @ ys"
    using assms by (auto simp: dec_at_def)
  from d(2) arg_cong [OF d(3), of length] have "db_index d + length xs \<le> length (db_b d)" by simp
  moreover from arg_cong [OF d(3), of "drop (length xs)"]
  have "drop (db_index d + length xs) (db_b d) = ys" by (simp add: add.commute)
  ultimately show ?thesis using d(1) by (simp add: dec_at_def)
qed

interpretation byte_field: buf_field eb_put_byte db_get_byte "\<lambda>b. [b]" "\<lambda>_. True"
proof (unfold_locales, goal_cases)
  case (1 e v)
  show ?case
  proof (cases "eb_index e = length (eb_b e)")
    case False
    with 1 have "buf_holds (eb_store e (eb_b e) [v]) (eb_get e @ [v])"
      by (intro eb_store_holds) (auto simp: eb_ok_def eb_get_def)
    with False show ?thesis by (simp add: eb_put_byte_def)
  qed (simp add: eb_put_byte_def buf_holds_def eb_ok_def eb_get_def)
next
  case (2 v d rest)
  then show ?case
    using dec_at_skip [of d "[v]" rest] dec_atD [of d "v # rest"] by (simp add: db_get_byte_def yields_def)
next
  case (3 d v d')
  then show ?case by (auto simp: db_get_byte_def progresses_def ERR_INVALID_SIZE_def NO_ERR_def split: if_splits)
qed

text \<open>The big-endian fields share one argument for the buffer and one for the reader.\<close>

lemma eb_put_be_holds:
  assumes e: "eb_ok e" and f: "\<And>buf rest. length buf = n \<Longrightarrow> f (buf @ rest) = Ok (img @ rest)"
    and img: "length img = n"
  shows "buf_holds (let b = eb_padded e n in res_bind (f (drop (eb_index e) b))
     (\<lambda>t. Ok \<lparr>eb_b = take (eb_index e) b @ t, eb_index = eb_index e + n\<rparr>)) (eb_get e @ img)"
proof -
  define t where "t = drop (eb_index e) (eb_padded e n)"
  have "length (take n t) = n" using eb_padded_simps(2) [OF e, of n] by (simp add: t_def)
  from f [OF this, of "drop n t"] have "f t = Ok (img @ drop n t)" by simp
  moreover have "length (eb_get e) = eb_index e" using e by (simp add: eb_get_def eb_ok_def)
  ultimately show ?thesis
    using e img by (simp add: t_def [symmetric] Let_def buf_holds_def eb_ok_def)
      (simp add: eb_get_def)
qed

lemma ERR_INVALID_SIZE_neq [simp]: "ERR_INVALID_SIZE \<noteq> NO_ERR"
  by (simp add: ERR_INVALID_SIZE_def NO_ERR_def)

lemma db_get_be_progress:
  assumes "(if db_err d \<noteq> NO_ERR then Ok (0, d)
      else if db_len d < n then Ok (0, d\<lparr>db_err := ERR_INVALID_SIZE\<rparr>)
      else res_bind r (\<lambda>r. Ok (r, d\<lparr>db_index := db_index d + n\<rparr>))) = Ok (v, d')" and "0 < n"
  shows "progresses d d'"
  using assms by (cases r) (auto simp: progresses_def split: if_splits)

lemma be_bytes_2_put: "length buf = 2 \<Longrightarrow> put_uint16_big_endian (buf @ rest) num = Ok (be_bytes 2 num @ rest)"
  by (auto simp: put_uint16_big_endian_def length_Suc_conv numeral_2_eq_2 ucast_and_255)

lemma be_bytes_2_get: "unat num < 2 ^ 16 \<Longrightarrow> get_uint16_big_endian (be_bytes 2 num @ rest) = Ok num"
proof -
  assume "unat num < 2 ^ 16"
  then have "take_bit 16 num = num" by (simp add: word_unat_eq_iff unsigned_take_bit_eq take_bit_nat_eq_self_iff)
  then show ?thesis
    using be_acc_be_bytes [of 0 2 num] by (simp add: be_bytes_2 push_bit_8_plus_byte)
qed

interpretation be16_field: buf_field eb_put_BE_uint16 db_get_BE_uint16 "be_bytes 2" "\<lambda>v. unat v < 2 ^ 16"
proof (unfold_locales, goal_cases)
  case (1 e v)
  then show ?case
    unfolding eb_put_BE_uint16_def by (intro eb_put_be_holds) (auto simp: be_bytes_2_put)
next
  case (2 v d rest)
  then show ?case
    using dec_at_skip [of d "be_bytes 2 v" rest] dec_atD [of d "be_bytes 2 v @ rest"]
    by (simp add: db_get_BE_uint16_def be_bytes_2_get yields_def)
qed (simp add: db_get_BE_uint16_def db_get_be_progress)

interpretation be32_field: buf_field eb_put_BE_uint32 db_get_BE_uint32 "be_bytes 4" "\<lambda>_. True"
proof (unfold_locales, goal_cases)
  case (1 e v)
  then show ?case
    unfolding eb_put_BE_uint32_def by (intro eb_put_be_holds) (auto simp: put_uint32_be_bytes)
next
  case (2 v d rest)
  then show ?case
    using dec_at_skip [of d "be_bytes 4 v" rest] dec_atD [of d "be_bytes 4 v @ rest"]
    by (simp add: db_get_BE_uint32_def get_uint32_be_bytes yields_def)
qed (simp add: db_get_BE_uint32_def db_get_be_progress)

interpretation be64_field: buf_field eb_put_BE_uint64 db_get_BE_uint64 "be_bytes 8" "\<lambda>_. True"
proof (unfold_locales, goal_cases)
  case (1 e v)
  then show ?case
    unfolding eb_put_BE_uint64_def by (intro eb_put_be_holds) (auto simp: put_uint64_be_bytes)
next
  case (2 v d rest)
  then show ?case
    using dec_at_skip [of d "be_bytes 8 v" rest] dec_atD [of d "be_bytes 8 v @ rest"]
    by (simp add: db_get_BE_uint64_def get_uint64_be_bytes yields_def)
qed (simp add: db_get_BE_uint64_def db_get_be_progress)

lemma varint_loop_counts: "varint_loop bs i acc sh = Ok (v, n) \<Longrightarrow> i < n \<and> n \<le> i + length bs"
  by (induction bs i acc sh rule: varint_loop.induct) (fastforce simp: Let_def split: if_splits)+

lemma decode_varint_counts:
  "decode_unsigned_varint bs = Ok (u, n) \<Longrightarrow> 0 < n \<and> n \<le> length bs"
  "decode_signed_varint bs = Ok (v, n) \<Longrightarrow> 0 < n \<and> n \<le> length bs"
  using varint_loop_counts [of bs 0 0 0]
  by (auto simp: decode_unsigned_varint_def decode_signed_varint_def res_bind_eq_Ok)

interpretation uvarint_field: buf_field eb_put_unsigned_variant db_get_unsigned_variant
  encode_unsigned_varint "\<lambda>_. True"
proof (unfold_locales, goal_cases)
  case (1 e v)
  have "eb_index e + length (encode_unsigned_varint v) \<le> length (eb_padded e 10)"
    using eb_padded_simps(2) [OF 1, of 10] length_encode_unsigned_varint_10 [of v] by linarith
  then show ?case unfolding eb_put_unsigned_variant_def using 1 by (intro eb_store_holds) auto
next
  case (2 v d rest)
  then show ?case
    using dec_at_skip [of d "encode_unsigned_varint v" rest] dec_atD [of d "encode_unsigned_varint v @ rest"]
    by (simp add: db_get_unsigned_variant_def codec_simps yields_def)
next
  case (3 d v d')
  then show ?case
    using decode_varint_counts(1) [of "drop (db_index d) (db_b d)"]
    by (auto simp: db_get_unsigned_variant_def progresses_def split: if_splits result.splits)
qed

interpretation svarint_field: buf_field eb_put_signed_variant db_get_signed_variant
  encode_signed_varint "\<lambda>_. True"
proof (unfold_locales, goal_cases)
  case (1 e v)
  have "eb_index e + length (encode_signed_varint v) \<le> length (eb_padded e 10)"
    using eb_padded_simps(2) [OF 1, of 10] length_encode_unsigned_varint_10 [of "zigzag_encode v"]
    by (simp add: encode_signed_varint_def)
  then show ?case unfolding eb_put_signed_variant_def using 1 by (intro eb_store_holds) auto
next
  case (2 v d rest)
  then have "encode_signed_varint v @ rest \<noteq> []" by (simp add: encode_signed_varint_def)
  with 2 show ?case
    using dec_at_skip [of d "encode_signed_varint v" rest] dec_atD [of d "encode_signed_varint v @ rest"]
    by (simp add: db_get_signed_variant_def codec_simps yields_def)
next
  case (3 d v d')
  then show ?case
    using decode_varint_counts(2) [of "drop (db_index d) (db_b d)"]
    by (auto simp: db_get_signed_variant_def progresses_def split: if_splits result.splits)
qed

definition string_image :: "bytes \<Rightarrow> bytes" where
  "string_image s = encode_unsigned_varint (of_nat (length s)) @ s"

lemma eb_put_string_holds: "eb_ok e \<Longrightarrow> buf_holds (eb_put_string e s) (eb_get e @ s)"
  unfolding eb_put_string_def by (intro eb_store_holds) (auto simp: vec_resize_def eb_get_def eb_ok_def)

interpretation string_field: buf_field eb_put_uvariant_string db_get_uvariant_string
  string_image "\<lambda>s. length s < 2 ^ 64"
proof (unfold_locales, goal_cases)
  case (1 e s)
  show ?case
    unfolding eb_put_uvariant_string_def
  proof (rule holds_bind [OF uvarint_field.put_image [OF 1]])
    fix e' assume "eb_ok e'" "eb_get e' = eb_get e @ encode_unsigned_varint (of_nat (length s))"
    then show "buf_holds (eb_put_string e' s) (eb_get e @ string_image s)"
      using eb_put_string_holds [of e' s] by (simp add: string_image_def)
  qed
next
  case (2 s d rest)
  then obtain d' where d': "db_get_unsigned_variant d = Ok (of_nat (length s), d')" "dec_at d' (s @ rest)"
    using uvarint_field.get_image [of d "of_nat (length s)" "s @ rest"] by (auto simp: string_image_def yields_def)
  have "unat (of_nat (length s) :: u64) = length s" using 2(1) by (simp add: of_nat_inverse)
  then show ?case
    using d' dec_at_skip [of d' s rest] dec_atD [of d' "s @ rest"] by (simp add: db_get_uvariant_string_def yields_def)
next
  case (3 d v d')
  then obtain len d1 where d1: "db_get_unsigned_variant d = Ok (len, d1)" by (auto simp: db_get_uvariant_string_def res_bind_eq_Ok)
  then have "progresses d d1" by (rule uvarint_field.get_progress)
  then show ?case using 3 d1 by (auto simp: db_get_uvariant_string_def progresses_def split: if_splits)
qed

lemmas buf_put_fields = byte_field.put_onto be16_field.put_onto be32_field.put_onto be64_field.put_onto
  uvarint_field.put_onto svarint_field.put_onto string_field.put_onto

lemmas buf_get_fields = byte_field.get_image [OF TrueI] be32_field.get_image [OF TrueI]
  be64_field.get_image [OF TrueI] uvarint_field.get_image [OF TrueI] svarint_field.get_image [OF TrueI]
  string_field.get_image

lemmas field_progress = byte_field.get_progress be16_field.get_progress be32_field.get_progress
  be64_field.get_progress uvarint_field.get_progress svarint_field.get_progress string_field.get_progress

end
