(* ===== verification/TombstoneFile.thy ===== *)
theory TombstoneFile
  imports Buffers Intervals
begin

text \<open>
  The tombstone file: \<open>src/tombstone/TombstoneUtils.cpp\<close>. The file is the list of bytes
  written to it. The checksum is that of \<open>boost::crc_32_type\<close>, a function \<open>crc\<close> of the bytes
  processed so far, and an argument of the definitions.
\<close>

subsection \<open>Writing\<close>

definition MAGIC_TOMBSTONE :: u32 where "MAGIC_TOMBSTONE = 0xA1ECA1EC"
definition TOMBSTONE_FORMAT :: u8 where "TOMBSTONE_FORMAT = 1"

text \<open>The state of a write: the file, the buffer and the bytes the checksum has processed.\<close>

record TsWriter =
  tw_f :: bytes
  tw_enc_buf :: EncBuf
  tw_crc32 :: bytes

definition write_ts_one :: "u64 \<Rightarrow> TsWriter \<Rightarrow> Interval \<Rightarrow> TsWriter result" where
  "write_ts_one ref w itvl =
     res_bind (eb_put_unsigned_variant (tw_enc_buf w) ref) (\<lambda>e.
     res_bind (eb_put_signed_variant e (min_time itvl)) (\<lambda>e.
     res_bind (eb_put_signed_variant e (max_time itvl)) (\<lambda>e.
       Ok \<lparr>tw_f = tw_f w @ eb_get e, tw_enc_buf = eb_reset e, tw_crc32 = tw_crc32 w @ eb_get e\<rparr>)))"

definition write_ts_helper :: "TsWriter \<Rightarrow> u64 \<Rightarrow> Intervals \<Rightarrow> TsWriter result" where
  "write_ts_helper w ref itvs = put_all (write_ts_one ref) w itvs"

definition write_ts_header :: "TsWriter result" where
  "write_ts_header =
     res_bind (eb_put_BE_uint32 EncBuf_new MAGIC_TOMBSTONE) (\<lambda>e.
     res_bind (eb_put_byte e TOMBSTONE_FORMAT) (\<lambda>e.
       Ok \<lparr>tw_f = take 5 (eb_b e), tw_enc_buf = eb_reset e, tw_crc32 = []\<rparr>))"

definition write_ts_checksum :: "(bytes \<Rightarrow> u32) \<Rightarrow> TsWriter \<Rightarrow> bytes result" where
  "write_ts_checksum crc w =
     res_bind (eb_put_BE_uint32 (tw_enc_buf w) (crc (tw_crc32 w))) (\<lambda>e. Ok (tw_f w @ take 4 (eb_b e)))"

text \<open>
  \<open>opened\<close> is the outcome of \<open>fopen\<close> and \<open>file\<close> the tombstone file before the call. The
  result is what the call returns and the file after the rename. A null \<open>tr\<close> writes no entries.
\<close>

definition write_tombstones ::
    "(bytes \<Rightarrow> u32) \<Rightarrow> bool \<Rightarrow> bytes option \<Rightarrow> (MemTombstones \<times> u64 list) option \<Rightarrow> (bool \<times> bytes option) result" where
  "write_tombstones crc opened file tr =
     (if \<not> opened then Ok (False, file)
      else res_bind write_ts_header (\<lambda>w.
           res_bind (case tr of None \<Rightarrow> Ok w
                     | Some (mt, order) \<Rightarrow>
                         mt_iter (\<lambda>m ref itvs. res_bind m (\<lambda>w. write_ts_helper w ref itvs)) mt order (Ok w)) (\<lambda>w.
           res_bind (write_ts_checksum crc w) (\<lambda>f. Ok (True, Some f)))))"

subsection \<open>Reading\<close>

function read_ts_loop :: "DecBuf \<Rightarrow> MemTombstones \<Rightarrow> MemTombstones option result" where
  "read_ts_loop d stones =
     (if db_len d = 0 then Ok (Some stones)
      else res_bind (db_get_unsigned_variant d) (\<lambda>(ref, d1).
           res_bind (db_get_signed_variant d1) (\<lambda>(min_time, d2).
           res_bind (db_get_signed_variant d2) (\<lambda>(max_time, d3).
             if db_err d3 \<noteq> NO_ERR then Ok None
             else read_ts_loop d3 (add_interval stones ref (Interval_of min_time max_time))))))"
  by pat_completeness auto
termination
proof (relation "measure (db_len \<circ> fst)", simp, goal_cases)
  case (1 d stones p ref d1 q mi d2 r ma d3)
  then have "progresses d d1" "progresses d1 d2" "progresses d2 d3"
    using uvarint_field.get_progress svarint_field.get_progress by auto
  then have "progresses d d3" by (meson progresses_trans)
  with 1 show ?case by (auto simp: progresses_def db_len_def split: if_splits)
qed

declare read_ts_loop.simps [simp del]

text \<open>\<open>file\<close> is \<open>None\<close> when there is none; a file that cannot be mapped has no length.\<close>

definition read_tombstones ::
    "(bytes \<Rightarrow> u32) \<Rightarrow> bool \<Rightarrow> bytes option \<Rightarrow> (MemTombstones option \<times> u64) result" where
  "read_tombstones crc opened file =
     (case file of
        None \<Rightarrow> Ok (Some MemTombstones_new, 0)
      | Some bs \<Rightarrow>
          if \<not> opened then Ok (None, 0)
          else if length bs < 9 then Ok (None, 0)
          else let start = take (length bs - 4) bs
               in res_bind (get_uint32_big_endian start) (\<lambda>magic.
                  if magic \<noteq> MAGIC_TOMBSTONE then Ok (None, 0)
                  else if start ! 4 \<noteq> 1 then Ok (None, 0)
                  else res_bind (get_uint32_big_endian (drop (length start) bs)) (\<lambda>crc32.
                  if crc (drop 5 start) \<noteq> crc32 then Ok (None, 0)
                  else res_bind (read_ts_loop (DecBuf_new (drop 5 start)) MemTombstones_new) (\<lambda>stones.
                    Ok (stones, if stones = None then 0 else of_nat (length bs))))))"

subsection \<open>What is written\<close>

definition entry_image :: "u64 \<Rightarrow> Interval \<Rightarrow> bytes" where
  "entry_image ref i = encode_unsigned_varint ref @ encode_signed_varint (min_time i) @ encode_signed_varint (max_time i)"

definition entries :: "(u64 \<times> Intervals) list \<Rightarrow> (u64 \<times> Interval) list" where
  "entries ps = concat (map (\<lambda>(ref, itvs). map (Pair ref) itvs) ps)"

definition body :: "(u64 \<times> Interval) list \<Rightarrow> bytes" where
  "body es = concat (map (\<lambda>(ref, i). entry_image ref i) es)"

text \<open>A writer whose buffer is empty and whose file is the header and the checksummed bytes.\<close>

definition writes :: "TsWriter result \<Rightarrow> bytes \<Rightarrow> bool" where
  "writes m bs \<longleftrightarrow> (\<exists>w. m = Ok w \<and> eb_ok (tw_enc_buf w) \<and> eb_get (tw_enc_buf w) = []
     \<and> tw_f w = be_bytes 4 MAGIC_TOMBSTONE @ [TOMBSTONE_FORMAT] @ bs \<and> tw_crc32 w = bs)"

lemma eb_reset_simps [simp]: "eb_ok (eb_reset e)" "eb_get (eb_reset e) = []"
  by (simp_all add: eb_ok_def eb_get_def eb_reset_def)

lemma writes_header: "writes write_ts_header []"
proof -
  have "eb_ok EncBuf_new" "eb_get EncBuf_new = []"
    by (simp_all add: eb_ok_def eb_get_def EncBuf_new_def)
  with be32_field.put_image [of EncBuf_new MAGIC_TOMBSTONE]
  obtain e where e: "eb_put_BE_uint32 EncBuf_new MAGIC_TOMBSTONE = Ok e" "eb_ok e"
    "eb_get e = be_bytes 4 MAGIC_TOMBSTONE" by (auto simp: buf_holds_def)
  with byte_field.put_image [of e TOMBSTONE_FORMAT]
  obtain e' where e': "eb_put_byte e TOMBSTONE_FORMAT = Ok e'" "eb_ok e'"
    "eb_get e' = be_bytes 4 MAGIC_TOMBSTONE @ [TOMBSTONE_FORMAT]" by (auto simp: buf_holds_def)
  from arg_cong [OF e'(3), of length] e'(2) have "eb_index e' = 5" by (simp add: eb_get_def eb_ok_def)
  with e e' show ?thesis by (simp add: writes_def write_ts_header_def) (simp add: eb_get_def)
qed

lemma write_ts_one_writes:
  assumes "writes (Ok w) bs"
  shows "writes (write_ts_one ref w i) (bs @ entry_image ref i)"
proof -
  from assms have w: "eb_ok (tw_enc_buf w)" "eb_get (tw_enc_buf w) = []" by (auto simp: writes_def)
  with uvarint_field.put_image [of "tw_enc_buf w" ref]
  obtain e1 where e1: "eb_put_unsigned_variant (tw_enc_buf w) ref = Ok e1" "eb_ok e1"
    "eb_get e1 = encode_unsigned_varint ref" by (auto simp: buf_holds_def)
  with svarint_field.put_image [of e1 "min_time i"]
  obtain e2 where e2: "eb_put_signed_variant e1 (min_time i) = Ok e2" "eb_ok e2"
    "eb_get e2 = encode_unsigned_varint ref @ encode_signed_varint (min_time i)" by (auto simp: buf_holds_def)
  with svarint_field.put_image [of e2 "max_time i"]
  obtain e3 where e3: "eb_put_signed_variant e2 (max_time i) = Ok e3" "eb_get e3 = entry_image ref i"
    by (auto simp: buf_holds_def entry_image_def)
  show ?thesis using assms e1(1) e2(1) e3 by (simp add: write_ts_one_def writes_def)
qed

lemma write_ts_helper_writes:
  "writes (Ok w) bs \<Longrightarrow> writes (write_ts_helper w ref itvs) (bs @ body (map (Pair ref) itvs))"
  unfolding write_ts_helper_def
proof (induction itvs arbitrary: w bs)
  case (Cons i itvs)
  from write_ts_one_writes [OF Cons.prems, of ref i] obtain w' where
    w': "write_ts_one ref w i = Ok w'" "writes (Ok w') (bs @ entry_image ref i)" by (auto simp: writes_def)
  with Cons.IH [OF w'(2)] show ?case by (simp add: body_def)
qed (simp add: body_def)

lemma mt_iter_writes:
  assumes "writes m bs"
  shows "writes (foldl (\<lambda>m (ref, itvs). res_bind m (\<lambda>w. write_ts_helper w ref itvs)) m ps) (bs @ body (entries ps))"
  using assms
proof (induction ps arbitrary: m bs)
  case (Cons p ps)
  obtain ref itvs where p: "p = (ref, itvs)" by (cases p)
  from Cons.prems obtain w where m: "m = Ok w" by (auto simp: writes_def)
  with Cons.IH [OF write_ts_helper_writes [of w bs ref itvs]] Cons.prems p show ?case
    by (simp add: body_def entries_def)
qed (simp add: body_def entries_def)

lemma write_tombstones_content:
  "write_tombstones crc True file (Some (mt, order))
     = Ok (True, Some (be_bytes 4 MAGIC_TOMBSTONE @ [TOMBSTONE_FORMAT]
         @ body (entries (mt_pairs mt order)) @ be_bytes 4 (crc (body (entries (mt_pairs mt order))))))"
proof -
  let ?b = "body (entries (mt_pairs mt order))"
  obtain w0 where w0: "write_ts_header = Ok w0" using writes_header by (auto simp: writes_def)
  have "writes (mt_iter (\<lambda>m ref itvs. res_bind m (\<lambda>w. write_ts_helper w ref itvs)) mt order (Ok w0)) ?b"
    unfolding mt_iter_def using mt_iter_writes [of "Ok w0" "[]"] writes_header w0 by simp
  then obtain w where w: "mt_iter (\<lambda>m ref itvs. res_bind m (\<lambda>w. write_ts_helper w ref itvs)) mt order (Ok w0) = Ok w"
    "eb_ok (tw_enc_buf w)" "eb_get (tw_enc_buf w) = []" "tw_crc32 w = ?b"
    "tw_f w = be_bytes 4 MAGIC_TOMBSTONE @ [TOMBSTONE_FORMAT] @ ?b" by (auto simp: writes_def)
  from be32_field.put_image [OF w(2), of "crc ?b"] w(3)
  obtain e where e: "eb_put_BE_uint32 (tw_enc_buf w) (crc ?b) = Ok e" "eb_ok e" "eb_get e = be_bytes 4 (crc ?b)"
    by (auto simp: buf_holds_def)
  from arg_cong [OF e(3), of length] e(2) have "eb_index e = 4" by (simp add: eb_get_def eb_ok_def)
  then have "take 4 (eb_b e) = be_bytes 4 (crc ?b)" using e(3) by (simp add: eb_get_def)
  then show ?thesis by (simp add: write_tombstones_def write_ts_checksum_def w0 w(1,4,5) e(1))
qed

subsection \<open>What is read back\<close>

definition add_entries :: "MemTombstones \<Rightarrow> (u64 \<times> Interval) list \<Rightarrow> MemTombstones" where
  "add_entries mt es = foldl (\<lambda>mt (ref, i). add_interval mt ref i) mt es"

lemma read_ts_loop_entries:
  "dec_at d (body es) \<Longrightarrow> read_ts_loop d mt = Ok (Some (add_entries mt es))"
proof (induction es arbitrary: d mt)
  case Nil
  then show ?case by (subst read_ts_loop.simps) (simp add: body_def add_entries_def dec_atD)
next
  case (Cons x es)
  obtain ref i where x: "x = (ref, i)" by (cases x)
  let ?r2 = "encode_signed_varint (max_time i) @ body es"
  from Cons.prems x have d: "dec_at d (encode_unsigned_varint ref @ encode_signed_varint (min_time i) @ ?r2)"
    by (simp add: body_def entry_image_def)
  then obtain d1 where d1: "db_get_unsigned_variant d = Ok (ref, d1)" "dec_at d1 (encode_signed_varint (min_time i) @ ?r2)"
    using uvarint_field.get_image unfolding yields_def by blast
  then obtain d2 where d2: "db_get_signed_variant d1 = Ok (min_time i, d2)" "dec_at d2 ?r2"
    using svarint_field.get_image unfolding yields_def by blast
  then obtain d3 where d3: "db_get_signed_variant d2 = Ok (max_time i, d3)" "dec_at d3 (body es)"
    using svarint_field.get_image unfolding yields_def by blast
  have "db_len d \<noteq> 0" "Interval_of (min_time i) (max_time i) = i"
    using dec_atD(2) [OF d] by (simp_all add: Interval_of_def)
  with d1(1) d2(1) d3 Cons.IH [OF d3(2)] show ?case
    by (subst read_ts_loop.simps) (simp add: x add_entries_def dec_atD(1) [OF d3(2)])
qed

lemma add_entries_group:
  assumes "canonical itvs" and "\<forall>i \<in> set itvs. sint (max_time i) < 2 ^ 63 - 1"
    and "itvs \<noteq> []" and "interval_groups mt ref = None"
  shows "add_entries mt (map (Pair ref) itvs) = mt\<lparr>interval_groups := (interval_groups mt)(ref \<mapsto> itvs)\<rparr>"
  using assms
proof (induction itvs rule: rev_induct)
  case (snoc i itvs)
  have i: "itvls_add itvs i = itvs @ [i]" using itvls_add_behind snoc.prems(1,2) by simp
  show ?case
  proof (cases "itvs = []")
    case True
    moreover have "mt_group mt ref = []" using snoc.prems(4) by (simp add: mt_group_def)
    ultimately show ?thesis by (simp add: add_entries_def add_interval_def del: fun_upd_apply)
  next
    case False
    with snoc have "add_entries mt (map (Pair ref) itvs) = mt\<lparr>interval_groups := (interval_groups mt)(ref \<mapsto> itvs)\<rparr>"
      by (simp add: canonical_append del: fun_upd_apply)
    then show ?thesis using i by (simp add: add_entries_def add_interval_def mt_group_def) (simp add: fun_upd_def)
  qed
qed simp

lemma add_entries_append: "add_entries mt (xs @ ys) = add_entries (add_entries mt xs) ys"
  by (simp add: add_entries_def)

lemma add_entries_all:
  assumes "tombs_ok mt" and "distinct order" and "set order \<subseteq> dom (interval_groups mt)"
    and "set order \<inter> dom (interval_groups mt0) = {}"
  shows "interval_groups (add_entries mt0 (entries (mt_pairs mt order)))
    = interval_groups mt0 ++ (interval_groups mt |` set order)"
  using assms(2-)
proof (induction order arbitrary: mt0)
  case (Cons ref order)
  then obtain itvs where itvs: "interval_groups mt ref = Some itvs" by auto
  then have ok: "canonical itvs" "\<forall>i \<in> set itvs. sint (max_time i) < 2 ^ 63 - 1" "itvs \<noteq> []"
    using assms(1) by (auto simp: tombs_ok_def itvs_ok_def ran_def)
  let ?mt1 = "mt0\<lparr>interval_groups := (interval_groups mt0)(ref \<mapsto> itvs)\<rparr>"
  have "add_entries mt0 (entries (mt_pairs mt (ref # order))) = add_entries ?mt1 (entries (mt_pairs mt order))"
    using add_entries_group [OF ok, of mt0 ref] Cons.prems(3) itvs
    by (simp add: entries_def mt_pairs_def add_entries_append domIff)
  moreover have "interval_groups (add_entries ?mt1 (entries (mt_pairs mt order)))
      = interval_groups ?mt1 ++ (interval_groups mt |` set order)"
    using Cons.prems by (intro Cons.IH) (auto split: if_splits)
  moreover have "interval_groups ?mt1 ++ (interval_groups mt |` set order)
      = interval_groups mt0 ++ (interval_groups mt |` set (ref # order))"
    using Cons.prems(1) itvs by (auto simp: map_add_def restrict_map_def fun_eq_iff split: option.split)
  ultimately show ?case by simp
qed (simp add: entries_def mt_pairs_def add_entries_def)

subsection \<open>Properties\<close>

text \<open>
  C9: the tombstones written to a file are read back exactly, with the length of the file,
  whatever order the hash map is visited in and whatever the checksum function is.
\<close>

theorem tombstone_file_roundtrip:
  assumes "tombs_ok mt" and "distinct order" and "set order = dom (interval_groups mt)"
  shows "\<exists>f. write_tombstones crc True file (Some (mt, order)) = Ok (True, Some f)
     \<and> read_tombstones crc True (Some f) = Ok (Some mt, of_nat (length f))"
proof -
  let ?b = "body (entries (mt_pairs mt order))"
  let ?start = "be_bytes 4 MAGIC_TOMBSTONE @ [TOMBSTONE_FORMAT] @ ?b"
  let ?f = "?start @ be_bytes 4 (crc ?b)"
  have "interval_groups mt |` dom (interval_groups mt) = interval_groups mt"
    by (auto simp: restrict_map_def fun_eq_iff domIff)
  then have "interval_groups (add_entries MemTombstones_new (entries (mt_pairs mt order))) = interval_groups mt"
    using add_entries_all [of mt order MemTombstones_new] assms by (simp add: MemTombstones_new_def)
  then have "add_entries MemTombstones_new (entries (mt_pairs mt order)) = mt" by simp
  moreover have "dec_at (DecBuf_new ?b) ?b" by (simp add: dec_at_def DecBuf_new_def)
  ultimately have loop: "read_ts_loop (DecBuf_new ?b) MemTombstones_new = Ok (Some mt)"
    using read_ts_loop_entries by metis
  have start: "take (length ?f - 4) ?f = ?start" "drop (length ?start) ?f = be_bytes 4 (crc ?b) @ []"
    "drop 5 ?start = ?b" "?start ! 4 = 1" "\<not> length ?f < 9" by (simp_all add: nth_append TOMBSTONE_FORMAT_def)
  have "read_tombstones crc True (Some ?f) = Ok (Some mt, of_nat (length ?f))"
    unfolding read_tombstones_def option.case Let_def start get_uint32_be_bytes by (simp add: loop)
  then show ?thesis using write_tombstones_content by auto
qed

theorem tombstone_file_roundtrip_witness:
  "let mt = \<lparr>interval_groups = [7 \<mapsto> [Interval_of 1 3, Interval_of 8 9], 2 \<mapsto> [Interval_of (- 5) 0]]\<rparr>
   in \<exists>f. write_tombstones (\<lambda>bs. of_nat (length bs)) True None (Some (mt, [2, 7])) = Ok (True, Some f)
     \<and> read_tombstones (\<lambda>bs. of_nat (length bs)) True (Some f) = Ok (Some mt, of_nat (length f))"
proof -
  let ?mt = "\<lparr>interval_groups = [7 \<mapsto> [Interval_of 1 3, Interval_of 8 9], 2 \<mapsto> [Interval_of (- 5) 0]]\<rparr>"
  have "tombs_ok ?mt" by (simp add: tombs_ok_def itvs_ok_def canonical_Cons Interval_of_def)
  then show ?thesis
    using tombstone_file_roundtrip [of ?mt "[2, 7]" "\<lambda>bs. of_nat (length bs)" None] by (simp add: Let_def)
qed

end
