(* ===== verification/WalRecords.thy ===== *)
theory WalRecords
  imports Buffers Intervals LogRecords
begin

text \<open>
  The records of \<open>src/tsdbutil/RecordEncoder.cpp\<close> and \<open>RecordDecoder.cpp\<close>: series, samples
  and tombstones over \<open>EncBuf\<close> and \<open>DecBuf\<close>. The decoders append to the vector they are given
  and keep what they appended when they return an error.
\<close>

subsection \<open>Record kinds\<close>

definition RECORD_INVALID :: u8 where "RECORD_INVALID = 255"
definition RECORD_SERIES :: u8 where "RECORD_SERIES = 1"
definition RECORD_SAMPLES :: u8 where "RECORD_SAMPLES = 2"
definition RECORD_TOMBSTONES :: u8 where "RECORD_TOMBSTONES = 3"

record Stone =
  st_ref :: u64
  st_itvls :: Intervals

datatype rec_error = Invalid_record_type | Dec_error string | Bytes_left nat

subsection \<open>Encoder\<close>

definition eb_put_label :: "EncBuf \<Rightarrow> Label \<Rightarrow> EncBuf result" where
  "eb_put_label e l = res_bind (eb_put_uvariant_string e (label l)) (\<lambda>e. eb_put_uvariant_string e (lvalue l))"

definition eb_put_lset :: "EncBuf \<Rightarrow> Labels \<Rightarrow> EncBuf result" where
  "eb_put_lset e lset =
     res_bind (eb_put_unsigned_variant e (of_nat (length lset))) (\<lambda>e. put_all eb_put_label e lset)"

definition eb_put_series :: "EncBuf \<Rightarrow> RefSeries \<Rightarrow> EncBuf result" where
  "eb_put_series e r =
     res_bind (eb_put_BE_uint64 e (rs_ref r)) (\<lambda>e.
     res_bind (eb_put_BE_uint64 e (rs_flushed_txn r)) (\<lambda>e.
     res_bind (eb_put_BE_uint64 e (rs_log_clean_txn r)) (\<lambda>e.
       eb_put_lset e (rs_lptr r))))"

definition RecordEncoder_series :: "RefSeries list \<Rightarrow> bytes \<Rightarrow> bytes result" where
  "RecordEncoder_series refseries rec =
     res_bind (eb_put_byte EncBuf_new RECORD_SERIES) (\<lambda>e.
     res_bind (put_all eb_put_series e refseries) (\<lambda>e. Ok (rec @ eb_get e)))"

definition eb_put_sample :: "RefSample \<Rightarrow> EncBuf \<Rightarrow> RefSample \<Rightarrow> EncBuf result" where
  "eb_put_sample front e s =
     res_bind (eb_put_signed_variant e (sm_ref s - sm_ref front)) (\<lambda>e.
     res_bind (eb_put_signed_variant e (sm_logical_id s - sm_logical_id front)) (\<lambda>e.
     res_bind (eb_put_signed_variant e (sm_t s - sm_t front)) (\<lambda>e.
       eb_put_BE_uint64 e (encode_double (sm_v s)))))"

fun RecordEncoder_samples :: "RefSample list \<Rightarrow> bytes \<Rightarrow> bytes result" where
  "RecordEncoder_samples [] rec = Ok rec"
| "RecordEncoder_samples (front # rest) rec =
     res_bind (eb_put_byte EncBuf_new RECORD_SAMPLES) (\<lambda>e.
     res_bind (eb_put_BE_uint64 e (sm_ref front)) (\<lambda>e.
     res_bind (eb_put_BE_uint64 e (sm_logical_id front)) (\<lambda>e.
     res_bind (eb_put_BE_uint64 e (sm_t front)) (\<lambda>e.
     res_bind (eb_put_BE_uint64 e (encode_double (sm_v front))) (\<lambda>e.
     res_bind (put_all (eb_put_sample front) e rest) (\<lambda>e. Ok (rec @ eb_get e)))))))"

definition eb_put_interval :: "u64 \<Rightarrow> EncBuf \<Rightarrow> Interval \<Rightarrow> EncBuf result" where
  "eb_put_interval ref e i =
     res_bind (eb_put_BE_uint64 e ref) (\<lambda>e.
     res_bind (eb_put_signed_variant e (min_time i)) (\<lambda>e. eb_put_signed_variant e (max_time i)))"

definition eb_put_stone :: "EncBuf \<Rightarrow> Stone \<Rightarrow> EncBuf result" where
  "eb_put_stone e s = put_all (eb_put_interval (st_ref s)) e (st_itvls s)"

definition RecordEncoder_tombstones :: "Stone list \<Rightarrow> bytes \<Rightarrow> bytes result" where
  "RecordEncoder_tombstones stones rec =
     res_bind (eb_put_byte EncBuf_new RECORD_TOMBSTONES) (\<lambda>e.
     res_bind (put_all eb_put_stone e stones) (\<lambda>e. Ok (rec @ eb_get e)))"

subsection \<open>Decoder\<close>

definition RecordDecoder_type :: "bytes \<Rightarrow> u8" where
  "RecordDecoder_type rec =
     (if rec = [] then RECORD_INVALID
      else if rec ! 0 \<noteq> RECORD_SERIES \<and> rec ! 0 \<noteq> RECORD_SAMPLES \<and> rec ! 0 \<noteq> RECORD_TOMBSTONES
      then RECORD_INVALID else rec ! 0)"

text \<open>How every decoder ends.\<close>

definition dec_finish :: "DecBuf \<Rightarrow> 'a \<Rightarrow> (rec_error option \<times> 'a) result" where
  "dec_finish d out =
     (if db_err d \<noteq> NO_ERR then Ok (Some (Dec_error (db_error_str d)), out)
      else if db_len d > 0 then Ok (Some (Bytes_left (db_len d)), out)
      else Ok (None, out))"

definition db_get_label :: "DecBuf \<Rightarrow> (Label \<times> DecBuf) result" where
  "db_get_label d =
     res_bind (db_get_uvariant_string d) (\<lambda>(label, d).
     res_bind (db_get_uvariant_string d) (\<lambda>(value, d). Ok (Label label value, d)))"

text \<open>
  The loop over the labels counts in an \<open>int\<close> and does not look at the error of the buffer; a
  count of \<open>2\<^sup>3\<^sup>1\<close> or more makes the counter overflow.
\<close>

fun dec_labels :: "nat \<Rightarrow> Labels \<Rightarrow> DecBuf \<Rightarrow> (Labels \<times> DecBuf) result" where
  "dec_labels 0 lset d = Ok (lset, d)"
| "dec_labels (Suc n) lset d = res_bind (db_get_label d) (\<lambda>(l, d). dec_labels n (lset @ [l]) d)"

definition db_get_lset :: "DecBuf \<Rightarrow> (Labels \<times> DecBuf) result" where
  "db_get_lset d =
     res_bind (db_get_unsigned_variant d) (\<lambda>(num_lbs, d).
       if 2 ^ 31 \<le> unat num_lbs then Undef else dec_labels (unat num_lbs) [] d)"

definition RefSeries_new :: "u64 \<Rightarrow> Labels \<Rightarrow> i64 \<Rightarrow> i64 \<Rightarrow> RefSeries" where
  "RefSeries_new ref lset flushed_txn log_clean_txn =
     \<lparr>rs_ref = ref, rs_lset = lset, rs_lset_ptr = None, rs_flushed_txn = flushed_txn,
      rs_log_clean_txn = log_clean_txn\<rparr>"

definition db_get_series :: "DecBuf \<Rightarrow> (RefSeries \<times> DecBuf) result" where
  "db_get_series d =
     res_bind (db_get_BE_uint64 d) (\<lambda>(ref, d).
     res_bind (db_get_BE_uint64 d) (\<lambda>(flushed_txn, d).
     res_bind (db_get_BE_uint64 d) (\<lambda>(log_clean_txn, d).
     res_bind (db_get_lset d) (\<lambda>(lset, d).
       Ok (RefSeries_new ref (sort lset) flushed_txn log_clean_txn, d)))))"

text \<open>A sample made by the three-argument constructor has whatever \<open>txn\<close> was in memory.\<close>

definition db_get_sample :: "i64 \<Rightarrow> RefSample \<Rightarrow> DecBuf \<Rightarrow> (RefSample \<times> DecBuf) result" where
  "db_get_sample junk base d =
     res_bind (db_get_signed_variant d) (\<lambda>(id_delta, d).
     res_bind (db_get_signed_variant d) (\<lambda>(logical_id_delta, d).
     res_bind (db_get_signed_variant d) (\<lambda>(time_delta, d).
     res_bind (db_get_BE_uint64 d) (\<lambda>(v, d).
       Ok (\<lparr>sm_ref = sm_ref base + id_delta, sm_logical_id = sm_logical_id base + logical_id_delta,
            sm_t = sm_t base + time_delta, sm_v = decode_double v, sm_txn = junk\<rparr>, d)))))"

definition db_get_base :: "i64 \<Rightarrow> DecBuf \<Rightarrow> (RefSample \<times> DecBuf) result" where
  "db_get_base junk d =
     res_bind (db_get_BE_uint64 d) (\<lambda>(ref, d).
     res_bind (db_get_BE_uint64 d) (\<lambda>(logical_id, d).
     res_bind (db_get_BE_uint64 d) (\<lambda>(t, d).
     res_bind (db_get_BE_uint64 d) (\<lambda>(v, d).
       Ok (\<lparr>sm_ref = ref, sm_logical_id = logical_id, sm_t = t, sm_v = decode_double v, sm_txn = junk\<rparr>, d)))))"

definition db_get_stone :: "DecBuf \<Rightarrow> ((u64 \<times> Interval) \<times> DecBuf) result" where
  "db_get_stone d =
     res_bind (db_get_BE_uint64 d) (\<lambda>(ref, d).
     res_bind (db_get_signed_variant d) (\<lambda>(t1, d).
     res_bind (db_get_signed_variant d) (\<lambda>(t2, d). Ok ((ref, Interval_of t1 t2), d))))"

subsection \<open>The fields of the records\<close>

definition label_image :: "Label \<Rightarrow> bytes" where
  "label_image l = string_image (label l) @ string_image (lvalue l)"

definition label_fits :: "Label \<Rightarrow> bool" where
  "label_fits l \<longleftrightarrow> length (label l) < 2 ^ 64 \<and> length (lvalue l) < 2 ^ 64"

definition lset_image :: "Labels \<Rightarrow> bytes" where
  "lset_image ls = encode_unsigned_varint (of_nat (length ls)) @ concat (map label_image ls)"

definition lset_fits :: "Labels \<Rightarrow> bool" where
  "lset_fits ls \<longleftrightarrow> length ls < 2 ^ 31 \<and> list_all label_fits ls"

definition series_image :: "RefSeries \<Rightarrow> bytes" where
  "series_image r = be_bytes 8 (rs_ref r) @ be_bytes 8 (rs_flushed_txn r) @ be_bytes 8 (rs_log_clean_txn r)
     @ lset_image (rs_lptr r)"

definition sample_image :: "RefSample \<Rightarrow> RefSample \<Rightarrow> bytes" where
  "sample_image front s = encode_signed_varint (sm_ref s - sm_ref front)
     @ encode_signed_varint (sm_logical_id s - sm_logical_id front) @ encode_signed_varint (sm_t s - sm_t front)
     @ be_bytes 8 (encode_double (sm_v s))"

definition stone_image :: "u64 \<times> Interval \<Rightarrow> bytes" where
  "stone_image = (\<lambda>(ref, i). be_bytes 8 ref @ encode_signed_varint (min_time i) @ encode_signed_varint (max_time i))"

interpretation label_field: buf_field eb_put_label db_get_label label_image label_fits
proof (unfold_locales, goal_cases)
  case (1 e l)
  then show ?case unfolding eb_put_label_def label_image_def
    by (intro holds_eq [OF holds_bind]) (rule buf_put_fields | assumption | simp)+
next
  case (2 l d rest)
  then have "length (label l) < 2 ^ 64" and v: "length (lvalue l) < 2 ^ 64"
    and "dec_at d (string_image (label l) @ string_image (lvalue l) @ rest)"
    by (simp_all add: label_fits_def label_image_def)
  from string_field.get_image [OF this(1,3)] show ?case unfolding db_get_label_def
  proof (rule yields_bind, unfold prod.case)
    fix d assume "dec_at d (string_image (lvalue l) @ rest)"
    from string_field.get_image [OF v this]
    show "yields (res_bind (db_get_uvariant_string d) (\<lambda>(value, d). Ok (Label (label l) value, d))) l rest"
      by (rule yields_bind) (simp add: yields_def)
  qed
next
  case (3 d v d')
  then show ?case
    by (auto simp: db_get_label_def res_bind_eq_Ok intro: progresses_trans dest!: field_progress)
qed

lemma dec_labels_image:
  "list_all label_fits ls \<Longrightarrow> dec_at d (concat (map label_image ls) @ rest) \<Longrightarrow>
   yields (dec_labels (length ls) acc d) (acc @ ls) rest"
proof (induction ls arbitrary: acc d)
  case (Cons l ls)
  then have "label_fits l" "dec_at d (label_image l @ concat (map label_image ls) @ rest)" by simp_all
  from label_field.get_image [OF this] show ?case
    using Cons.IH [of _ "acc @ [l]"] Cons.prems(1) by (simp, elim yields_bind) simp
qed (simp add: yields_def)

lemma dec_labels_progress: "dec_labels n acc d = Ok (ls, d') \<Longrightarrow> d' = d \<or> progresses d d'"
proof (induction n arbitrary: acc d)
  case (Suc n)
  then obtain l d1 where "db_get_label d = Ok (l, d1)" "dec_labels n (acc @ [l]) d1 = Ok (ls, d')"
    by (auto simp: res_bind_eq_Ok)
  with Suc.IH label_field.get_progress show ?case by (metis progresses_trans)
qed simp

interpretation lset_field: buf_field eb_put_lset db_get_lset lset_image lset_fits
proof (unfold_locales, goal_cases)
  case (1 e ls)
  then show ?case unfolding eb_put_lset_def lset_image_def
    by (intro holds_eq [OF holds_bind]) (rule buf_put_fields label_field.put_all_onto | assumption | simp)+
next
  case (2 ls d rest)
  then have fits: "list_all label_fits ls" and n: "unat (of_nat (length ls) :: u64) = length ls" "length ls < 2 ^ 31"
    and d: "dec_at d (encode_unsigned_varint (of_nat (length ls)) @ concat (map label_image ls) @ rest)"
    by (simp_all add: lset_fits_def lset_image_def of_nat_inverse)
  from uvarint_field.get_image [OF TrueI d] show ?case
    unfolding db_get_lset_def using n dec_labels_image [OF fits, of _ rest "[]"] by (elim yields_bind) simp
next
  case (3 d v d')
  then obtain n d1 where "db_get_unsigned_variant d = Ok (n, d1)" "dec_labels (unat n) [] d1 = Ok (v, d')"
    by (auto simp: db_get_lset_def res_bind_eq_Ok split: if_splits)
  with dec_labels_progress field_progress show ?case by (metis progresses_trans)
qed

definition series_fits :: "RefSeries \<Rightarrow> bool" where
  "series_fits r \<longleftrightarrow> rs_lset_ptr r = None \<and> sorted (rs_lset r) \<and> lset_fits (rs_lset r)"

interpretation series_field: buf_field eb_put_series db_get_series series_image series_fits
proof (unfold_locales, goal_cases)
  case (1 e r)
  then show ?case unfolding eb_put_series_def series_image_def
    by (intro holds_eq [OF holds_bind]) (rule buf_put_fields lset_field.put_onto holds_bind | assumption | simp)+
next
  case (2 r d rest)
  then have r: "rs_lptr r = rs_lset r" "sort (rs_lset r) = rs_lset r" "lset_fits (rs_lset r)"
    "RefSeries_new (rs_ref r) (rs_lset r) (rs_flushed_txn r) (rs_log_clean_txn r) = r"
    by (simp_all add: series_fits_def rs_lptr_def sorted_sort_id RefSeries_new_def)
  with 2 have "dec_at d (be_bytes 8 (rs_ref r) @ be_bytes 8 (rs_flushed_txn r) @ be_bytes 8 (rs_log_clean_txn r)
      @ lset_image (rs_lset r) @ rest)" by (simp add: series_image_def)
  then show ?case unfolding db_get_series_def
    by - ((rule yields_bind, rule be64_field.get_image [OF TrueI], assumption, simp only: prod.case)+,
        rule yields_bind, rule lset_field.get_image [OF r(3)], assumption, simp add: yields_def r)
next
  case (3 d v d')
  then show ?case
    by (auto simp: db_get_series_def res_bind_eq_Ok intro: progresses_trans
        dest!: field_progress lset_field.get_progress)
qed

interpretation sample_field: buf_field "eb_put_sample front" "db_get_sample junk front" "sample_image front"
  "\<lambda>s. sm_txn s = junk" for front junk
proof (unfold_locales, goal_cases)
  case (1 e s)
  then show ?case unfolding eb_put_sample_def sample_image_def
    by (intro holds_eq [OF holds_bind]) (rule buf_put_fields holds_bind | assumption | simp)+
next
  case (2 s d rest)
  then have "dec_at d (encode_signed_varint (sm_ref s - sm_ref front)
     @ encode_signed_varint (sm_logical_id s - sm_logical_id front) @ encode_signed_varint (sm_t s - sm_t front)
     @ be_bytes 8 (encode_double (sm_v s)) @ rest)" by (simp add: sample_image_def)
  then show ?case unfolding db_get_sample_def
    by - ((rule yields_bind, rule buf_get_fields, assumption, simp only: prod.case)+,
        simp add: yields_def 2(1) [symmetric] encode_double_def decode_double_def)
next
  case (3 d v d')
  then show ?case
    by (auto simp: db_get_sample_def res_bind_eq_Ok intro: progresses_trans dest!: field_progress)
qed

interpretation stone_field: buf_field "\<lambda>e (ref, i). eb_put_interval ref e i" db_get_stone stone_image "\<lambda>_. True"
proof (unfold_locales, goal_cases)
  case (1 e s)
  then show ?case unfolding eb_put_interval_def stone_image_def prod.case_eq_if
    by (intro holds_eq [OF holds_bind]) (rule buf_put_fields holds_bind | assumption | simp)+
next
  case (2 s d rest)
  obtain ref i where s: "s = (ref, i)" by (cases s)
  have i: "Interval_of (min_time i) (max_time i) = i" by (simp add: Interval_of_def)
  from 2 s have "dec_at d (be_bytes 8 ref @ encode_signed_varint (min_time i) @ encode_signed_varint (max_time i) @ rest)"
    by (simp add: stone_image_def)
  then show ?case unfolding db_get_stone_def
    by - ((rule yields_bind, rule buf_get_fields, assumption, simp only: prod.case)+, simp add: yields_def s i)
next
  case (3 d v d')
  then show ?case
    by (auto simp: db_get_stone_def res_bind_eq_Ok intro: progresses_trans dest!: field_progress)
qed

subsection \<open>The decoders\<close>

function dec_series_loop :: "DecBuf \<Rightarrow> RefSeries list \<Rightarrow> (rec_error option \<times> RefSeries list) result" where
  "dec_series_loop d refseries =
     (if db_len d > 0 \<and> db_err d = NO_ERR
      then res_bind (db_get_series d) (\<lambda>(r, d').
             if db_err d' \<noteq> NO_ERR then Ok (Some (Dec_error (db_error_str d')), refseries)
             else dec_series_loop d' (refseries @ [r]))
      else dec_finish d refseries)"
  by pat_completeness auto
termination
  by (relation "measure (db_len \<circ> fst)")
    (auto simp: progresses_def db_len_def dest!: series_field.get_progress)

definition RecordDecoder_series :: "bytes \<Rightarrow> RefSeries list \<Rightarrow> (rec_error option \<times> RefSeries list) result" where
  "RecordDecoder_series rec refseries =
     res_bind (db_get_byte (DecBuf_new rec)) (\<lambda>(b, d).
       if b \<noteq> RECORD_SERIES then Ok (Some Invalid_record_type, refseries) else dec_series_loop d refseries)"

text \<open>The sample and tombstone loops look at the error only in the loop condition.\<close>

definition budget :: "DecBuf \<Rightarrow> nat" where
  "budget d = (if db_err d = NO_ERR then Suc (db_len d) else 0)"

lemma budget_less: "progresses d d' \<Longrightarrow> 0 < db_len d \<Longrightarrow> db_err d = NO_ERR \<Longrightarrow> budget d' < budget d"
  by (auto simp: progresses_def budget_def db_len_def)

function dec_samples_loop :: "i64 \<Rightarrow> RefSample \<Rightarrow> DecBuf \<Rightarrow> RefSample list \<Rightarrow> (rec_error option \<times> RefSample list) result" where
  "dec_samples_loop junk base d refsamples =
     (if db_len d > 0 \<and> db_err d = NO_ERR
      then res_bind (db_get_sample junk base d) (\<lambda>(s, d').
             dec_samples_loop junk base d' (refsamples @ [s]))
      else dec_finish d refsamples)"
  by pat_completeness auto
termination
  by (relation "measure (\<lambda>(_, _, d, _). budget d)")
    (auto intro: budget_less sample_field.get_progress)

definition RecordDecoder_samples :: "i64 \<Rightarrow> bytes \<Rightarrow> RefSample list \<Rightarrow> (rec_error option \<times> RefSample list) result" where
  "RecordDecoder_samples junk rec refsamples =
     res_bind (db_get_byte (DecBuf_new rec)) (\<lambda>(b, d).
       if b \<noteq> RECORD_SAMPLES then Ok (Some Invalid_record_type, refsamples)
       else if db_len d = 0 then Ok (None, refsamples)
       else res_bind (db_get_base junk d) (\<lambda>(base, d). dec_samples_loop junk base d (refsamples @ [base])))"

function dec_tombstones_loop :: "DecBuf \<Rightarrow> Stone list \<Rightarrow> (rec_error option \<times> Stone list) result" where
  "dec_tombstones_loop d stones =
     (if db_len d > 0 \<and> db_err d = NO_ERR
      then res_bind (db_get_stone d) (\<lambda>(s, d').
             dec_tombstones_loop d' (stones @ [\<lparr>st_ref = fst s, st_itvls = [snd s]\<rparr>]))
      else dec_finish d stones)"
  by pat_completeness auto
termination
  by (relation "measure (\<lambda>(d, _). budget d)") (auto intro: budget_less stone_field.get_progress)

definition RecordDecoder_tombstones :: "bytes \<Rightarrow> Stone list \<Rightarrow> (rec_error option \<times> Stone list) result" where
  "RecordDecoder_tombstones rec stones =
     res_bind (db_get_byte (DecBuf_new rec)) (\<lambda>(b, d).
       if b \<noteq> RECORD_TOMBSTONES then Ok (Some Invalid_record_type, stones) else dec_tombstones_loop d stones)"

declare dec_series_loop.simps [simp del] dec_samples_loop.simps [simp del] dec_tombstones_loop.simps [simp del]

subsection \<open>Reading back what was written\<close>

lemma dec_finish_at_end: "dec_at d [] \<Longrightarrow> dec_finish d out = Ok (None, out)"
  using dec_atD [of d "[]"] by (simp add: dec_finish_def)

lemma dec_at_more: "dec_at d (x @ r) \<Longrightarrow> x \<noteq> [] \<Longrightarrow> 0 < db_len d \<and> db_err d = NO_ERR"
  using dec_atD [of d "x @ r"] by simp

lemma dec_series_loop_image:
  "list_all series_fits rs \<Longrightarrow> dec_at d (concat (map series_image rs)) \<Longrightarrow>
   dec_series_loop d out = Ok (None, out @ rs)"
proof (induction rs arbitrary: d out)
  case Nil
  then show ?case using dec_atD [of d "[]"] by (subst dec_series_loop.simps) (simp add: dec_finish_at_end)
next
  case (Cons r rs)
  then have r: "series_fits r" and d: "dec_at d (series_image r @ concat (map series_image rs))" by simp_all
  from series_field.get_image [OF r d] obtain d' where
    "db_get_series d = Ok (r, d')" "dec_at d' (concat (map series_image rs))" by (auto simp: yields_def)
  with Cons dec_at_more [OF d series_field.image_nonempty [OF r]] show ?case
    by (subst dec_series_loop.simps) (simp add: dec_atD(1))
qed

lemma dec_samples_loop_image:
  "list_all (\<lambda>s. sm_txn s = junk) ss \<Longrightarrow> dec_at d (concat (map (sample_image base) ss)) \<Longrightarrow>
   dec_samples_loop junk base d out = Ok (None, out @ ss)"
proof (induction ss arbitrary: d out)
  case Nil
  then show ?case using dec_atD [of d "[]"] by (subst dec_samples_loop.simps) (simp add: dec_finish_at_end)
next
  case (Cons s ss)
  then have s: "sm_txn s = junk" and d: "dec_at d (sample_image base s @ concat (map (sample_image base) ss))"
    by simp_all
  from sample_field.get_image [OF s d] obtain d' where
    "db_get_sample junk base d = Ok (s, d')" "dec_at d' (concat (map (sample_image base) ss))"
    by (auto simp: yields_def)
  with Cons dec_at_more [OF d sample_field.image_nonempty [OF s]] show ?case
    by (subst dec_samples_loop.simps) simp
qed

definition flat_stones :: "Stone list \<Rightarrow> (u64 \<times> Interval) list" where
  "flat_stones stones = concat (map (\<lambda>s. map (Pair (st_ref s)) (st_itvls s)) stones)"

definition single_stone :: "u64 \<times> Interval \<Rightarrow> Stone" where
  "single_stone = (\<lambda>(ref, i). \<lparr>st_ref = ref, st_itvls = [i]\<rparr>)"

lemma dec_tombstones_loop_image:
  "dec_at d (concat (map stone_image ss)) \<Longrightarrow> dec_tombstones_loop d out = Ok (None, out @ map single_stone ss)"
proof (induction ss arbitrary: d out)
  case Nil
  then show ?case using dec_atD [of d "[]"] by (subst dec_tombstones_loop.simps) (simp add: dec_finish_at_end)
next
  case (Cons s ss)
  then have d: "dec_at d (stone_image s @ concat (map stone_image ss))" by simp
  from stone_field.get_image [OF TrueI d] obtain d' where
    "db_get_stone d = Ok (s, d')" "dec_at d' (concat (map stone_image ss))" by (auto simp: yields_def)
  with Cons dec_at_more [OF d stone_field.image_nonempty [OF TrueI]] show ?case
    by (subst dec_tombstones_loop.simps) (simp add: single_stone_def split: prod.split)
qed

text \<open>The bytes the encoders append.\<close>

lemma encoder_start: "eb_ok EncBuf_new" "eb_get EncBuf_new = []"
  by (simp_all add: eb_ok_def eb_get_def EncBuf_new_def)

lemma holds_out: "buf_holds m bs \<Longrightarrow> res_bind m (\<lambda>e. Ok (rec @ eb_get e)) = Ok (rec @ bs)"
  by (auto simp: buf_holds_def)

lemma res_bind_assoc: "res_bind m (\<lambda>x. res_bind (f x) g) = res_bind (res_bind m f) g"
  by (cases m) simp_all

lemmas put_rules = holds_bind buf_put_fields series_field.put_all_onto sample_field.put_all_onto
  stone_field.put_all_onto encoder_start

lemma RecordEncoder_series_bytes:
  "RecordEncoder_series rs rec = Ok (rec @ [RECORD_SERIES] @ concat (map series_image rs))"
  unfolding RecordEncoder_series_def res_bind_assoc
  by (rule holds_out, rule holds_eq) (rule put_rules | assumption | simp)+

lemma RecordEncoder_samples_bytes:
  "RecordEncoder_samples (s # ss) rec = Ok (rec @ [RECORD_SAMPLES] @ be_bytes 8 (sm_ref s)
     @ be_bytes 8 (sm_logical_id s) @ be_bytes 8 (sm_t s) @ be_bytes 8 (encode_double (sm_v s))
     @ concat (map (sample_image s) ss))"
  unfolding RecordEncoder_samples.simps res_bind_assoc
  by (rule holds_out, rule holds_eq) (rule put_rules | assumption | simp)+

lemma put_all_append: "put_all put e (xs @ ys) = res_bind (put_all put e xs) (\<lambda>e. put_all put e ys)"
  by (induction xs arbitrary: e) (simp_all add: res_bind_assoc)

lemma put_all_stones:
  "put_all eb_put_stone e stones = put_all (\<lambda>e (ref, i). eb_put_interval ref e i) e (flat_stones stones)"
proof (induction stones arbitrary: e)
  case (Cons s stones)
  have "put_all (eb_put_interval ref) e is = put_all (\<lambda>e (ref, i). eb_put_interval ref e i) e (map (Pair ref) is)" for ref e "is"
    by (induction "is" arbitrary: e) simp_all
  with Cons show ?case by (simp add: flat_stones_def eb_put_stone_def put_all_append)
qed (simp add: flat_stones_def)

lemma RecordEncoder_tombstones_bytes:
  "RecordEncoder_tombstones stones rec = Ok (rec @ [RECORD_TOMBSTONES] @ concat (map stone_image (flat_stones stones)))"
  unfolding RecordEncoder_tombstones_def put_all_stones res_bind_assoc
  by (rule holds_out, rule holds_eq) (rule put_rules | assumption | simp)+

lemma first_byte:
  obtains d where "db_get_byte (DecBuf_new (b # bs)) = Ok (b, d)" "dec_at d bs"
  using byte_field.get_image [of "DecBuf_new (b # bs)" b bs] by (auto simp: yields_def dec_at_def DecBuf_new_def)

subsection \<open>Properties\<close>

text \<open>How the decoder presents a series: the labels in the object itself.\<close>

definition owned :: "RefSeries \<Rightarrow> RefSeries" where
  "owned r = RefSeries_new (rs_ref r) (rs_lptr r) (rs_flushed_txn r) (rs_log_clean_txn r)"

text \<open>
  C17: a series record decodes, without error and behind whatever the vector held, to the series
  it was made from, whether their labels were stored in the object or behind a pointer, provided
  the labels are sorted and their numbers and lengths are representable.
\<close>

theorem series_record_roundtrip:
  assumes "list_all (\<lambda>r. sorted (rs_lptr r) \<and> lset_fits (rs_lptr r)) rs"
  shows "\<exists>rec. RecordEncoder_series rs [] = Ok rec \<and> RecordDecoder_type rec = RECORD_SERIES
     \<and> RecordDecoder_series rec out = Ok (None, out @ map owned rs)"
proof -
  have fits: "list_all series_fits (map owned rs)"
    using assms by (induction rs) (auto simp: series_fits_def owned_def RefSeries_new_def)
  have "series_image (owned r) = series_image r" for r
    by (simp add: series_image_def owned_def RefSeries_new_def rs_lptr_def)
  then have img: "map series_image (map owned rs) = map series_image rs" by simp
  obtain d where "db_get_byte (DecBuf_new (RECORD_SERIES # concat (map series_image rs))) = Ok (RECORD_SERIES, d)"
    "dec_at d (concat (map series_image rs))" by (rule first_byte)
  then have "RecordDecoder_series (RECORD_SERIES # concat (map series_image rs)) out = Ok (None, out @ map owned rs)"
    using dec_series_loop_image [OF fits, unfolded img, of d out] by (simp add: RecordDecoder_series_def)
  then show ?thesis by (simp add: RecordEncoder_series_bytes RecordDecoder_type_def)
qed

theorem series_record_roundtrip_witness:
  "let r = \<lparr>rs_ref = 9, rs_lset = [], rs_lset_ptr = Some [Label [97] [1], Label [98] []], rs_flushed_txn = - 1,
            rs_log_clean_txn = 4\<rparr>
   in \<exists>rec. RecordEncoder_series [r, r] [] = Ok rec \<and> RecordDecoder_type rec = RECORD_SERIES
     \<and> RecordDecoder_series rec [] = Ok (None, [owned r, owned r])"
  using series_record_roundtrip [of "[\<lparr>rs_ref = 9, rs_lset = [],
      rs_lset_ptr = Some [Label [97] [1], Label [98] []], rs_flushed_txn = - 1, rs_log_clean_txn = 4\<rparr>,
    \<lparr>rs_ref = 9, rs_lset = [], rs_lset_ptr = Some [Label [97] [1], Label [98] []], rs_flushed_txn = - 1,
      rs_log_clean_txn = 4\<rparr>]" "[]"]
  by (simp add: Let_def rs_lptr_def lset_fits_def label_fits_def less_eq_Label_op Label_less_eq_def string_compare_def)

text \<open>
  C18: a samples record decodes to the samples it was made from, except for \<open>txn\<close>, which is not
  stored: the deltas are taken from the first sample and wrap around consistently.
\<close>

theorem samples_record_roundtrip:
  assumes "ss \<noteq> []"
  shows "\<exists>rec. RecordEncoder_samples ss [] = Ok rec \<and> RecordDecoder_type rec = RECORD_SAMPLES
     \<and> RecordDecoder_samples junk rec out = Ok (None, out @ map (\<lambda>s. s\<lparr>sm_txn := junk\<rparr>) ss)"
proof -
  obtain s ts where ss: "ss = s # ts" using assms by (cases ss) auto
  let ?n = "\<lambda>s. s\<lparr>sm_txn := junk\<rparr>"
  have fits: "list_all (\<lambda>s. sm_txn s = junk) (map ?n ts)" by (simp add: list_all_iff)
  have img: "map (sample_image (?n s)) (map ?n ts) = map (sample_image s) ts" by (simp add: sample_image_def)
  let ?base = "be_bytes 8 (sm_ref s) @ be_bytes 8 (sm_logical_id s) @ be_bytes 8 (sm_t s) @ be_bytes 8 (encode_double (sm_v s))"
  let ?tl = "concat (map (sample_image s) ts)"
  obtain d where d: "db_get_byte (DecBuf_new (RECORD_SAMPLES # ?base @ ?tl)) = Ok (RECORD_SAMPLES, d)"
    "dec_at d (?base @ ?tl)" by (rule first_byte)
  then have "yields (db_get_base junk d) (?n s) ?tl" unfolding db_get_base_def append.assoc
    by - ((rule yields_bind, rule buf_get_fields, assumption, simp only: prod.case)+,
        simp add: yields_def encode_double_def decode_double_def)
  then obtain d' where "db_get_base junk d = Ok (?n s, d')" "dec_at d' ?tl" by (auto simp: yields_def)
  then have "RecordDecoder_samples junk (RECORD_SAMPLES # ?base @ ?tl) out = Ok (None, out @ map ?n ss)"
    using d dec_at_more [of d ?base ?tl] dec_samples_loop_image [OF fits, of d' "?n s" "out @ [?n s]", unfolded img]
    by (simp add: RecordDecoder_samples_def ss be64_field.image_nonempty)
  then show ?thesis
    by (simp add: ss RecordEncoder_samples_bytes RecordDecoder_type_def del: RecordEncoder_samples.simps)
qed

theorem samples_record_roundtrip_witness:
  "let ss = [\<lparr>sm_ref = 3, sm_logical_id = 1, sm_t = 1000, sm_v = 0x4000000000000000, sm_txn = 7\<rparr>,
             \<lparr>sm_ref = 2, sm_logical_id = 5, sm_t = - 1000, sm_v = 0, sm_txn = 8\<rparr>]
   in \<exists>rec. RecordEncoder_samples ss [] = Ok rec \<and> RecordDecoder_type rec = RECORD_SAMPLES
     \<and> RecordDecoder_samples 0 rec [] = Ok (None, map (\<lambda>s. s\<lparr>sm_txn := 0\<rparr>) ss)"
  using samples_record_roundtrip [of "[\<lparr>sm_ref = 3, sm_logical_id = 1, sm_t = 1000, sm_v = 0x4000000000000000, sm_txn = 7\<rparr>,
      \<lparr>sm_ref = 2, sm_logical_id = 5, sm_t = - 1000, sm_v = 0, sm_txn = 8\<rparr>]" 0 "[]"]
  by (simp add: Let_def)

text \<open>
  C19: a tombstones record decodes to one stone per deleted range, in the order of the stones and
  of their ranges.
\<close>

theorem tombstones_record_roundtrip:
  "\<exists>rec. RecordEncoder_tombstones stones [] = Ok rec \<and> RecordDecoder_type rec = RECORD_TOMBSTONES
     \<and> RecordDecoder_tombstones rec out = Ok (None, out @ map single_stone (flat_stones stones))"
proof -
  let ?b = "concat (map stone_image (flat_stones stones))"
  obtain d where "db_get_byte (DecBuf_new (RECORD_TOMBSTONES # ?b)) = Ok (RECORD_TOMBSTONES, d)" "dec_at d ?b"
    by (rule first_byte)
  then show ?thesis
    using dec_tombstones_loop_image [of d "flat_stones stones" out]
    by (simp add: RecordEncoder_tombstones_bytes RecordDecoder_tombstones_def RecordDecoder_type_def)
qed

end
