(* ===== verification/Spec2Isabelle.thy ===== *)
theory Spec2Isabelle
  imports Gorilla LogRandom SeriesIterator TombstoneFile WalRecords
begin

text \<open>
  A verification of PromTCS, a time series database in C++ built on a modified
  LevelDB. All file names below are relative to \<open>src/\<close>.

  \<^bold>\<open>The program.\<close> Samples and series arrive at a head (\<open>head/\<close>, \<open>TreeSeries/\<close>),
  which first writes them to a write-ahead log: record encoders turn batches into byte
  strings (\<open>leveldb/db/log_writer.cc\<close>, functions of \<open>namespace log\<close>, optionally with
  Gorilla compression), the block-framed log cuts them into checksummed fragments
  (\<open>Writer\<close>, \<open>Reader\<close>, \<open>RandomWriter\<close>, \<open>RandomReader\<close>), and POSIX files
  (\<open>leveldb/util/env_posix.cc\<close>, \<open>io_posix.cc\<close>) store them. On restart the
  records are read back and decoded (\<open>leveldb/db/log_reader.cc\<close>). Labels identify
  series (\<open>label/\<close>); integers are stored with the codings of \<open>base/Endian.cpp\<close> and
  \<open>leveldb/util/coding.cc\<close>.

  \<^bold>\<open>Theories and what they model.\<close>
  \<^item> \<open>Prelude\<close>: machine words, outcomes of C++ code, bit and byte sequences, shared lemmas.
  \<^item> \<open>Codec\<close>: the locale \<open>codec\<close>, the contract of an encoder and a decoder that consumes
    exactly what was written; its lemmas on sequences of fields serve every record format.
  \<^item> \<open>Endian\<close>: \<open>base/Endian.cpp\<close>, big-endian integers, doubles and varints.
  \<^item> \<open>Coding\<close>: \<open>leveldb/util/coding.{h,cc}\<close>, fixed and variable length integers,
    length-prefixed slices and the storage keys, whose bytewise order is related to the order
    of their parts. Each pair of functions interprets \<open>codec\<close>.
  \<^item> \<open>Label\<close>: \<open>label/Label.cpp\<close> and the matchers; label sets as sorted maps, their order,
    and injectivity of the hash input. \<open>XXH64\<close> and \<open>std::regex\<close> are parameters.
  \<^item> \<open>LogRecords\<close>: every record format of the logs with its encoders and decoders, and
    their round trips.
  \<^item> \<open>BitIO\<close>, \<open>Gorilla\<close>: bit streams as locales, and the Gorilla compression of WAL
    samples: a round trip for the streams the format can express, and an exact account of
    the values it corrupts.
  \<^item> \<open>BitStream\<close>: \<open>chunk/BitStream.cpp\<close>, the bit stream of the chunks, a second
    implementation of the contracts of \<open>BitIO\<close>; round trips of fields, and equality of the
    positional with the sequential readers.
  \<^item> \<open>XORChunk\<close>, \<open>XORRoundtrip\<close>: \<open>chunk/XORAppender.cpp\<close>, \<open>XORIterator.cpp\<close>,
    \<open>XORChunk.cpp\<close>; an invariant ties the bytes of a chunk to its appender and to what any
    iterator reads, and gives the round trip over batches of appends.
  \<^item> \<open>ChunkMerge\<close>: \<open>chunk/ChunkUtils.cpp\<close>, merging of two and of all overlapping chunks, with
    the shared meta data in a store and updated in place; the last sample of a time stamp wins.
  \<^item> \<open>SeriesIterator\<close>: \<open>chunk/DeleteIterator.cpp\<close> and \<open>querier/ChunkSeriesIterator.cpp\<close>, what
    a query over the chunks of a series returns, and where it loses samples. The locale \<open>iterator_interface\<close> is the contract
    of \<open>ChunkIteratorInterface\<close>, interpreted for the plain, the deleting and the combined iterator.
  \<^item> \<open>Crc32c\<close>: \<open>leveldb/util/crc32c.cc\<close> with its tables; equality of the strided routine
    with the bit-serial checksum, and detection of a changed byte.
  \<^item> \<open>Env\<close>: the POSIX files over a kernel that may shorten, interrupt or fail calls; the
    locale \<open>append_file\<close> is what the log writer relies on.
  \<^item> \<open>LogFraming\<close>, \<open>LogRoundtrip\<close>: the sequential writer and reader of the framed log;
    recovery of exactly the complete records from any prefix of the file.
  \<^item> \<open>LogRandom\<close>: the random access writer and reader; reading at a stored offset and
    overwriting the start of a record in place, with the \<open>int\<close> positions of the writer.
  \<^item> \<open>Buffers\<close>: \<open>tsdbutil/EncBuf.hpp\<close> and \<open>DecBuf.hpp\<close>; the locale \<open>buf_field\<close> is the
    contract of a field that is put into the one and got from the other, interpreted for every
    pair of operations and for the fields of the records built from them.
  \<^item> \<open>Intervals\<close>, \<open>TombstoneFile\<close>: \<open>tombstone/\<close>, the deleted ranges of a series as a set
    of time stamps, the tombstones in memory and their file. The checksum and the order in which
    a hash map is visited are parameters.
  \<^item> \<open>WalRecords\<close>: \<open>tsdbutil/RecordEncoder.cpp\<close> and \<open>RecordDecoder.cpp\<close> over the buffers.
  \<^item> This theory: the properties that span components.

  \<^bold>\<open>Correspondence.\<close> A class is a record of its fields, an operation a function on it that
  returns the new state; an out-parameter is a component of the result. \<open>int64_t\<close> and
  \<open>uint64_t\<close> are 64-bit words, a double is its bit pattern, \<open>std::string\<close> is a list of
  bytes. Undefined behaviour (reading outside a buffer, uninitialised data, oversized
  shifts) is \<open>None\<close>, or \<open>Undef\<close> where exceptions occur too (\<open>Endian\<close>,
  \<open>BitStream\<close>). The positions of the random access
  writer are computed in \<open>int\<close> and become undefined at 2 GiB, as in the code, so its
  theorems are about logs below that size. The block number of the sequential writer is an
  \<open>int\<close> too, but its offset is computed in 64 bits; it is a natural number in the model, which
  is the same for files below 64 TiB. The other positions in files and buffers (\<open>uint64_t\<close>
  and \<open>size_t\<close>) are natural numbers, and the decoders of log records keep the
  bytes that are left in place of an \<open>int\<close> position, which is the same for records below
  2 GiB.

  \<^bold>\<open>Termination.\<close> All loops are total functions with termination proofs, so no fuel is
  used, except the loop of \<open>RandomReader::ReadRecord\<close>, which can run forever on a
  damaged file: it is a partial function, and its lemmas prove that it returns on every
  well-formed record.

  \<^bold>\<open>Not modelled.\<close> Thread interleavings, sockets and HTTP (\<open>db/\<close>), generated protocol
  buffers (\<open>protobuf/\<close>), third-party code, and so far the on-disk tables and the
  compaction of LevelDB, the in-memory indexes (\<open>mem/\<close>) and the rest of the query
  engine (\<open>querier/\<close>).
\<close>

subsection \<open>Properties\<close>

text \<open>
  C3: Marking a series in the tag log. The head stores the position of the record of a
  series and later overwrites the start of the record with
  \<open>series_without_labels\<close>, which carries new transaction ids. In a log of less than 2 GiB
  the write succeeds, and the record at that position then decodes to the same series, labels
  included, with the new ids, also when the record is spread over several blocks.
\<close>

theorem series_marks_updated_in_place:
  assumes "i < length ds" "ds ! i = series_one_enc r []" "length (log_bytes 0 ds) < 2 ^ 31"
    "labels_ok (rs_lptr r)" "rs_lset rs = []"
  shows "\<exists>w. random_AddRecord lib addr (RandomWriter_new lib addr' \<lparr>fd_data = log_bytes 0 ds, fd_events = []\<rparr>)
      (record_pos ds i) (series_without_labels (rs_ref r) flushed_txn log_clean_txn []) False = Some (OK, w)
    \<and> (\<forall>rd. rr_file rd = rw_dest w \<longrightarrow> (\<exists>d rd'. random_ReadRecord rd (record_pos ds i) = Some (True, d, rd')
        \<and> series_one_dec d rs = Some (True, rs\<lparr>rs_ref := rs_ref r, rs_flushed_txn := flushed_txn,
            rs_log_clean_txn := log_clean_txn, rs_lset := rs_lptr r\<rparr>)))"
proof -
  let ?e = "series_without_labels (rs_ref r) flushed_txn log_clean_txn []"
  have "length ?e \<le> length (ds ! i)" unfolding assms(2) by (rule length_series_patch)
  from random_patch_record [OF assms(1) this assms(3), of lib addr addr']
  obtain w where P: "random_AddRecord lib addr (RandomWriter_new lib addr' \<lparr>fd_data = log_bytes 0 ds, fd_events = []\<rparr>)
      (record_pos ds i) ?e False = Some (OK, w)"
    "carries (fd_data (rw_dest w)) (record_pos ds i) (?e @ drop (length ?e) (ds ! i)) True" "fd_events (rw_dest w) = []" by metis
  have "\<exists>rd'. random_ReadRecord rd (record_pos ds i) = Some (True, ?e @ drop (length ?e) (ds ! i), rd')"
    if "rr_file rd = rw_dest w" for rd
    using random_ReadRecord_carries [OF P(2), of rd] that P(3) by auto
  then show ?thesis using P(1) series_patched_dec [OF assms(4,5)] unfolding assms(2) by metis
qed

theorem series_marks_updated_in_place_witness:
  "\<exists>w d rd'. random_AddRecord None 0 (RandomWriter_new None 0
        \<lparr>fd_data = log_bytes 0 [[1], series_one_enc \<lparr>rs_ref = 9, rs_lset = [Label [1] [2]], rs_lset_ptr = None,
           rs_flushed_txn = 0, rs_log_clean_txn = 1\<rparr> []], fd_events = []\<rparr>)
      (record_pos [[1], series_one_enc \<lparr>rs_ref = 9, rs_lset = [Label [1] [2]], rs_lset_ptr = None,
           rs_flushed_txn = 0, rs_log_clean_txn = 1\<rparr> []] 1) (series_without_labels 9 5 6 []) False = Some (OK, w)
    \<and> random_ReadRecord (RandomReader_new (rw_dest w)) (record_pos [[1], series_one_enc \<lparr>rs_ref = 9, rs_lset = [Label [1] [2]],
           rs_lset_ptr = None, rs_flushed_txn = 0, rs_log_clean_txn = 1\<rparr> []] 1) = Some (True, d, rd')
    \<and> series_one_dec d \<lparr>rs_ref = 0, rs_lset = [], rs_lset_ptr = None, rs_flushed_txn = 0, rs_log_clean_txn = 0\<rparr>
      = Some (True, \<lparr>rs_ref = 9, rs_lset = [Label [1] [2]], rs_lset_ptr = None, rs_flushed_txn = 5, rs_log_clean_txn = 6\<rparr>)"
proof -
  let ?r = "\<lparr>rs_ref = 9, rs_lset = [Label [1] [2]], rs_lset_ptr = None, rs_flushed_txn = 0, rs_log_clean_txn = 1\<rparr>"
  let ?ds = "[[1], series_one_enc ?r []]"
  let ?rs = "\<lparr>rs_ref = 0, rs_lset = [], rs_lset_ptr = None, rs_flushed_txn = 0, rs_log_clean_txn = 0\<rparr>"
  have "length (series_one_enc ?r []) \<le> 100"
    by (simp add: series_one_enc_def put_series_bytes series_bytes_def labels_bytes_def label_bytes_def rs_lptr_def) code_simp
  then have l: "length (log_bytes 0 ?ds) < 2 ^ 31"
    by (simp add: length_record_bytes_one avail_def pad_def block_left_def kBlockSize_def kHeaderSize_def)
  have h: "1 < length ?ds" "?ds ! 1 = series_one_enc ?r []" "labels_ok (rs_lptr ?r)" "rs_lset ?rs = []"
    by (simp_all add: labels_ok_def rs_lptr_def)
  from series_marks_updated_in_place [OF h(1,2) l h(3,4), of None 0 0 5 6]
  obtain w where w: "random_AddRecord None 0 (RandomWriter_new None 0 \<lparr>fd_data = log_bytes 0 ?ds, fd_events = []\<rparr>)
      (record_pos ?ds 1) (series_without_labels (rs_ref ?r) 5 6 []) False = Some (OK, w)"
    "\<And>rd. rr_file rd = rw_dest w \<Longrightarrow> \<exists>d rd'. random_ReadRecord rd (record_pos ?ds 1) = Some (True, d, rd')
        \<and> series_one_dec d ?rs = Some (True, ?rs\<lparr>rs_ref := rs_ref ?r, rs_flushed_txn := 5, rs_log_clean_txn := 6, rs_lset := rs_lptr ?r\<rparr>)"
    by blast
  have "rr_file (RandomReader_new (rw_dest w)) = rw_dest w" by (simp add: RandomReader_new_def)
  from w(2) [OF this] w(1) show ?thesis by (auto simp: rs_lptr_def)
qed

end
